(* ===== verification/Prelude.thy ===== *)
theory Prelude
  imports Main "HOL-Library.Word" "HOL-Library.Signed_Division" "HOL-Library.Multiset"
begin

text \<open>
  Shared vocabulary of the development: the Go machine types the sources use, the byte
  order routines of \<^verbatim>\<open>encoding/binary\<close>, the contract of \<^verbatim>\<open>sort.Slice\<close> and generic
  lemmas on lists, maps and words that several components rest on.

  Go integers: \<^verbatim>\<open>uint8\<close>, \<^verbatim>\<open>uint16\<close>, \<^verbatim>\<open>uint32\<close> and \<^verbatim>\<open>uint64\<close> are words of that width.
  \<^verbatim>\<open>int64\<close> (and \<^verbatim>\<open>int\<close>, 64 bits on the appliance) is \<^typ>\<open>int\<close> with the two's
  complement wrap-around written out by \<open>wrap64\<close>; division truncates towards zero (\<open>sdiv\<close>).
  Strings are lists of characters (bytes).
\<close>

unbundle bit_operations_syntax

named_theorems go_ints \<open>facts on wrapped 64-bit integers\<close>
named_theorems codec \<open>facts on byte encodings\<close>

type_synonym u8 = "8 word"
type_synonym u16 = "16 word"
type_synonym u32 = "32 word"
type_synonym u64 = "64 word"
type_synonym bytes = "8 word list"

section \<open>Definitions\<close>

subsection \<open>Wrapped 64-bit integers\<close>

definition wrap64 :: "int \<Rightarrow> int" where
  "wrap64 x = (x + 2 ^ 63) mod 2 ^ 64 - 2 ^ 63"

subsection \<open>Byte order: the routines of encoding/binary\<close>

text \<open>
  \<open>le_put n v\<close> is what \<^verbatim>\<open>LittleEndian.PutUint\<close> writes for an \<open>n\<close>-byte value: byte
  \<open>i\<close> holds the bits \<open>8 i ..< 8 i + 8\<close>. \<open>le_get\<close> reads a slice back.
\<close>

definition le_put :: "nat \<Rightarrow> 'a::len word \<Rightarrow> bytes" where
  "le_put n v = map (\<lambda>i. ucast (drop_bit (8 * i) v)) [0..<n]"

primrec le_get :: "bytes \<Rightarrow> 'a::len word" where
  "le_get [] = 0"
| "le_get (b # bs) = ucast b OR push_bit 8 (le_get bs)"

definition be_put :: "nat \<Rightarrow> 'a::len word \<Rightarrow> bytes" where
  "be_put n v = rev (le_put n v)"

definition be_get :: "bytes \<Rightarrow> 'a::len word" where
  "be_get bs = le_get (rev bs)"

text \<open>The number a big-endian byte string denotes.\<close>

primrec be_nat :: "bytes \<Rightarrow> nat" where
  "be_nat [] = 0"
| "be_nat (b # bs) = unat b * 256 ^ length bs + be_nat bs"

text \<open>Writing a run of bytes into a slice at an offset: \<^verbatim>\<open>copy(b[off:], ws)\<close>.\<close>

definition write_at :: "nat \<Rightarrow> bytes \<Rightarrow> bytes \<Rightarrow> bytes" where
  "write_at off ws b = take off b @ ws @ drop (off + length ws) b"

text \<open>The slice \<^verbatim>\<open>b[lo:hi]\<close>.\<close>

definition subslice :: "nat \<Rightarrow> nat \<Rightarrow> 'a list \<Rightarrow> 'a list" where
  "subslice lo hi b = take (hi - lo) (drop lo b)"

subsection \<open>sort.Slice\<close>

text \<open>
  \<^verbatim>\<open>sort.Slice\<close> permutes the slice so that no later element is \<open>lt\<close> than an earlier one.
  It is not stable, so the order of equal elements is not determined: the model takes the
  sorting routine as an argument and relies on the two documented facts only.
  \<open>isort\<close> is one such routine.
\<close>

type_synonym 'a sorter = "('a \<Rightarrow> 'a \<Rightarrow> bool) \<Rightarrow> 'a list \<Rightarrow> 'a list"

fun insert_by :: "('a \<Rightarrow> 'a \<Rightarrow> bool) \<Rightarrow> 'a \<Rightarrow> 'a list \<Rightarrow> 'a list" where
  "insert_by lt x [] = [x]"
| "insert_by lt x (y # ys) = (if lt y x then y # insert_by lt x ys else x # y # ys)"

definition isort :: "'a sorter" where
  "isort lt xs = foldr (insert_by lt) xs []"

text \<open>A comparison that \<^verbatim>\<open>sort.Slice\<close> accepts: a strict weak order.\<close>

definition weak_order :: "('a \<Rightarrow> 'a \<Rightarrow> bool) \<Rightarrow> bool" where
  "weak_order lt \<longleftrightarrow>
     (\<forall>x y. lt x y \<longrightarrow> \<not> lt y x) \<and>
     (\<forall>x y z. \<not> lt y x \<longrightarrow> \<not> lt z y \<longrightarrow> \<not> lt z x)"

locale go_sort =
  fixes srt :: "'a sorter"
  assumes srt_mset: "mset (srt lt xs) = mset xs"
    and srt_sorted: "weak_order lt \<Longrightarrow> sorted_wrt (\<lambda>x y. \<not> lt y x) (srt lt xs)"
begin

lemma srt_set: "set (srt lt xs) = set xs"
  by (metis srt_mset set_mset_mset)

lemma srt_length: "length (srt lt xs) = length xs"
  by (metis srt_mset size_mset)

lemma srt_distinct: "distinct (srt lt xs) = distinct xs"
  by (metis srt_mset mset_eq_imp_distinct_iff)

end

section \<open>Wrapped integers\<close>

lemma wrap64_id [go_ints]: "- (2 ^ 63) \<le> x \<Longrightarrow> x < 2 ^ 63 \<Longrightarrow> wrap64 x = x"
  by (simp add: wrap64_def)

lemma wrap64_nonneg_id [go_ints]: "0 \<le> x \<Longrightarrow> x < 2 ^ 63 \<Longrightarrow> wrap64 x = x"
  by (simp add: wrap64_id)

lemma wrap64_range: "- (2 ^ 63) \<le> wrap64 x" "wrap64 x < 2 ^ 63"
proof -
  have "0 \<le> (x + 2 ^ 63) mod 2 ^ 64" "(x + 2 ^ 63) mod 2 ^ 64 < (2 ^ 64 :: int)"
    by simp_all
  then show "- (2 ^ 63) \<le> wrap64 x" "wrap64 x < 2 ^ 63"
    by (simp_all add: wrap64_def)
qed

lemma wrap64_le_nonneg: "0 \<le> x \<Longrightarrow> wrap64 x \<le> x"
proof -
  assume "0 \<le> x"
  then have "(x + 2 ^ 63) mod 2 ^ 64 \<le> x + 2 ^ 63"
    by (intro zmod_le_nonneg_dividend) simp
  then show ?thesis by (simp add: wrap64_def)
qed

section \<open>Byte order\<close>

lemma le_put_length [simp, codec]: "length (le_put n v) = n"
  by (simp add: le_put_def)

lemma be_put_length [simp, codec]: "length (be_put n v) = n"
  by (simp add: be_put_def)

lemma bit_le_get:
  "bit (le_get bs :: 'a::len word) i \<longleftrightarrow>
     i < LENGTH('a) \<and> i div 8 < length bs \<and> bit (bs ! (i div 8)) (i mod 8)"
proof (induction bs arbitrary: i)
  case Nil
  then show ?case by simp
next
  case (Cons b bs)
  show ?case
  proof (cases "i < 8")
    case True
    then show ?thesis by (simp add: bit_or_iff bit_push_bit_iff bit_unsigned_iff)
  next
    case False
    have "\<not> bit b i" using False by (auto dest: bit_imp_le_length)
    moreover have "i div 8 = Suc ((i - 8) div 8)" "i mod 8 = (i - 8) mod 8"
      using False by (simp_all add: le_div_geq le_mod_geq)
    ultimately show ?thesis
      using False by (simp add: bit_or_iff bit_push_bit_iff bit_unsigned_iff Cons.IH) linarith
  qed
qed

lemma le_get_put [codec]:
  fixes v :: "'a::len word"
  assumes "LENGTH('a) = 8 * n"
  shows "le_get (le_put n v) = v"
proof (rule bit_eqI)
  fix i
  assume "possible_bit TYPE('a word) i"
  then have i: "i < LENGTH('a)" by simp
  then have "i div 8 < n" using assms by linarith
  moreover have "8 * (i div 8) + i mod 8 = i" by simp
  ultimately show "bit (le_get (le_put n v) :: 'a word) i = bit v i"
    using i by (simp add: bit_le_get le_put_def bit_unsigned_iff bit_drop_bit_eq)
qed

lemma le_put_get [codec]:
  assumes "LENGTH('a::len) = 8 * length bs"
  shows "le_put (length bs) (le_get bs :: 'a word) = bs"
proof (rule nth_equalityI)
  fix j
  assume "j < length (le_put (length bs) (le_get bs :: 'a word))"
  then have j: "j < length bs" by simp
  have "bit (ucast (drop_bit (8 * j) (le_get bs :: 'a word)) :: 8 word) i = bit (bs ! j) i"
    if "i < 8" for i
  proof -
    have "(8 * j + i) div 8 = j" "(8 * j + i) mod 8 = i"
      using that by simp_all
    moreover have "8 * j + i < LENGTH('a)"
      using that j assms by simp
    ultimately show ?thesis
      using that j by (simp add: bit_unsigned_iff bit_drop_bit_eq bit_le_get)
  qed
  then show "le_put (length bs) (le_get bs :: 'a word) ! j = bs ! j"
    using j by (auto simp: le_put_def intro!: bit_eqI)
qed simp

lemma be_get_put [codec]:
  fixes v :: "'a::len word"
  assumes "LENGTH('a) = 8 * n"
  shows "be_get (be_put n v) = v"
  using le_get_put [OF assms] by (simp add: be_get_def be_put_def)

lemma be_put_get [codec]:
  assumes "LENGTH('a::len) = 8 * length bs"
  shows "be_put (length bs) (be_get bs :: 'a word) = bs"
  using le_put_get [of "rev bs", where 'a = 'a] assms by (simp add: be_get_def be_put_def)

lemma unat_byte_less: "unat (b :: 8 word) < 256"
  using unsigned_less [of b, where 'a = nat] by simp

lemma be_nat_bound: "be_nat bs < 256 ^ length bs"
proof (induction bs)
  case Nil
  then show ?case by simp
next
  case (Cons b bs)
  have "unat b * 256 ^ length bs + be_nat bs < unat b * 256 ^ length bs + 256 ^ length bs"
    using Cons.IH by simp
  also have "\<dots> = Suc (unat b) * 256 ^ length bs" by simp
  also have "\<dots> \<le> 256 * 256 ^ length bs"
    using unat_byte_less [of b] by (intro mult_right_mono) linarith+
  finally show ?case by simp
qed

lemma be_nat_snoc: "be_nat (bs @ [b]) = 256 * be_nat bs + unat b"
  by (induction bs) simp_all

lemma unat_or_push_bit:
  fixes w :: "'a::len word"
  assumes "256 * unat w + unat b < 2 ^ LENGTH('a)" "8 \<le> LENGTH('a)"
  shows "unat ((ucast (b :: 8 word) :: 'a word) OR push_bit 8 w) = 256 * unat w + unat b"
proof -
  have "(ucast b :: 'a word) AND push_bit 8 w = 0"
    by (rule bit_eqI) (auto simp: bit_and_iff bit_push_bit_iff bit_unsigned_iff dest: bit_imp_le_length)
  then have "(ucast b :: 'a word) OR push_bit 8 w = ucast b + push_bit 8 w"
    using word_plus_and_or [of "ucast b :: 'a word" "push_bit 8 w"] by simp
  moreover have "push_bit 8 w = 256 * w" by (simp add: push_bit_eq_mult)
  moreover have "unat (ucast b :: 'a word) = unat b"
    using assms(2) unat_byte_less [of b] power_increasing [OF assms(2), of "2::nat"]
    by (simp add: unsigned_ucast_eq take_bit_nat_eq_self_iff)
  moreover have "unat (256 * w) = 256 * unat w"
  proof (cases "8 < LENGTH('a)")
    case True
    then have "(256::nat) < 2 ^ LENGTH('a)"
      using power_strict_increasing [of 8 "LENGTH('a)" "2::nat"] by simp
    then have "unat (256 :: 'a word) = 256" by (simp add: unat_numeral take_bit_eq_mod)
    then show ?thesis using assms(1) by (simp add: unat_word_ariths)
  next
    case False
    then have "LENGTH('a) = 8" using assms(2) by simp
    then have "unat w = 0" using assms(1) by simp
    then have "w = 0" by (simp add: unat_eq_0)
    then show ?thesis by simp
  qed
  ultimately show ?thesis using assms(1) by (simp add: unat_word_ariths)
qed

lemma unat_be_get [codec]:
  "8 * length bs \<le> LENGTH('a::len) \<Longrightarrow> unat (be_get bs :: 'a word) = be_nat bs"
proof (induction bs rule: rev_induct)
  case Nil
  then show ?case by (simp add: be_get_def)
next
  case (snoc b bs)
  have "256 * be_nat bs + unat b < 256 ^ length (bs @ [b])"
    using be_nat_bound [of "bs @ [b]"] by (simp add: be_nat_snoc)
  also have "\<dots> = 2 ^ (8 * length (bs @ [b]))" by (simp only: power_mult) simp
  also have "\<dots> \<le> 2 ^ LENGTH('a)" using snoc.prems by (intro power_increasing) simp_all
  finally show ?case
    using snoc unat_or_push_bit [of "be_get bs :: 'a word" b] by (simp add: be_get_def be_nat_snoc)
qed

text \<open>On byte strings of one length, the lexicographic order is the numeric one.\<close>

lemma be_nat_less_iff_lexord:
  "length xs = length ys \<Longrightarrow> be_nat xs < be_nat ys \<longleftrightarrow> (xs, ys) \<in> lexord {(a, b). a < b}"
proof (induction xs ys rule: list_induct2)
  case Nil
  then show ?case by simp
next
  case (Cons x xs y ys)
  have xs: "be_nat xs < 256 ^ length ys" and ys: "be_nat ys < 256 ^ length ys"
    using be_nat_bound [of xs] be_nat_bound [of ys] Cons.hyps by simp_all
  consider "unat x < unat y" | "x = y" | "unat y < unat x"
    by (metis linorder_neqE_nat word_unat_eq_iff)
  then show ?case
  proof cases
    case 1
    then have "Suc (unat x) * 256 ^ length ys \<le> unat y * 256 ^ length ys" by (intro mult_right_mono) simp_all
    with 1 xs Cons.hyps show ?thesis by (simp add: word_less_nat_alt)
  next
    case 2
    then show ?thesis using Cons by simp
  next
    case 3
    then have "Suc (unat y) * 256 ^ length ys \<le> unat x * 256 ^ length ys" by (intro mult_right_mono) simp_all
    with 3 ys Cons.hyps show ?thesis by (auto simp: word_less_nat_alt)
  qed
qed

section \<open>Slices\<close>

lemma write_at_length [simp]: "off + length ws \<le> length b \<Longrightarrow> length (write_at off ws b) = length b"
  by (simp add: write_at_def)

lemma subslice_write_at_same:
  "off \<le> length b \<Longrightarrow> hi = off + length ws \<Longrightarrow> subslice off hi (write_at off ws b) = ws"
  by (simp add: subslice_def write_at_def)

lemma nth_write_at:
  "off + length ws \<le> length b \<Longrightarrow> i < length b \<Longrightarrow>
     write_at off ws b ! i = (if off \<le> i \<and> i < off + length ws then ws ! (i - off) else b ! i)"
  by (auto simp: write_at_def nth_append)

lemma subslice_length [simp]: "hi \<le> length b \<Longrightarrow> length (subslice lo hi b) = hi - lo"
  by (auto simp: subslice_def)

lemma nth_subslice: "hi \<le> length b \<Longrightarrow> i < hi - lo \<Longrightarrow> subslice lo hi b ! i = b ! (lo + i)"
  by (simp add: subslice_def)

lemma subslice_write_at_other:
  assumes "off + length ws \<le> length b" "hi \<le> length b" "hi \<le> off \<or> off + length ws \<le> lo"
  shows "subslice lo hi (write_at off ws b) = subslice lo hi b"
  using assms by (intro nth_equalityI) (auto simp: nth_subslice nth_write_at)

lemma drop_subslice: "lo \<le> hi \<Longrightarrow> drop lo b = subslice lo hi b @ drop hi b"
proof -
  assume "lo \<le> hi"
  then have "drop hi b = drop (hi - lo) (drop lo b)" by simp
  then show ?thesis by (simp only: subslice_def append_take_drop_id)
qed

section \<open>Sorting\<close>

lemma mset_insert_by: "mset (insert_by lt x ys) = add_mset x (mset ys)"
  by (induction ys) auto

lemma mset_isort: "mset (isort lt xs) = mset xs"
  by (induction xs) (auto simp: isort_def mset_insert_by)

lemma set_insert_by: "set (insert_by lt x ys) = insert x (set ys)"
  by (induction ys) auto

lemma sorted_insert_by:
  assumes "weak_order lt" "sorted_wrt (\<lambda>x y. \<not> lt y x) ys"
  shows "sorted_wrt (\<lambda>x y. \<not> lt y x) (insert_by lt x ys)"
  using assms(2)
proof (induction ys)
  case Nil
  then show ?case by simp
next
  case (Cons y ys)
  from assms(1) have asym: "\<And>a b. lt a b \<Longrightarrow> \<not> lt b a"
    and tr: "\<And>a b c. \<not> lt b a \<Longrightarrow> \<not> lt c b \<Longrightarrow> \<not> lt c a"
    unfolding weak_order_def by blast+
  show ?case
  proof (cases "lt y x")
    case True
    then show ?thesis using Cons asym by (auto simp: set_insert_by)
  next
    case False
    then show ?thesis using Cons.prems tr by auto
  qed
qed

interpretation isort: go_sort isort
proof
  fix lt :: "'a \<Rightarrow> 'a \<Rightarrow> bool" and xs
  show "mset (isort lt xs) = mset xs" by (rule mset_isort)
  assume "weak_order lt"
  then show "sorted_wrt (\<lambda>x y. \<not> lt y x) (isort lt xs)"
    by (induction xs) (auto simp: isort_def sorted_insert_by)
qed

section \<open>Maps and lists\<close>

lemma set_map_filter: "set (List.map_filter f xs) = {y. \<exists>x \<in> set xs. f x = Some y}"
  by (force simp: List.map_filter_def)

lemma card_dom_upd:
  "finite (dom m) \<Longrightarrow> card (dom (m(k \<mapsto> v))) = (if m k = None then Suc (card (dom m)) else card (dom m))"
  by (auto simp: domIff insert_absorb)

lemma card_dom_del:
  "finite (dom m) \<Longrightarrow> card (dom (m(k := None))) = (if m k = None then card (dom m) else card (dom m) - 1)"
  by (auto simp: domIff card_Diff_singleton_if)

lemma sum_list_update_int:
  fixes f :: "'a \<Rightarrow> int"
  shows "i < length xs \<Longrightarrow> (\<Sum>x\<leftarrow>xs[i := y]. f x) = (\<Sum>x\<leftarrow>xs. f x) - f (xs ! i) + f y"
  by (induction xs arbitrary: i) (auto split: nat.splits)

end
