(* ===== verification/MetaRecord.thy ===== *)
theory MetaRecord
  imports Prelude
begin

text \<open>
  The fixed 32-byte metadata record of \<^verbatim>\<open>tiering/meta/record.go\<close>: its data type, its
  little-endian codec with both error branches, and the big-endian inode keys under which
  records are stored. A panic (a slice too short for \<^verbatim>\<open>EncodeInto\<close>) is the value \<^const>\<open>None\<close>.
\<close>

section \<open>Definitions\<close>

definition RecordSize :: nat where
  "RecordSize = 32"

definition RecordVersion :: u16 where
  "RecordVersion = 1"

type_synonym pin_state = u8

definition PinNone :: pin_state where
  "PinNone = 0"

definition PinHot :: pin_state where
  "PinHot = 1"

definition PinCold :: pin_state where
  "PinCold = 2"

record Record =
  Version :: u16
  PinState :: pin_state
  TierIdx :: u8
  NamespaceID :: u64
  HeatCounter :: u32
  LastAccessNS :: u64

text \<open>The writes of \<^verbatim>\<open>EncodeInto\<close>, in order; bytes 24 and up of the target are not touched.\<close>

definition encode_fields :: "Record \<Rightarrow> bytes \<Rightarrow> bytes" where
  "encode_fields r b0 =
     (let b1 = write_at 0 (le_put 2 (Version r)) b0;
          b2 = write_at 2 [PinState r] b1;
          b3 = write_at 3 [TierIdx r] b2;
          b4 = write_at 4 (le_put 8 (NamespaceID r)) b3;
          b5 = write_at 12 (le_put 4 (HeatCounter r)) b4
      in write_at 16 (le_put 8 (LastAccessNS r)) b5)"

definition EncodeInto :: "Record \<Rightarrow> bytes \<Rightarrow> bytes option" where
  "EncodeInto r b = (if length b < RecordSize then None else Some (encode_fields r b))"

definition Encode :: "Record \<Rightarrow> bytes" where
  "Encode r = encode_fields r (replicate RecordSize 0)"

datatype record_error = BadLength nat | UnknownVersion u16

definition DecodeRecord :: "bytes \<Rightarrow> record_error + Record" where
  "DecodeRecord b =
     (if length b \<noteq> RecordSize then Inl (BadLength (length b))
      else let version = le_get (subslice 0 2 b) in
        if version \<noteq> RecordVersion then Inl (UnknownVersion version)
        else Inr \<lparr>Version = version, PinState = b ! 2, TierIdx = b ! 3,
                  NamespaceID = le_get (subslice 4 12 b),
                  HeatCounter = le_get (subslice 12 16 b),
                  LastAccessNS = le_get (subslice 16 24 b)\<rparr>)"

definition InodeKey :: "u64 \<Rightarrow> bytes" where
  "InodeKey inode = be_put 8 inode"

section \<open>The layout of an encoded record\<close>

lemma encode_fields_length [simp]:
  "RecordSize \<le> length b \<Longrightarrow> length (encode_fields r b) = length b"
  by (simp add: encode_fields_def RecordSize_def Let_def)

lemma Encode_length [simp]: "length (Encode r) = RecordSize"
  by (simp add: Encode_def)

lemma write_at_chain:
  "write_at off ws (b0 @ b) = b0 @ write_at (off - length b0) ws b" if "length b0 \<le> off"
  using that by (simp add: write_at_def)

lemma write_at_head: "off = 0 \<Longrightarrow> write_at off ws b = ws @ drop (length ws) b"
  by (simp add: write_at_def)

text \<open>The record is the concatenation of its fields, then whatever the slice held from byte 24 on.\<close>

lemma encode_fields_layout:
  assumes "RecordSize \<le> length b"
  shows "encode_fields r b =
    le_put 2 (Version r) @ [PinState r, TierIdx r] @ le_put 8 (NamespaceID r) @
    le_put 4 (HeatCounter r) @ le_put 8 (LastAccessNS r) @ drop 24 b"
proof -
  have 1: "write_at 0 (le_put 2 (Version r)) b = le_put 2 (Version r) @ drop 2 b"
    by (simp add: write_at_head)
  have 2: "write_at 2 [PinState r] (le_put 2 (Version r) @ drop 2 b) =
    (le_put 2 (Version r) @ [PinState r]) @ drop 3 b"
    by (simp add: write_at_chain write_at_head numeral_3_eq_3)
  have 3: "write_at 3 [TierIdx r] ((le_put 2 (Version r) @ [PinState r]) @ drop 3 b) =
    (le_put 2 (Version r) @ [PinState r, TierIdx r]) @ drop 4 b"
    by (subst write_at_chain) (simp_all add: write_at_head)
  have 4: "write_at 4 (le_put 8 (NamespaceID r)) ((le_put 2 (Version r) @ [PinState r, TierIdx r]) @ drop 4 b) =
    (le_put 2 (Version r) @ [PinState r, TierIdx r] @ le_put 8 (NamespaceID r)) @ drop 12 b"
    by (subst write_at_chain) (simp_all add: write_at_head)
  have 5: "write_at 12 (le_put 4 (HeatCounter r))
      ((le_put 2 (Version r) @ [PinState r, TierIdx r] @ le_put 8 (NamespaceID r)) @ drop 12 b) =
    (le_put 2 (Version r) @ [PinState r, TierIdx r] @ le_put 8 (NamespaceID r) @ le_put 4 (HeatCounter r)) @ drop 16 b"
    by (subst write_at_chain) (simp_all add: write_at_head)
  have 6: "write_at 16 (le_put 8 (LastAccessNS r))
      ((le_put 2 (Version r) @ [PinState r, TierIdx r] @ le_put 8 (NamespaceID r) @ le_put 4 (HeatCounter r)) @ drop 16 b) =
    (le_put 2 (Version r) @ [PinState r, TierIdx r] @ le_put 8 (NamespaceID r) @ le_put 4 (HeatCounter r) @ le_put 8 (LastAccessNS r)) @ drop 24 b"
    by (subst write_at_chain) (simp_all add: write_at_head)
  show ?thesis
    unfolding encode_fields_def Let_def 1 2 3 4 5 6 by simp
qed

lemma Encode_layout:
  "Encode r =
    le_put 2 (Version r) @ [PinState r, TierIdx r] @ le_put 8 (NamespaceID r) @
    le_put 4 (HeatCounter r) @ le_put 8 (LastAccessNS r) @ replicate 8 0"
  by (simp add: Encode_def encode_fields_layout) (simp add: RecordSize_def)

lemma EncodeInto_Encode: "EncodeInto r (replicate RecordSize 0) = Some (Encode r)"
  by (simp add: EncodeInto_def Encode_def)

section \<open>Round trip\<close>

lemma DecodeRecord_fields:
  assumes "length rest = 8"
  shows "DecodeRecord (le_put 2 (Version r) @ [PinState r, TierIdx r] @ le_put 8 (NamespaceID r) @
    le_put 4 (HeatCounter r) @ le_put 8 (LastAccessNS r) @ rest) =
   (if Version r = RecordVersion then Inr r else Inl (UnknownVersion (Version r)))"
proof -
  define b where "b = le_put 2 (Version r) @ [PinState r, TierIdx r] @ le_put 8 (NamespaceID r) @
    le_put 4 (HeatCounter r) @ le_put 8 (LastAccessNS r) @ rest"
  have "length b = RecordSize" using assms by (simp add: b_def RecordSize_def)
  moreover have "subslice 0 2 b = le_put 2 (Version r)"
    "subslice 4 12 b = le_put 8 (NamespaceID r)" "subslice 12 16 b = le_put 4 (HeatCounter r)"
    "subslice 16 24 b = le_put 8 (LastAccessNS r)"
    by (simp_all add: b_def subslice_def)
  moreover have "b ! 2 = PinState r" "b ! 3 = TierIdx r"
    by (simp_all add: b_def nth_append)
  ultimately have "DecodeRecord b =
     (if Version r = RecordVersion then Inr r else Inl (UnknownVersion (Version r)))"
    by (simp add: DecodeRecord_def le_get_put)
  then show ?thesis by (simp only: b_def)
qed

lemma decode_encode_ok: "Version r = RecordVersion \<Longrightarrow> DecodeRecord (Encode r) = Inr r"
  unfolding Encode_layout by (subst DecodeRecord_fields) simp_all

text \<open>
  C14. Encoding then decoding a record gives the record back exactly when its version is the
  current one; any other version is reported as an unknown-version error carrying it.
\<close>

theorem decode_encode:
  "DecodeRecord (Encode r) =
     (if Version r = RecordVersion then Inr r else Inl (UnknownVersion (Version r)))"
  by (simp only: Encode_layout DecodeRecord_fields length_replicate)

lemma split_fields:
  assumes "length b = RecordSize"
  shows "b = subslice 0 2 b @ [b ! 2, b ! 3] @ subslice 4 12 b @ subslice 12 16 b @ subslice 16 24 b @ drop 24 b"
proof -
  have "b = subslice 0 2 b @ drop 2 b" using drop_subslice [of 0 2 b] by simp
  moreover have "drop 2 b = [b ! 2, b ! 3] @ drop 4 b"
    using assms Cons_nth_drop_Suc [of 2 b] Cons_nth_drop_Suc [of 3 b]
    by (simp add: RecordSize_def eval_nat_numeral)
  moreover have "drop 4 b = subslice 4 12 b @ drop 12 b" "drop 12 b = subslice 12 16 b @ drop 16 b"
    "drop 16 b = subslice 16 24 b @ drop 24 b"
    by (rule drop_subslice, simp)+
  ultimately show ?thesis by (metis append_assoc)
qed

text \<open>
  C25. Decoding accepts exactly the 32-byte values whose first 24 bytes are the encoding of a
  record of the current version; the eight reserved bytes are ignored. Together with the
  round trip this makes the codec a bijection between current-version records and accepted
  values up to the reserved bytes.
\<close>

theorem decode_accepts_iff:
  "DecodeRecord b = Inr r \<longleftrightarrow>
     length b = RecordSize \<and> Version r = RecordVersion \<and> take 24 b = take 24 (Encode r)"
proof
  assume dec: "DecodeRecord b = Inr r"
  then have len: "length b = RecordSize" and ver: "Version r = RecordVersion"
    and flds: "Version r = le_get (subslice 0 2 b)" "PinState r = b ! 2" "TierIdx r = b ! 3"
      "NamespaceID r = le_get (subslice 4 12 b)" "HeatCounter r = le_get (subslice 12 16 b)"
      "LastAccessNS r = le_get (subslice 16 24 b)"
    by (auto simp: DecodeRecord_def Let_def split: if_splits)
  have lens: "length (subslice 0 2 b) = 2" "length (subslice 4 12 b) = 8"
    "length (subslice 12 16 b) = 4" "length (subslice 16 24 b) = 8"
    using len by (simp_all add: RecordSize_def)
  have "le_put 2 (Version r) = subslice 0 2 b" "le_put 8 (NamespaceID r) = subslice 4 12 b"
    "le_put 4 (HeatCounter r) = subslice 12 16 b" "le_put 8 (LastAccessNS r) = subslice 16 24 b"
    unfolding flds
    using le_put_get [of "subslice 0 2 b", where 'a = 16] le_put_get [of "subslice 4 12 b", where 'a = 64]
      le_put_get [of "subslice 12 16 b", where 'a = 32] le_put_get [of "subslice 16 24 b", where 'a = 64]
    by (simp_all add: lens)
  then have "Encode r = (subslice 0 2 b @ [b ! 2, b ! 3] @ subslice 4 12 b @ subslice 12 16 b @
      subslice 16 24 b) @ replicate 8 0"
    by (simp add: Encode_layout flds)
  moreover have "b = (subslice 0 2 b @ [b ! 2, b ! 3] @ subslice 4 12 b @ subslice 12 16 b @
      subslice 16 24 b) @ drop 24 b"
    using split_fields [OF len] by simp
  moreover have "length (subslice 0 2 b @ [b ! 2, b ! 3] @ subslice 4 12 b @ subslice 12 16 b @
      subslice 16 24 b) = 24"
    by (simp add: lens)
  ultimately have "take 24 b = take 24 (Encode r)"
    by (metis append_eq_conv_conj)
  with len ver show "length b = RecordSize \<and> Version r = RecordVersion \<and> take 24 b = take 24 (Encode r)"
    by simp
next
  assume a: "length b = RecordSize \<and> Version r = RecordVersion \<and> take 24 b = take 24 (Encode r)"
  then have "b = take 24 (Encode r) @ drop 24 b" by (metis append_take_drop_id)
  also have "take 24 (Encode r) @ drop 24 b =
    le_put 2 (Version r) @ [PinState r, TierIdx r] @ le_put 8 (NamespaceID r) @
    le_put 4 (HeatCounter r) @ le_put 8 (LastAccessNS r) @ drop 24 b"
    by (simp add: Encode_layout)
  finally show "DecodeRecord b = Inr r"
    using a DecodeRecord_fields [of "drop 24 b" r] by (simp add: RecordSize_def)
qed

section \<open>Inode keys\<close>

lemma InodeKey_length [simp]: "length (InodeKey i) = 8"
  by (simp add: InodeKey_def)

lemma be_get_InodeKey [simp]: "be_get (InodeKey i) = i"
  by (simp add: InodeKey_def be_get_put)

lemma InodeKey_inject [simp]: "InodeKey i = InodeKey j \<longleftrightarrow> i = j"
  by (metis be_get_InodeKey)

text \<open>
  C26. Inode keys keep the numeric order: comparing two keys byte by byte (the order in which a
  bbolt cursor visits them) is comparing the inode numbers, so iteration is in inode order.
\<close>

theorem InodeKey_order:
  "(InodeKey i, InodeKey j) \<in> lexord {(a, b). a < b} \<longleftrightarrow> i < j"
proof -
  have "unat i = be_nat (InodeKey i)" "unat j = be_nat (InodeKey j)"
    using unat_be_get [of "InodeKey i", where 'a = 64] unat_be_get [of "InodeKey j", where 'a = 64]
    by simp_all
  then show ?thesis
    using be_nat_less_iff_lexord [of "InodeKey i" "InodeKey j"] by (simp add: word_less_nat_alt)
qed

end
