(* ===== verification/GoPath.thy ===== *)
theory GoPath
  imports Main
begin

text \<open>
  The lexical path routines of Go's \<^verbatim>\<open>path/filepath\<close> (Unix) and \<^verbatim>\<open>strconv.Itoa\<close>, which
  several components use: \<^verbatim>\<open>Clean\<close> drops empty and dot elements, resolves dot-dot against the
  element before it, and renders the rest; \<^verbatim>\<open>Join\<close> is \<^verbatim>\<open>Clean\<close> of the non-empty elements.
\<close>

section \<open>Definitions\<close>

fun split_slash :: "string \<Rightarrow> string list" where
  "split_slash [] = [[]]"
| "split_slash (c # cs) =
     (if c = CHR ''/'' then [] # split_slash cs
      else case split_slash cs of [] \<Rightarrow> [[c]] | x # xs \<Rightarrow> (c # x) # xs)"

fun join_slash :: "string list \<Rightarrow> string" where
  "join_slash [] = []"
| "join_slash [x] = x"
| "join_slash (x # y # ys) = x @ ''/'' @ join_slash (y # ys)"

definition rooted :: "string \<Rightarrow> bool" where
  "rooted p \<longleftrightarrow> (case p of [] \<Rightarrow> False | c # _ \<Rightarrow> c = CHR ''/'')"

definition clean_step :: "bool \<Rightarrow> string list \<Rightarrow> string \<Rightarrow> string list" where
  "clean_step r acc c =
     (if c = [] \<or> c = ''.'' then acc
      else if c = ''..'' then
        (if acc \<noteq> [] \<and> last acc \<noteq> ''..'' then butlast acc else if r then acc else acc @ [c])
      else acc @ [c])"

definition clean_parts :: "string \<Rightarrow> string list" where
  "clean_parts p = foldl (clean_step (rooted p)) [] (split_slash p)"

definition render_path :: "bool \<Rightarrow> string list \<Rightarrow> string" where
  "render_path r parts =
     (if r then ''/'' @ join_slash parts else if parts = [] then ''.'' else join_slash parts)"

definition path_Clean :: "string \<Rightarrow> string" where
  "path_Clean p = render_path (rooted p) (clean_parts p)"

definition path_Join :: "string list \<Rightarrow> string" where
  "path_Join elems =
     (case dropWhile (\<lambda>e. e = []) elems of [] \<Rightarrow> [] | es \<Rightarrow> path_Clean (join_slash es))"

fun itoa_nat :: "nat \<Rightarrow> string" where
  "itoa_nat n = (if n < 10 then [char_of (48 + n)] else itoa_nat (n div 10) @ [char_of (48 + n mod 10)])"

definition itoa :: "int \<Rightarrow> string" where
  "itoa i = (if i < 0 then ''-'' @ itoa_nat (nat (- i)) else itoa_nat (nat i))"

declare itoa_nat.simps [simp del]

section \<open>Clean is idempotent\<close>

text \<open>The elements a cleaned path is made of: proper names, with dot-dots only in front.\<close>

definition proper :: "string \<Rightarrow> bool" where
  "proper c \<longleftrightarrow> c \<noteq> [] \<and> c \<noteq> ''.'' \<and> CHR ''/'' \<notin> set c"

definition clean_list :: "bool \<Rightarrow> string list \<Rightarrow> bool" where
  "clean_list r xs \<longleftrightarrow> (\<forall>c \<in> set xs. proper c) \<and>
     (\<exists>n ys. xs = replicate n ''..'' @ ys \<and> ''..'' \<notin> set ys \<and> (r \<longrightarrow> n = 0))"

lemma split_slash_nonempty [simp]: "split_slash s \<noteq> []"
  by (induction s) (auto split: list.splits)

lemma split_slash_no_slash: "c \<in> set (split_slash s) \<Longrightarrow> CHR ''/'' \<notin> set c"
proof (induction s arbitrary: c)
  case (Cons a s)
  then show ?case by (cases "split_slash s") (auto split: if_splits)
qed simp

lemma split_slash_append:
  "CHR ''/'' \<notin> set x \<Longrightarrow> split_slash (x @ CHR ''/'' # s) = x # split_slash s"
  by (induction x) auto

lemma split_slash_single: "CHR ''/'' \<notin> set x \<Longrightarrow> split_slash x = [x]"
  by (induction x) auto

lemma split_join: "xs \<noteq> [] \<Longrightarrow> \<forall>x \<in> set xs. CHR ''/'' \<notin> set x \<Longrightarrow> split_slash (join_slash xs) = xs"
  by (induction xs rule: join_slash.induct) (simp_all add: split_slash_append split_slash_single)

lemma clean_step_list: "clean_list r acc \<Longrightarrow> CHR ''/'' \<notin> set c \<Longrightarrow> clean_list r (clean_step r acc c)"
proof -
  assume acc: "clean_list r acc" and c: "CHR ''/'' \<notin> set c"
  then have pr: "\<forall>c \<in> set acc. proper c" by (simp add: clean_list_def)
  obtain n ys where ys: "acc = replicate n ''..'' @ ys" "''..'' \<notin> set ys" "r \<longrightarrow> n = 0"
    using acc by (auto simp: clean_list_def)
  consider "c = [] \<or> c = ''.''" | "c = ''..''" "ys \<noteq> []" | "c = ''..''" "ys = []"
    | "c \<noteq> []" "c \<noteq> ''.''" "c \<noteq> ''..''" by blast
  then show ?thesis
  proof cases
    case 1
    then show ?thesis using acc by (auto simp: clean_step_def)
  next
    case 2
    then have "last acc \<noteq> ''..''" "acc \<noteq> []" using ys by (metis last_appendR last_in_set, simp)
    with 2 have "clean_step r acc c = replicate n ''..'' @ butlast ys"
      using ys by (simp add: clean_step_def butlast_append)
    then show ?thesis
      using ys pr by (auto simp: clean_list_def dest: in_set_butlastD intro!: exI [of _ n])
  next
    case 3
    then have "clean_step r acc c = (if r then acc else replicate (Suc n) ''..'')"
      using ys by (cases n) (auto simp: clean_step_def replicate_append_same)
    then show ?thesis
      using acc by (auto simp: clean_list_def proper_def intro!: exI [of _ "Suc n"])
  next
    case 4
    then have "clean_step r acc c = replicate n ''..'' @ (ys @ [c])"
      using ys by (simp add: clean_step_def)
    moreover have "''..'' \<notin> set (ys @ [c])" using ys 4 by auto
    moreover have "\<forall>c' \<in> set (replicate n ''..'' @ (ys @ [c])). proper c'"
      using pr ys(1) c 4 by (auto simp: proper_def)
    ultimately show ?thesis using ys(3) unfolding clean_list_def by metis
  qed
qed

lemma clean_parts_list: "clean_list (rooted p) (clean_parts p)"
proof -
  have "clean_list r (foldl (clean_step r) acc cs)"
    if "clean_list r acc" "\<forall>c \<in> set cs. CHR ''/'' \<notin> set c" for r acc cs
    using that by (induction cs arbitrary: acc) (simp_all add: clean_step_list)
  moreover have "clean_list r []" for r by (simp add: clean_list_def)
  ultimately show ?thesis
    using split_slash_no_slash by (simp add: clean_parts_def)
qed

lemma clean_fold_id:
  assumes "clean_list r (acc @ xs)"
  shows "foldl (clean_step r) acc xs = acc @ xs"
  using assms
proof (induction xs arbitrary: acc)
  case (Cons x xs)
  have "clean_step r acc x = acc @ [x]"
  proof (cases "x = ''..''")
    case True
    from Cons.prems obtain n ys where ys: "acc @ x # xs = replicate n ''..'' @ ys" "''..'' \<notin> set ys"
      and r: "r \<longrightarrow> n = 0" by (auto simp: clean_list_def)
    have "length acc < n"
    proof (rule ccontr)
      assume "\<not> length acc < n"
      then have "(acc @ x # xs) ! length acc = ys ! (length acc - n)" "length acc - n < length ys"
        using ys(1) by (simp_all add: nth_append) (metis add_diff_inverse_nat length_append length_replicate
            less_add_Suc1 list.size(4) nat_add_left_cancel_less add.assoc add_Suc_right)
      then show False using True ys(2) by (metis nth_append_length nth_mem)
    qed
    moreover from this have "last acc = ''..''" if "acc \<noteq> []"
      using that ys(1) by (metis append_eq_append_conv_if in_set_replicate last_in_set length_replicate
          less_imp_le_nat set_take_subset subsetD)
    ultimately show ?thesis using True r by (auto simp: clean_step_def)
  next
    case False
    then show ?thesis using Cons.prems by (auto simp: clean_step_def clean_list_def proper_def)
  qed
  with Cons show ?case by simp
qed simp

lemma rooted_render: "clean_list r xs \<Longrightarrow> rooted (render_path r xs) = r"
proof -
  assume "clean_list r xs"
  moreover have "\<not> rooted (join_slash ys)" if "\<forall>c \<in> set ys. proper c" for ys
    using that
  proof (cases ys rule: join_slash.cases)
    case (3 x y zs)
    with that show ?thesis by (cases x) (auto simp: rooted_def proper_def)
  qed (auto simp: rooted_def proper_def split: list.splits)
  ultimately show ?thesis by (auto simp: render_path_def rooted_def clean_list_def)
qed

text \<open>\<^verbatim>\<open>strconv.Atoi\<close> on a 64-bit platform: an optional sign, then digits, in range.\<close>

definition is_digit :: "char \<Rightarrow> bool" where
  "is_digit c \<longleftrightarrow> 48 \<le> (of_char c :: nat) \<and> (of_char c :: nat) \<le> 57"

definition digits_val :: "string \<Rightarrow> int" where
  "digits_val s = foldl (\<lambda>n c. 10 * n + (of_char c - 48)) 0 s"

definition Atoi :: "string \<Rightarrow> int option" where
  "Atoi s =
     (let (neg, ds) = (case s of
         [] \<Rightarrow> (False, [])
       | c # cs \<Rightarrow> if c = CHR ''-'' then (True, cs) else if c = CHR ''+'' then (False, cs) else (False, s))
      in if ds = [] \<or> \<not> list_all is_digit ds then None
         else let n = (if neg then - digits_val ds else digits_val ds) in
           if - (2 ^ 63) \<le> n \<and> n < 2 ^ 63 then Some n else None)"

text \<open>Cleaning a cleaned path changes nothing.\<close>

lemma path_Clean_idem: "path_Clean (path_Clean p) = path_Clean p"
proof -
  let ?r = "rooted p" and ?xs = "clean_parts p"
  have cl: "clean_list ?r ?xs" by (rule clean_parts_list)
  then have ns: "\<forall>x \<in> set ?xs. CHR ''/'' \<notin> set x" by (auto simp: clean_list_def proper_def)
  have r: "rooted (render_path ?r ?xs) = ?r" using cl by (rule rooted_render)
  have "clean_parts (render_path ?r ?xs) = ?xs"
  proof (cases "?xs = []")
    case True
    then show ?thesis using r by (auto simp: clean_parts_def render_path_def clean_step_def rooted_def)
  next
    case False
    then have "split_slash (render_path ?r ?xs) = (if ?r then [[]] else []) @ ?xs"
      using split_join [OF False ns] by (simp add: render_path_def)
    then show ?thesis
      using r clean_fold_id [of ?r "[]" ?xs] cl by (auto simp: clean_parts_def clean_step_def)
  qed
  then show ?thesis by (simp add: path_Clean_def r)
qed

end
