(* ===== verification/Placement.thy ===== *)
theory Placement
  imports MetaRecord GoPath
begin

text \<open>
  The placement planner of \<^verbatim>\<open>tiering/mdadm/placement.go\<close>: the capacity-aware bin packing that
  assigns every file of a pool a tier (\<^verbatim>\<open>assignCandidateRanks\<close> and the admission functions
  below it), the order in which the resulting moves run (\<^verbatim>\<open>planMoveOrder\<close>) and the size bias.

  \<^verbatim>\<open>caps\<close> is a Go map from rank to a pointer to a capacity record; the pointers are not shared, so
  the model threads a map of records. Byte counts are \<^verbatim>\<open>int64\<close>.
\<close>

section \<open>Definitions\<close>

record MdadmManagedTargetRow =
  TierTargetID :: string
  PoolName :: string
  TierName :: string
  VGName :: string
  LVName :: string
  MountPath :: string

record rankedPoolTarget =
  rt_rank :: int
  rt_target :: MdadmManagedTargetRow
  targetFillPct :: int
  fullThresholdPct :: int

record candidate =
  c_rel :: string
  c_size :: int
  c_inode :: u64
  curRank :: int
  curTarg :: MdadmManagedTargetRow
  c_pin :: pin_state
  c_heat :: u32

record tierCapacity =
  totalBytes :: int
  usedBytes :: int
  targetCap :: int
  fullCap :: int
  cap_target :: MdadmManagedTargetRow

type_synonym caps = "int \<rightharpoonup> tierCapacity"

definition admissionCap :: "tierCapacity \<Rightarrow> int" where
  "admissionCap c = targetCap c"

datatype fullFallbackOrder = fullFallbackSlowestFirst | fullFallbackFastestFirst

text \<open>\<^verbatim>\<open>c.usedBytes += sz\<close> on the capacity of a rank.\<close>

definition add_used :: "caps \<Rightarrow> int \<Rightarrow> tierCapacity \<Rightarrow> int \<Rightarrow> caps" where
  "add_used caps r c sz = caps(r \<mapsto> c\<lparr>usedBytes := wrap64 (usedBytes c + sz)\<rparr>)"

definition admitAtFullCap :: "caps \<Rightarrow> rankedPoolTarget \<Rightarrow> int \<Rightarrow> int \<Rightarrow> (int \<times> caps) option" where
  "admitAtFullCap caps rt preferredRank sz =
     (if rt_rank rt < preferredRank then None
      else case caps (rt_rank rt) of
        None \<Rightarrow> None
      | Some c \<Rightarrow>
          if wrap64 (usedBytes c + sz) \<le> fullCap c
          then Some (rt_rank rt, add_used caps (rt_rank rt) c sz)
          else None)"

text \<open>Pass A of \<^verbatim>\<open>admitWithFallbackOrder\<close>, and the loop of pass B over the tiers in a given order.\<close>

fun admit_pass_a :: "caps \<Rightarrow> rankedPoolTarget list \<Rightarrow> int \<Rightarrow> int \<Rightarrow> (int \<times> caps) option" where
  "admit_pass_a caps [] preferredRank sz = None"
| "admit_pass_a caps (rt # rts) preferredRank sz =
     (if rt_rank rt < preferredRank then admit_pass_a caps rts preferredRank sz
      else case caps (rt_rank rt) of
        None \<Rightarrow> admit_pass_a caps rts preferredRank sz
      | Some c \<Rightarrow>
          if wrap64 (usedBytes c + sz) \<le> admissionCap c
          then Some (rt_rank rt, add_used caps (rt_rank rt) c sz)
          else admit_pass_a caps rts preferredRank sz)"

fun admit_pass_b :: "caps \<Rightarrow> rankedPoolTarget list \<Rightarrow> int \<Rightarrow> int \<Rightarrow> (int \<times> caps) option" where
  "admit_pass_b caps [] preferredRank sz = None"
| "admit_pass_b caps (rt # rts) preferredRank sz =
     (case admitAtFullCap caps rt preferredRank sz of
        Some r \<Rightarrow> Some r
      | None \<Rightarrow> admit_pass_b caps rts preferredRank sz)"

definition admitWithFallbackOrder :: "caps \<Rightarrow> rankedPoolTarget list \<Rightarrow> int \<Rightarrow> int \<Rightarrow> fullFallbackOrder \<Rightarrow> int \<times> caps" where
  "admitWithFallbackOrder caps ranked preferredRank sz order =
     (case admit_pass_a caps ranked preferredRank sz of
        Some r \<Rightarrow> r
      | None \<Rightarrow>
          (case admit_pass_b caps (if order = fullFallbackFastestFirst then ranked else rev ranked) preferredRank sz of
             Some r \<Rightarrow> r
           | None \<Rightarrow> (preferredRank, caps)))"

definition admitWithFallback :: "caps \<Rightarrow> rankedPoolTarget list \<Rightarrow> int \<Rightarrow> int \<Rightarrow> int \<times> caps" where
  "admitWithFallback caps ranked preferredRank sz =
     admitWithFallbackOrder caps ranked preferredRank sz fullFallbackSlowestFirst"

text \<open>
  \<^verbatim>\<open>assignCandidateRanks\<close>: the arrays \<^verbatim>\<open>assignments\<close> and \<^verbatim>\<open>assigned\<close> and the capacities are the
  state of its two loops.
\<close>

record assign_state =
  assignments :: "int list"
  assigned :: "bool list"
  as_caps :: caps

definition assign_one :: "assign_state \<Rightarrow> nat \<Rightarrow> int \<times> caps \<Rightarrow> assign_state" where
  "assign_one s i r = s\<lparr>assignments := (assignments s)[i := fst r], assigned := (assigned s)[i := True],
     as_caps := snd r\<rparr>"

definition assign_pinned :: "candidate list \<Rightarrow> rankedPoolTarget list \<Rightarrow> int \<Rightarrow> int \<Rightarrow> assign_state \<Rightarrow> nat \<Rightarrow> assign_state" where
  "assign_pinned cands ranked fastestRank slowestRank s i =
     (let c = cands ! i in
      if c_pin c = PinHot then
        assign_one s i (admitWithFallbackOrder (as_caps s) ranked fastestRank (c_size c) fullFallbackFastestFirst)
      else if c_pin c = PinCold then
        assign_one s i (admitWithFallback (as_caps s) ranked slowestRank (c_size c))
      else s)"

text \<open>The comparison \<^verbatim>\<open>sort.Slice\<close> is given: hotter first, then smaller.\<close>

definition hotter :: "candidate list \<Rightarrow> nat \<Rightarrow> nat \<Rightarrow> bool" where
  "hotter cands i j =
     (let ci = cands ! i; cj = cands ! j in
      if c_heat ci \<noteq> c_heat cj then c_heat ci > c_heat cj else c_size ci < c_size cj)"

definition assign_unpinned :: "candidate list \<Rightarrow> rankedPoolTarget list \<Rightarrow> int \<Rightarrow> assign_state \<Rightarrow> nat \<Rightarrow> assign_state" where
  "assign_unpinned cands ranked fastestRank s i =
     assign_one s i (admitWithFallback (as_caps s) ranked fastestRank (c_size (cands ! i)))"

definition assign_init :: "candidate list \<Rightarrow> caps \<Rightarrow> assign_state" where
  "assign_init cands caps = \<lparr>assignments = replicate (length cands) 0,
     assigned = replicate (length cands) False, as_caps = caps\<rparr>"

definition unpinned_order :: "nat sorter \<Rightarrow> candidate list \<Rightarrow> assign_state \<Rightarrow> nat list" where
  "unpinned_order srt cands s =
     srt (hotter cands) (filter (\<lambda>i. c_pin (cands ! i) = PinNone \<and> \<not> assigned s ! i) [0..<length cands])"

definition assignCandidateRanks :: "nat sorter \<Rightarrow> candidate list \<Rightarrow> caps \<Rightarrow> rankedPoolTarget list \<Rightarrow> int \<Rightarrow> int \<Rightarrow> assign_state" where
  "assignCandidateRanks srt cands caps ranked fastestRank slowestRank =
     (let s1 = foldl (assign_pinned cands ranked fastestRank slowestRank) (assign_init cands caps) [0..<length cands]
      in foldl (assign_unpinned cands ranked fastestRank) s1 (unpinned_order srt cands s1))"

definition tierTargetCapBytes :: "int \<Rightarrow> int \<Rightarrow> int" where
  "tierTargetCapBytes tot pct = (let p = if pct < 0 then 0 else pct in wrap64 (tot * p) sdiv 100)"

definition tierFullCapBytes :: "int \<Rightarrow> int \<Rightarrow> int" where
  "tierFullCapBytes tot pct = (let p = if pct < 0 then 0 else pct in wrap64 (tot * p) sdiv 100)"

record plannedMove =
  m_idx :: nat
  m_want :: int

fun plan_moves :: "candidate list \<Rightarrow> int list \<Rightarrow> bool list \<Rightarrow> nat list \<Rightarrow> plannedMove list \<times> plannedMove list \<Rightarrow>
    plannedMove list \<times> plannedMove list" where
  "plan_moves cands as ok [] acc = acc"
| "plan_moves cands as ok (i # is) (demotions, promotions) =
     (if \<not> ok ! i \<or> as ! i = curRank (cands ! i) then plan_moves cands as ok is (demotions, promotions)
      else let m = \<lparr>m_idx = i, m_want = as ! i\<rparr> in
        if m_want m > curRank (cands ! i) then plan_moves cands as ok is (demotions @ [m], promotions)
        else plan_moves cands as ok is (demotions, promotions @ [m]))"

definition planMoveOrder :: "candidate list \<Rightarrow> int list \<Rightarrow> bool list \<Rightarrow> plannedMove list \<times> plannedMove list" where
  "planMoveOrder cands as ok = plan_moves cands as ok [0..<length cands] ([], [])"

text \<open>The candidates' own bytes are taken out of the measured occupancy before packing.\<close>

fun subtract_candidates :: "candidate list \<Rightarrow> caps \<Rightarrow> caps" where
  "subtract_candidates [] caps = caps"
| "subtract_candidates (c # cs) caps =
     (case caps (curRank c) of
        None \<Rightarrow> subtract_candidates cs caps
      | Some cap \<Rightarrow>
          let u = wrap64 (usedBytes cap - c_size c) in
          subtract_candidates cs (caps(curRank c \<mapsto> cap\<lparr>usedBytes := if u < 0 then 0 else u\<rparr>)))"

definition max1 :: "int \<Rightarrow> int \<Rightarrow> int" where
  "max1 x floor = (if x \<le> 0 then floor else x)"

definition sizeBucketStep :: int where
  "sizeBucketStep = 16"

definition sizeBucketBaseBytes :: int where
  "sizeBucketBaseBytes = 2 ^ 20"

function bucket_steps :: "int \<Rightarrow> int \<Rightarrow> int" where
  "bucket_steps units steps =
     (if units \<ge> sizeBucketStep then bucket_steps (units sdiv sizeBucketStep) (steps + 1) else steps)"
  by pat_completeness auto
termination
  by (relation "measure (\<lambda>(u, s). nat u)") (auto simp: sizeBucketStep_def signed_divide_int_def)

declare bucket_steps.simps [simp del]

definition sizeBucketRank :: "int \<Rightarrow> int \<Rightarrow> int \<Rightarrow> int" where
  "sizeBucketRank sizeBytes fastestRank slowestRank =
     (if sizeBytes < sizeBucketBaseBytes then fastestRank
      else let r = wrap64 (fastestRank + bucket_steps (sizeBytes sdiv sizeBucketBaseBytes) 0) in
        if r > slowestRank then slowestRank else r)"

definition idealRank :: "pin_state \<Rightarrow> int \<Rightarrow> int \<Rightarrow> int \<Rightarrow> int" where
  "idealRank p sizeBytes fastestRank slowestRank =
     (if p = PinHot then fastestRank else if p = PinCold then slowestRank
      else sizeBucketRank sizeBytes fastestRank slowestRank)"

text \<open>
  \<^verbatim>\<open>smoothfsTierIndex\<close>: the position of a mount path in the pool's tier list.
\<close>

fun tier_index_from :: "nat \<Rightarrow> string list \<Rightarrow> string \<Rightarrow> nat option" where
  "tier_index_from i [] w = None"
| "tier_index_from i (t # ts) w = (if path_Clean t = w then Some i else tier_index_from (Suc i) ts w)"

definition smoothfsTierIndex :: "string list \<Rightarrow> string \<Rightarrow> nat option" where
  "smoothfsTierIndex tiers mountPath = tier_index_from 0 tiers (path_Clean mountPath)"

section \<open>Admission\<close>

text \<open>Whether a file fits a tier under a ceiling, over the unbounded integers.\<close>

definition sizes_bounded :: "caps \<Rightarrow> int \<Rightarrow> bool" where
  "sizes_bounded caps b \<longleftrightarrow> (\<forall>r c. caps r = Some c \<longrightarrow> 0 \<le> usedBytes c \<and> usedBytes c + b < 2 ^ 63)"

text \<open>A file is admitted to a tier, or to none: then it fits under no ceiling at or below its preference.\<close>

definition admitted_at :: "caps \<Rightarrow> rankedPoolTarget list \<Rightarrow> int \<Rightarrow> int \<Rightarrow> int \<Rightarrow> caps \<Rightarrow> bool" where
  "admitted_at caps ranked pref sz r caps' \<longleftrightarrow>
     (\<exists>c. caps r = Some c \<and> pref \<le> r \<and> r \<in> rt_rank ` set ranked \<and>
        usedBytes c + sz \<le> max (targetCap c) (fullCap c) \<and>
        caps' = caps(r \<mapsto> c\<lparr>usedBytes := usedBytes c + sz\<rparr>))"

definition fits_nowhere :: "caps \<Rightarrow> rankedPoolTarget list \<Rightarrow> int \<Rightarrow> int \<Rightarrow> bool" where
  "fits_nowhere caps ranked pref sz \<longleftrightarrow>
     (\<forall>rt \<in> set ranked. \<forall>c. pref \<le> rt_rank rt \<longrightarrow> caps (rt_rank rt) = Some c \<longrightarrow>
        max (targetCap c) (fullCap c) < usedBytes c + sz)"

definition fits_target :: "caps \<Rightarrow> int \<Rightarrow> int \<Rightarrow> bool" where
  "fits_target caps r sz \<longleftrightarrow> (\<exists>c. caps r = Some c \<and> usedBytes c + sz \<le> targetCap c)"

lemma add_wrap: "sizes_bounded caps sz \<Longrightarrow> 0 \<le> sz \<Longrightarrow> caps r = Some c \<Longrightarrow> wrap64 (usedBytes c + sz) = usedBytes c + sz"
  by (simp add: sizes_bounded_def wrap64_nonneg_id)

lemma pass_a_Some:
  assumes "admit_pass_a caps rts pref sz = Some (r, caps')" "sizes_bounded caps sz" "0 \<le> sz"
  shows "admitted_at caps rts pref sz r caps' \<and> fits_target caps r sz \<and>
    (sorted (map rt_rank rts) \<longrightarrow> (\<forall>rt \<in> set rts. pref \<le> rt_rank rt \<longrightarrow> fits_target caps (rt_rank rt) sz \<longrightarrow> r \<le> rt_rank rt))"
  using assms
proof (induction rts)
  case (Cons rt rts)
  show ?case
  proof (cases "pref \<le> rt_rank rt \<and> fits_target caps (rt_rank rt) sz")
    case True
    then obtain c where c: "caps (rt_rank rt) = Some c" "usedBytes c + sz \<le> targetCap c"
      by (auto simp: fits_target_def)
    note w = add_wrap [OF Cons.prems(2,3) c(1)]
    have "r = rt_rank rt" "caps' = caps(r \<mapsto> c\<lparr>usedBytes := usedBytes c + sz\<rparr>)"
      using Cons.prems(1) True c w by (auto simp: admissionCap_def add_used_def)
    then show ?thesis using True c by (auto simp: admitted_at_def)
  next
    case False
    then have "admit_pass_a caps rts pref sz = Some (r, caps')"
      using Cons.prems by (auto simp: admissionCap_def fits_target_def add_wrap split: option.splits if_splits)
    from Cons.IH [OF this Cons.prems(2,3)] False show ?thesis by (auto simp: admitted_at_def)
  qed
qed simp

lemma pass_a_None:
  "admit_pass_a caps rts pref sz = None \<Longrightarrow> sizes_bounded caps sz \<Longrightarrow> 0 \<le> sz \<Longrightarrow>
     \<forall>rt \<in> set rts. pref \<le> rt_rank rt \<longrightarrow> \<not> fits_target caps (rt_rank rt) sz"
  by (induction rts) (auto simp: fits_target_def admissionCap_def add_wrap split: if_splits option.splits)

lemma admitAtFullCap_Some:
  assumes "admitAtFullCap caps rt pref sz = Some (r, caps')" "sizes_bounded caps sz" "0 \<le> sz"
  shows "admitted_at caps [rt] pref sz r caps'"
  using assms by (auto simp: admitAtFullCap_def admitted_at_def add_used_def add_wrap split: if_splits option.splits)

lemma pass_b_Some:
  "admit_pass_b caps rts pref sz = Some (r, caps') \<Longrightarrow> sizes_bounded caps sz \<Longrightarrow> 0 \<le> sz \<Longrightarrow>
     admitted_at caps rts pref sz r caps'"
proof (induction rts)
  case (Cons rt rts)
  then show ?case
    by (cases "admitAtFullCap caps rt pref sz") (auto simp: admitted_at_def dest!: admitAtFullCap_Some)
qed simp

lemma pass_b_None:
  "admit_pass_b caps rts pref sz = None \<Longrightarrow> sizes_bounded caps sz \<Longrightarrow> 0 \<le> sz \<Longrightarrow>
     \<forall>rt \<in> set rts. \<forall>c. pref \<le> rt_rank rt \<longrightarrow> caps (rt_rank rt) = Some c \<longrightarrow> fullCap c < usedBytes c + sz"
  by (induction rts) (auto simp: admitAtFullCap_def add_wrap split: if_splits option.splits)

lemma admit_cases:
  assumes "admitWithFallbackOrder caps ranked pref sz ord = (r, caps')" "sizes_bounded caps sz" "0 \<le> sz"
  obtains (target) "admitted_at caps ranked pref sz r caps'" "fits_target caps r sz"
      "sorted (map rt_rank ranked) \<Longrightarrow> \<forall>rt \<in> set ranked. pref \<le> rt_rank rt \<longrightarrow> fits_target caps (rt_rank rt) sz \<longrightarrow> r \<le> rt_rank rt"
  | (full) "admitted_at caps ranked pref sz r caps'"
      "\<forall>rt \<in> set ranked. pref \<le> rt_rank rt \<longrightarrow> \<not> fits_target caps (rt_rank rt) sz"
  | (stranded) "r = pref" "caps' = caps" "fits_nowhere caps ranked pref sz"
proof (cases "admit_pass_a caps ranked pref sz")
  case (Some p)
  then have "admit_pass_a caps ranked pref sz = Some (r, caps')"
    using assms(1) by (simp add: admitWithFallbackOrder_def)
  from pass_a_Some [OF this assms(2,3)] show ?thesis using target by blast
next
  case None
  let ?rts = "if ord = fullFallbackFastestFirst then ranked else rev ranked"
  have rts: "set ?rts = set ranked" by simp
  note nf = pass_a_None [OF None assms(2,3)]
  show ?thesis
  proof (cases "admit_pass_b caps ?rts pref sz")
    case (Some p)
    then have "admit_pass_b caps ?rts pref sz = Some (r, caps')"
      using assms(1) None by (simp add: admitWithFallbackOrder_def)
    from pass_b_Some [OF this assms(2,3)] nf rts show ?thesis
      by (intro full) (simp_all add: admitted_at_def)
  next
    case b: None
    have "fits_nowhere caps ranked pref sz"
      using pass_b_None [OF b assms(2,3)] nf rts unfolding fits_nowhere_def fits_target_def
      by (metis max_less_iff_conj not_le)
    then show ?thesis using assms(1) None b by (intro stranded) (simp_all add: admitWithFallbackOrder_def)
  qed
qed

section \<open>Packing\<close>

text \<open>The tier a candidate prefers and the order its fallback uses, by its pin.\<close>

definition pref_rank :: "candidate list \<Rightarrow> int \<Rightarrow> int \<Rightarrow> nat \<Rightarrow> int" where
  "pref_rank cands fastestRank slowestRank i = (if c_pin (cands ! i) = PinCold then slowestRank else fastestRank)"

definition fallback_of :: "candidate list \<Rightarrow> nat \<Rightarrow> fullFallbackOrder" where
  "fallback_of cands i = (if c_pin (cands ! i) = PinHot then fullFallbackFastestFirst else fullFallbackSlowestFirst)"

definition place_step :: "candidate list \<Rightarrow> rankedPoolTarget list \<Rightarrow> int \<Rightarrow> int \<Rightarrow> assign_state \<Rightarrow> nat \<Rightarrow> assign_state" where
  "place_step cands ranked f sl s i =
     assign_one s i (admitWithFallbackOrder (as_caps s) ranked (pref_rank cands f sl i) (c_size (cands ! i)) (fallback_of cands i))"

definition is_pinned :: "candidate list \<Rightarrow> nat \<Rightarrow> bool" where
  "is_pinned cands i \<longleftrightarrow> c_pin (cands ! i) = PinHot \<or> c_pin (cands ! i) = PinCold"

definition load :: "candidate list \<Rightarrow> int list \<Rightarrow> nat set \<Rightarrow> int \<Rightarrow> int" where
  "load cands as S r = (\<Sum>i | i \<in> S \<and> as ! i = r. c_size (cands ! i))"

lemma pins_distinct [simp]:
  "PinCold \<noteq> PinHot" "PinNone \<noteq> PinHot" "PinNone \<noteq> PinCold" "PinHot \<noteq> PinCold" "PinHot \<noteq> PinNone" "PinCold \<noteq> PinNone"
  by (simp_all add: PinHot_def PinCold_def PinNone_def)

lemma pinned_loop:
  "foldl (assign_pinned cands ranked f sl) s is = foldl (place_step cands ranked f sl) s (filter (is_pinned cands) is)"
  by (induction "is" arbitrary: s)
    (auto simp: assign_pinned_def place_step_def is_pinned_def pref_rank_def fallback_of_def admitWithFallback_def Let_def)

lemma unpinned_loop:
  "\<forall>i \<in> set is. c_pin (cands ! i) = PinNone \<Longrightarrow>
     foldl (assign_unpinned cands ranked f) s is = foldl (place_step cands ranked f sl) s is"
  by (induction "is" arbitrary: s)
    (auto simp: assign_unpinned_def place_step_def pref_rank_def fallback_of_def admitWithFallback_def)

lemma place_step_assigned:
  "assigned (place_step cands ranked f sl s i) = (assigned s)[i := True]"
  "length (assignments (place_step cands ranked f sl s i)) = length (assignments s)"
  by (simp_all add: place_step_def assign_one_def)

lemma place_loop_assigned:
  "length (assigned (foldl (place_step cands ranked f sl) s is)) = length (assigned s) \<and>
   (\<forall>i < length (assigned s). assigned (foldl (place_step cands ranked f sl) s is) ! i \<longleftrightarrow> assigned s ! i \<or> i \<in> set is)"
proof (induction "is" arbitrary: s)
  case (Cons j js)
  have "(assigned s)[j := True] ! i \<longleftrightarrow> assigned s ! i \<or> i = j" if "i < length (assigned s)" for i
    using that by (cases "i = j") auto
  with Cons.IH [of "place_step cands ranked f sl s j"] show ?case by (auto simp: place_step_assigned)
qed simp

definition free_order :: "nat sorter \<Rightarrow> candidate list \<Rightarrow> nat list" where
  "free_order srt cands = srt (hotter cands) (filter (\<lambda>i. c_pin (cands ! i) = PinNone) [0..<length cands])"

definition place_order :: "nat sorter \<Rightarrow> candidate list \<Rightarrow> nat list" where
  "place_order srt cands = filter (is_pinned cands) [0..<length cands] @ free_order srt cands"

text \<open>Both passes are one loop over the candidates in this order.\<close>

lemma assign_is_loop:
  assumes "go_sort srt"
  shows "assignCandidateRanks srt cands caps ranked f sl =
    foldl (place_step cands ranked f sl) (assign_init cands caps) (place_order srt cands)"
proof -
  let ?n = "length cands"
  let ?s1 = "foldl (place_step cands ranked f sl) (assign_init cands caps) (filter (is_pinned cands) [0..<?n])"
  have "assigned ?s1 ! i \<longleftrightarrow> is_pinned cands i" if "i < ?n" for i
    using place_loop_assigned [of cands ranked f sl "assign_init cands caps" "filter (is_pinned cands) [0..<?n]"] that
    by (simp add: assign_init_def)
  then have "filter (\<lambda>i. c_pin (cands ! i) = PinNone \<and> \<not> assigned ?s1 ! i) [0..<?n] =
      filter (\<lambda>i. c_pin (cands ! i) = PinNone) [0..<?n]"
    by (intro filter_cong) (auto simp: is_pinned_def)
  then have u: "unpinned_order srt cands ?s1 = free_order srt cands"
    by (simp add: unpinned_order_def free_order_def)
  have "\<forall>i \<in> set (free_order srt cands). c_pin (cands ! i) = PinNone"
    by (simp add: free_order_def go_sort.srt_set [OF assms])
  from unpinned_loop [OF this] show ?thesis
    by (simp add: assignCandidateRanks_def Let_def pinned_loop u place_order_def)
qed

lemma place_order_facts:
  assumes "go_sort srt"
  shows "distinct (place_order srt cands)"
    and "set (place_order srt cands) = {i. i < length cands \<and> c_pin (cands ! i) \<in> {PinNone, PinHot, PinCold}}"
  by (auto simp: place_order_def free_order_def go_sort.srt_set [OF assms] go_sort.srt_distinct [OF assms] is_pinned_def)

subsection \<open>The loop invariant\<close>

definition packed :: "candidate list \<Rightarrow> caps \<Rightarrow> rankedPoolTarget list \<Rightarrow> (nat \<Rightarrow> int) \<Rightarrow> nat set \<Rightarrow> nat set \<Rightarrow> assign_state \<Rightarrow> bool" where
  "packed cands caps ranked pref P L s \<longleftrightarrow>
     length (assignments s) = length cands \<and> L \<subseteq> P \<and> P \<subseteq> {..<length cands} \<and>
     (\<forall>r. as_caps s r = map_option (\<lambda>c. c\<lparr>usedBytes := usedBytes c + load cands (assignments s) (P - L) r\<rparr>) (caps r)) \<and>
     (\<forall>r c. caps r = Some c \<longrightarrow>
        usedBytes c + load cands (assignments s) (P - L) r \<le> max (usedBytes c) (max (targetCap c) (fullCap c))) \<and>
     (\<forall>i \<in> P - L. assignments s ! i \<in> rt_rank ` set ranked \<inter> dom caps \<and> pref i \<le> assignments s ! i) \<and>
     (\<forall>i \<in> L. assignments s ! i = pref i \<and> fits_nowhere (as_caps s) ranked (pref i) (c_size (cands ! i)))"

lemma load_upd_other:
  "i \<notin> S \<Longrightarrow> load cands (as[i := a]) S r = load cands as S r"
  unfolding load_def by (rule sum.cong) (auto, (metis nth_list_update_neq)+)

lemma load_insert:
  assumes "finite S" "i \<notin> S" "i < length as"
  shows "load cands (as[i := a]) (insert i S) r = load cands as S r + (if a = r then c_size (cands ! i) else 0)"
proof (cases "a = r")
  case True
  have "{j. j \<in> insert i S \<and> as[i := a] ! j = r} = insert i {j. j \<in> S \<and> as[i := a] ! j = r}"
    using True assms by auto
  then show ?thesis using True assms load_upd_other [OF assms(2), of cands as a r]
    by (simp add: load_def)
next
  case False
  have "{j. j \<in> insert i S \<and> as[i := a] ! j = r} = {j. j \<in> S \<and> as[i := a] ! j = r}"
    using False assms by auto
  then show ?thesis using False assms load_upd_other [OF assms(2), of cands as a r]
    by (simp add: load_def)
qed

lemma load_le:
  assumes "finite T" "S \<subseteq> T" "\<forall>i \<in> T. 0 \<le> c_size (cands ! i)"
  shows "load cands as S r \<le> (\<Sum>i\<in>T. c_size (cands ! i))" "0 \<le> load cands as S r"
proof -
  show "load cands as S r \<le> (\<Sum>i\<in>T. c_size (cands ! i))"
    unfolding load_def using assms by (intro sum_mono2) auto
  show "0 \<le> load cands as S r" unfolding load_def using assms by (intro sum_nonneg) auto
qed

definition demand :: "candidate list \<Rightarrow> int" where
  "demand cands = (\<Sum>i<length cands. c_size (cands ! i))"

definition sizes_ok :: "candidate list \<Rightarrow> bool" where
  "sizes_ok cands \<longleftrightarrow> (\<forall>c \<in> set cands. 0 \<le> c_size c)"

lemma packed_bounded:
  assumes "packed cands caps ranked pref P L s" "sizes_ok cands" "sizes_bounded caps (demand cands)"
    "i < length cands" "i \<notin> P"
  shows "sizes_bounded (as_caps s) (c_size (cands ! i))"
  unfolding sizes_bounded_def
proof (intro allI impI)
  fix r c assume "as_caps s r = Some c"
  with assms(1) obtain c0 where c0: "caps r = Some c0"
    and c: "usedBytes c = usedBytes c0 + load cands (assignments s) (P - L) r"
    by (auto simp: packed_def)
  let ?T = "{..<length cands} - {i}"
  have "P - L \<subseteq> ?T" using assms(1,5) by (auto simp: packed_def)
  moreover have "\<forall>j \<in> ?T. 0 \<le> c_size (cands ! j)" using assms(2) by (simp add: sizes_ok_def)
  ultimately have "load cands (assignments s) (P - L) r \<le> (\<Sum>j\<in>?T. c_size (cands ! j))"
      "0 \<le> load cands (assignments s) (P - L) r"
    using load_le [of ?T] by simp_all
  moreover have "demand cands = (\<Sum>j\<in>?T. c_size (cands ! j)) + c_size (cands ! i)"
    using assms(4) unfolding demand_def by (subst sum.remove [of _ i]) auto
  ultimately show "0 \<le> usedBytes c \<and> usedBytes c + c_size (cands ! i) < 2 ^ 63"
    using assms(3) c0 c unfolding sizes_bounded_def by fastforce
qed

lemma fits_nowhere_mono:
  assumes "fits_nowhere caps ranked pref sz" "caps r = Some c" "0 \<le> d"
  shows "fits_nowhere (caps(r \<mapsto> c\<lparr>usedBytes := usedBytes c + d\<rparr>)) ranked pref sz"
  using assms unfolding fits_nowhere_def by (fastforce split: if_splits)

lemma packed_admit:
  assumes "packed cands caps ranked pref P L s" "i < length cands" "i \<notin> P" "0 \<le> c_size (cands ! i)"
    and adm: "admitted_at (as_caps s) ranked (pref i) (c_size (cands ! i)) r caps'"
  shows "packed cands caps ranked pref (insert i P) L (assign_one s i (r, caps'))"
proof -
  let ?z = "c_size (cands ! i)" and ?as = "assignments s"
  note pk = assms(1) [unfolded packed_def]
  have fin: "finite (P - L)" and iL: "i \<notin> P - L" "i \<notin> L" and len: "i < length ?as"
    using pk assms(2,3) finite_subset [of P "{..<length cands}"] by auto
  have ins: "insert i P - L = insert i (P - L)" using iL by auto
  from adm obtain c where c: "as_caps s r = Some c" "pref i \<le> r" "r \<in> rt_rank ` set ranked"
    "usedBytes c + ?z \<le> max (targetCap c) (fullCap c)" "caps' = (as_caps s)(r \<mapsto> c\<lparr>usedBytes := usedBytes c + ?z\<rparr>)"
    by (auto simp: admitted_at_def)
  from pk c(1) obtain c0 where c0: "caps r = Some c0"
    and cu: "c = c0\<lparr>usedBytes := usedBytes c0 + load cands ?as (P - L) r\<rparr>" by auto
  have ld: "load cands (?as[i := r]) (insert i P - L) q = load cands ?as (P - L) q + (if q = r then ?z else 0)" for q
    using load_insert [OF fin iL(1) len, of cands r q] ins by auto
  have "caps' q = map_option (\<lambda>c. c\<lparr>usedBytes := usedBytes c + load cands (?as[i := r]) (insert i P - L) q\<rparr>) (caps q)" for q
    using pk c(5) c0 cu by (auto simp: ld)
  moreover have "usedBytes d + load cands (?as[i := r]) (insert i P - L) q \<le> max (usedBytes d) (max (targetCap d) (fullCap d))"
    if "caps q = Some d" for q d
    using pk that c(4) c0 cu by (cases "q = r") (auto simp: ld)
  moreover have "fits_nowhere caps' ranked (pref j) (c_size (cands ! j))" if "j \<in> L" for j
    using fits_nowhere_mono [where caps = "as_caps s" and r = r and c = c and d = ?z] c(1) assms(4) pk that c(5) by auto
  moreover have "?as[i := r] ! j = ?as ! j" if "j \<in> P" for j
    using that assms(3) by (metis nth_list_update_neq)
  ultimately show ?thesis
    using pk c(2,3) c0 assms(2) len iL unfolding packed_def assign_one_def by (auto simp: domIff)
qed

lemma packed_strand:
  assumes "packed cands caps ranked pref P L s" "i < length cands" "i \<notin> P"
    and "fits_nowhere (as_caps s) ranked (pref i) (c_size (cands ! i))"
  shows "packed cands caps ranked pref (insert i P) (insert i L) (assign_one s i (pref i, as_caps s))"
proof -
  note pk = assms(1) [unfolded packed_def]
  have ins: "insert i P - insert i L = P - L" using assms(3) by auto
  have iL: "i \<notin> P - L" "i \<notin> L" "i < length (assignments s)" using pk assms(2,3) by auto
  have "(assignments s)[i := pref i] ! j = assignments s ! j" if "j \<in> P" for j
    using that assms(3) by (metis nth_list_update_neq)
  then show ?thesis
    using pk assms(2,4) iL unfolding packed_def assign_one_def by (auto simp: ins load_upd_other)
qed

lemma packed_step:
  assumes "packed cands caps ranked (pref_rank cands f sl) P L s" "sizes_ok cands"
    "sizes_bounded caps (demand cands)" "i < length cands" "i \<notin> P"
  shows "\<exists>L'. packed cands caps ranked (pref_rank cands f sl) (insert i P) L' (place_step cands ranked f sl s i)"
proof -
  let ?z = "c_size (cands ! i)" and ?p = "pref_rank cands f sl i"
  have b: "sizes_bounded (as_caps s) ?z" using packed_bounded [OF assms] .
  have z: "0 \<le> ?z" using assms(2,4) by (simp add: sizes_ok_def)
  obtain r caps' where adm: "admitWithFallbackOrder (as_caps s) ranked ?p ?z (fallback_of cands i) = (r, caps')"
    by fastforce
  then have st: "place_step cands ranked f sl s i = assign_one s i (r, caps')" by (simp add: place_step_def)
  from adm b z show ?thesis
  proof (cases rule: admit_cases)
    case target
    then show ?thesis using packed_admit [OF assms(1,4,5) z] st by metis
  next
    case full
    then show ?thesis using packed_admit [OF assms(1,4,5) z] st by metis
  next
    case stranded
    then show ?thesis using packed_strand [OF assms(1,4,5)] st by metis
  qed
qed

lemma packed_loop:
  assumes "packed cands caps ranked (pref_rank cands f sl) P L s" "sizes_ok cands"
    "sizes_bounded caps (demand cands)" "set is \<subseteq> {..<length cands}" "distinct is" "set is \<inter> P = {}"
  shows "\<exists>L'. packed cands caps ranked (pref_rank cands f sl) (P \<union> set is) L' (foldl (place_step cands ranked f sl) s is)"
  using assms
proof (induction "is" arbitrary: P L s)
  case (Cons i "is")
  from packed_step [OF Cons.prems(1-3), of i] Cons.prems(4,6) obtain L' where
    "packed cands caps ranked (pref_rank cands f sl) (insert i P) L' (place_step cands ranked f sl s i)" by auto
  from Cons.IH [OF this Cons.prems(2,3)] Cons.prems(4-6) show ?case by auto
qed auto

lemma packed_init: "sizes_bounded caps b \<Longrightarrow> packed cands caps ranked pref {} {} (assign_init cands caps)"
  by (auto simp: packed_def assign_init_def load_def option.map_ident cong: option.map_cong split: option.splits)

lemma assign_packed:
  assumes "go_sort srt" "sizes_ok cands" "sizes_bounded caps (demand cands)"
  shows "\<exists>L. packed cands caps ranked (pref_rank cands f sl)
    {i. i < length cands \<and> c_pin (cands ! i) \<in> {PinNone, PinHot, PinCold}} L
    (assignCandidateRanks srt cands caps ranked f sl)"
  using packed_loop [OF packed_init assms(2,3), OF assms(3), of "place_order srt cands" ranked f sl]
    place_order_facts [OF assms(1), of cands]
  by (auto simp: assign_is_loop [OF assms(1)])

lemma assign_assigned:
  assumes "go_sort srt"
  shows "length (assigned (assignCandidateRanks srt cands caps ranked f sl)) = length cands \<and>
    (\<forall>i < length cands. assigned (assignCandidateRanks srt cands caps ranked f sl) ! i \<longleftrightarrow>
       c_pin (cands ! i) \<in> {PinNone, PinHot, PinCold})"
  using place_loop_assigned [of cands ranked f sl "assign_init cands caps" "place_order srt cands"]
    place_order_facts(2) [OF assms, of cands]
  by (auto simp: assign_is_loop [OF assms] assign_init_def)

subsection \<open>Priority\<close>

definition caps_le :: "caps \<Rightarrow> caps \<Rightarrow> bool" where
  "caps_le a b \<longleftrightarrow> dom a = dom b \<and> (\<forall>r c d. a r = Some c \<longrightarrow> b r = Some d \<longrightarrow>
     usedBytes c \<le> usedBytes d \<and> targetCap c = targetCap d \<and> fullCap c = fullCap d)"

lemma caps_le_refl [simp]: "caps_le a a"
  by (simp add: caps_le_def)

lemma caps_le_Some: "caps_le a b \<Longrightarrow> b r = Some d \<Longrightarrow>
    \<exists>c. a r = Some c \<and> usedBytes c \<le> usedBytes d \<and> targetCap c = targetCap d \<and> fullCap c = fullCap d"
  unfolding caps_le_def by blast

lemma caps_le_trans:
  assumes "caps_le a b" "caps_le b c"
  shows "caps_le a c"
proof -
  have "usedBytes x \<le> usedBytes z \<and> targetCap x = targetCap z \<and> fullCap x = fullCap z"
    if ar: "a r = Some x" and cr: "c r = Some z" for r x z
  proof -
    obtain y where "b r = Some y" "usedBytes y \<le> usedBytes z" "targetCap y = targetCap z" "fullCap y = fullCap z"
      using caps_le_Some [OF assms(2) cr] by blast
    then show ?thesis using caps_le_Some [OF assms(1), of r y] ar by auto
  qed
  moreover have "dom a = dom c" using assms by (simp add: caps_le_def)
  ultimately show ?thesis unfolding caps_le_def by blast
qed

lemma admitted_caps_le: "admitted_at caps ranked pref sz r caps' \<Longrightarrow> 0 \<le> sz \<Longrightarrow> caps_le caps caps'"
  by (auto simp: admitted_at_def caps_le_def split: if_splits)

lemma fits_target_mono: "caps_le a b \<Longrightarrow> fits_target b r y \<Longrightarrow> x \<le> y \<Longrightarrow> fits_target a r x"
  unfolding fits_target_def using caps_le_Some [of a b r] by fastforce

lemma place_loop_grows:
  assumes "packed cands caps ranked (pref_rank cands f sl) P L s" "sizes_ok cands"
    "sizes_bounded caps (demand cands)" "set is \<subseteq> {..<length cands}" "distinct is" "set is \<inter> P = {}"
  shows "caps_le (as_caps s) (as_caps (foldl (place_step cands ranked f sl) s is)) \<and>
    (\<forall>j. j \<notin> set is \<longrightarrow> assignments (foldl (place_step cands ranked f sl) s is) ! j = assignments s ! j)"
  using assms
proof (induction "is" arbitrary: P L s)
  case (Cons i "is")
  let ?s = "place_step cands ranked f sl s i"
  have i: "i < length cands" "i \<notin> P" using Cons.prems by auto
  have z: "0 \<le> c_size (cands ! i)" using Cons.prems(2) i by (simp add: sizes_ok_def)
  obtain r caps' where adm: "admitWithFallbackOrder (as_caps s) ranked (pref_rank cands f sl i) (c_size (cands ! i))
      (fallback_of cands i) = (r, caps')" by fastforce
  from adm packed_bounded [OF Cons.prems(1-3) i] z have "caps_le (as_caps s) caps'"
    by (cases rule: admit_cases) (auto elim: admitted_caps_le [OF _ z])
  then have 1: "caps_le (as_caps s) (as_caps ?s)" "\<forall>j. j \<noteq> i \<longrightarrow> assignments ?s ! j = assignments s ! j"
    using adm by (simp_all add: place_step_def assign_one_def)
  from packed_step [OF Cons.prems(1-3) i] obtain L' where
    "packed cands caps ranked (pref_rank cands f sl) (insert i P) L' ?s" by blast
  from Cons.IH [OF this Cons.prems(2,3)] Cons.prems(4-6) 1 show ?case
    by (auto intro: caps_le_trans)
qed simp

lemma hotter_weak_order: "weak_order (hotter cands)"
  unfolding weak_order_def hotter_def Let_def by (auto split: if_splits)

lemma split_two:
  assumes "i \<in> set xs" "j \<in> set xs" "i \<noteq> j"
  shows "(\<exists>as bs cs. xs = as @ i # bs @ j # cs) \<or> (\<exists>as bs cs. xs = as @ j # bs @ i # cs)"
proof -
  obtain as ys where xs: "xs = as @ i # ys" using assms(1) by (metis split_list)
  with assms consider "j \<in> set as" | "j \<in> set ys" by auto
  then show ?thesis
  proof cases
    case 1
    then obtain bs cs where "as = bs @ j # cs" by (metis split_list)
    then have "xs = bs @ j # cs @ i # ys" using xs by simp
    then show ?thesis by blast
  next
    case 2
    then obtain bs cs where "ys = bs @ j # cs" by (metis split_list)
    then show ?thesis using xs by auto
  qed
qed

lemma free_order_before:
  assumes "go_sort srt" "i < length cands" "j < length cands" "c_pin (cands ! i) = PinNone"
    "c_pin (cands ! j) = PinNone" "hotter cands i j"
  shows "\<exists>xs ys zs. place_order srt cands = xs @ i # ys @ j # zs"
proof -
  let ?o = "free_order srt cands"
  have "i \<noteq> j" using assms(6) by (auto simp: hotter_def)
  moreover have "i \<in> set ?o" "j \<in> set ?o"
    using assms(2-5) by (simp_all add: free_order_def go_sort.srt_set [OF assms(1)])
  moreover have "sorted_wrt (\<lambda>x y. \<not> hotter cands y x) ?o"
    unfolding free_order_def by (rule go_sort.srt_sorted [OF assms(1) hotter_weak_order])
  ultimately have "\<exists>xs ys zs. ?o = xs @ i # ys @ j # zs"
    using split_two [of i ?o j] assms(6) by (auto simp: sorted_wrt_append)
  then show ?thesis unfolding place_order_def by (metis append.assoc)
qed

text \<open>
  The two files \<open>i\<close> and \<open>j\<close> of the priority property at the moment each is placed: \<open>ca\<close> are the
  capacities \<open>i\<close> saw, \<open>cb\<close> those \<open>j\<close> saw, \<open>cb'\<close> those it left.
\<close>

lemma place_before:
  fixes ranked :: "rankedPoolTarget list" and f sl :: int
  assumes "go_sort srt" "sizes_ok cands" "sizes_bounded caps (demand cands)"
    "place_order srt cands = xs @ i # ys @ j # zs"
  defines "s \<equiv> assignCandidateRanks srt cands caps ranked f sl"
  obtains ca ca' cb cb' where
    "admitWithFallbackOrder ca ranked (pref_rank cands f sl i) (c_size (cands ! i)) (fallback_of cands i) = (assignments s ! i, ca')"
    "admitWithFallbackOrder cb ranked (pref_rank cands f sl j) (c_size (cands ! j)) (fallback_of cands j) = (assignments s ! j, cb')"
    "sizes_bounded ca (c_size (cands ! i))" "sizes_bounded cb (c_size (cands ! j))"
    "caps_le ca cb" "caps_le cb' (as_caps s)" "caps_le cb (as_caps s)"
proof -
  let ?F = "foldl (place_step cands ranked f sl)" and ?pk = "packed cands caps ranked (pref_rank cands f sl)"
  define sa where "sa = ?F (assign_init cands caps) xs"
  define sb where "sb = ?F sa (i # ys)"
  note of = place_order_facts [OF assms(1), of cands]
  have dist: "distinct (xs @ i # ys @ j # zs)" and sub: "set (xs @ i # ys @ j # zs) \<subseteq> {..<length cands}"
    using of by (auto simp: assms(4))
  then have disj: "set ys \<inter> set xs = {}" "set zs \<inter> (set xs \<union> set ys) = {}"
    "(set ys \<union> set zs) \<inter> set xs = {}" by auto
  obtain La where pa: "?pk (set xs) La sa"
    using packed_loop [OF packed_init assms(2,3), OF assms(3), of xs ranked f sl] dist sub by (auto simp: sa_def)
  obtain Lb where pb: "?pk (set xs \<union> set (i # ys)) Lb sb"
    using packed_loop [OF pa assms(2,3), of "i # ys"] dist sub disj by (auto simp: sb_def)
  have s: "s = ?F sa (i # ys @ j # zs)" "s = ?F sb (j # zs)"
    by (simp_all add: s_def assign_is_loop [OF assms(1)] assms(4) sa_def sb_def)
  have g1: "caps_le (as_caps sa) (as_caps sb)"
    unfolding sb_def by (rule conjunct1 [OF place_loop_grows [OF pa assms(2,3)]]) (use dist sub in auto)
  have g2: "caps_le (as_caps sb) (as_caps s)"
    unfolding s(2) by (rule conjunct1 [OF place_loop_grows [OF pb assms(2,3)]]) (use dist sub in auto)
  obtain L1 where p1: "?pk (insert i (set xs)) L1 (place_step cands ranked f sl sa i)"
    using packed_step [OF pa assms(2,3), of i] dist sub by auto
  obtain L2 where p2: "?pk (insert j (set xs \<union> set (i # ys))) L2 (place_step cands ranked f sl sb j)"
    using packed_step [OF pb assms(2,3), of j] dist sub by auto
  have ai: "assignments s ! i = assignments (place_step cands ranked f sl sa i) ! i"
    using place_loop_grows [OF p1 assms(2,3), of "ys @ j # zs"] dist sub disj by (auto simp: s(1))
  have gj: "caps_le (as_caps (place_step cands ranked f sl sb j)) (as_caps s)"
    "assignments s ! j = assignments (place_step cands ranked f sl sb j) ! j"
    using place_loop_grows [OF p2 assms(2,3), of zs] dist sub disj by (auto simp: s(2))
  have len: "i < length (assignments sa)" "j < length (assignments sb)"
    using pa pb sub by (auto simp: packed_def)
  have "sizes_bounded (as_caps sa) (c_size (cands ! i))" "sizes_bounded (as_caps sb) (c_size (cands ! j))"
    using packed_bounded [OF pa assms(2,3), of i] packed_bounded [OF pb assms(2,3), of j] dist sub by auto
  then show thesis
    using g1 g2 gj ai len
    by (intro that [of "as_caps sa" "as_caps (place_step cands ranked f sl sa i)" "as_caps sb"
          "as_caps (place_step cands ranked f sl sb j)"])
      (simp_all add: place_step_def assign_one_def prod_eq_iff)
qed

section \<open>Properties of the packer\<close>



subsection \<open>A small pool\<close>

definition sample_target :: "string \<Rightarrow> MdadmManagedTargetRow" where
  "sample_target m = \<lparr>TierTargetID = m, PoolName = ''tank'', TierName = m, VGName = ''vg'', LVName = m, MountPath = ''/mnt/'' @ m\<rparr>"

definition sample_ranked :: "rankedPoolTarget list" where
  "sample_ranked = [\<lparr>rt_rank = 1, rt_target = sample_target ''nvme'', targetFillPct = 60, fullThresholdPct = 95\<rparr>,
     \<lparr>rt_rank = 2, rt_target = sample_target ''hdd'', targetFillPct = 100, fullThresholdPct = 100\<rparr>]"

definition sample_cap :: "int \<Rightarrow> string \<Rightarrow> int \<Rightarrow> int \<Rightarrow> tierCapacity" where
  "sample_cap u m tp fp = \<lparr>totalBytes = 100, usedBytes = u, targetCap = tierTargetCapBytes 100 tp,
     fullCap = tierFullCapBytes 100 fp, cap_target = sample_target m\<rparr>"

definition sample_caps :: "int \<Rightarrow> int \<Rightarrow> caps" where
  "sample_caps u1 u2 = [1 \<mapsto> sample_cap u1 ''nvme'' 60 95, 2 \<mapsto> sample_cap u2 ''hdd'' 100 100]"

definition sample_cand :: "string \<Rightarrow> int \<Rightarrow> int \<Rightarrow> pin_state \<Rightarrow> u32 \<Rightarrow> candidate" where
  "sample_cand f sz r p h = \<lparr>c_rel = f, c_size = sz, c_inode = 1, curRank = r,
     curTarg = sample_target (if r = 1 then ''nvme'' else ''hdd''), c_pin = p, c_heat = h\<rparr>"

text \<open>A cold file on the fast tier and a hot one of the same size on the slow tier.\<close>

definition swap_cands :: "candidate list" where
  "swap_cands = [sample_cand ''cold'' 50 1 PinNone 0, sample_cand ''hot'' 50 2 PinNone 1]"

lemma swap_length: "length swap_cands = 2"
  by (simp add: swap_cands_def)

lemma swap_ok:
  "sizes_ok swap_cands" "demand swap_cands = 100" "sizes_bounded (sample_caps 10 50) (demand swap_cands)"
  by (simp_all add: sizes_ok_def swap_cands_def sample_cand_def demand_def sizes_bounded_def sample_caps_def
      sample_cap_def lessThan_Suc numeral_2_eq_2)

lemmas sample_defs = swap_cands_def sample_cand_def sample_caps_def sample_cap_def sample_ranked_def sample_target_def
  tierTargetCapBytes_def tierFullCapBytes_def signed_divide_int_def wrap64_def admissionCap_def add_used_def

lemma swap_assign:
  "assignments (assignCandidateRanks isort swap_cands (sample_caps 10 50) sample_ranked 1 2) = [2, 1]"
  "assigned (assignCandidateRanks isort swap_cands (sample_caps 10 50) sample_ranked 1 2) = [True, True]"
  "map_option usedBytes (as_caps (assignCandidateRanks isort swap_cands (sample_caps 10 50) sample_ranked 1 2) 1) = Some 60"
  by (simp_all add: assignCandidateRanks_def assign_init_def assign_pinned_def assign_unpinned_def assign_one_def
      unpinned_order_def isort_def hotter_def admitWithFallback_def admitWithFallbackOrder_def sample_defs Let_def)



section \<open>The moves\<close>

definition is_move :: "candidate list \<Rightarrow> int list \<Rightarrow> bool list \<Rightarrow> nat \<Rightarrow> bool" where
  "is_move cands as ok i \<longleftrightarrow> ok ! i \<and> as ! i \<noteq> curRank (cands ! i)"

lemma plan_moves_filter:
  "plan_moves cands as ok is (d, p) =
     (d @ map (\<lambda>i. \<lparr>m_idx = i, m_want = as ! i\<rparr>) (filter (\<lambda>i. is_move cands as ok i \<and> curRank (cands ! i) < as ! i) is),
      p @ map (\<lambda>i. \<lparr>m_idx = i, m_want = as ! i\<rparr>) (filter (\<lambda>i. is_move cands as ok i \<and> as ! i < curRank (cands ! i)) is))"
  by (induction "is" arbitrary: d p) (auto simp: is_move_def Let_def)

text \<open>Where the files are after some moves have succeeded.\<close>

definition apply_moves :: "plannedMove list \<Rightarrow> int list \<Rightarrow> int list" where
  "apply_moves ms pl = foldl (\<lambda>pl m. pl[m_idx m := m_want m]) pl ms"

lemma length_apply_moves [simp]: "length (apply_moves ms pl) = length pl"
  unfolding apply_moves_def by (induction ms arbitrary: pl) auto

lemma apply_moves_nth:
  "i < length pl \<Longrightarrow> \<forall>m \<in> set ms. m_want m = as ! m_idx m \<Longrightarrow>
     apply_moves ms pl ! i = (if i \<in> m_idx ` set ms then as ! i else pl ! i)"
proof (induction ms arbitrary: pl)
  case (Cons m ms)
  have "apply_moves (m # ms) pl = apply_moves ms (pl[m_idx m := m_want m])" by (simp add: apply_moves_def)
  with Cons.IH [of "pl[m_idx m := m_want m]"] Cons.prems show ?case
    by (cases "i = m_idx m") auto
qed (simp add: apply_moves_def)

text \<open>
  C27. The move order is a partition of the plan: every assigned file that is not on its tier is
  moved exactly once, to its assigned tier, demotions before promotions and each in scan order,
  and when all moves succeed every file is on the tier the packer gave it.
\<close>

theorem planMoveOrder_correct:
  assumes "planMoveOrder cands as ok = (demotions, promotions)"
  shows "set (map m_idx (demotions @ promotions)) = {i. i < length cands \<and> ok ! i \<and> as ! i \<noteq> curRank (cands ! i)} \<and>
    distinct (map m_idx (demotions @ promotions)) \<and> sorted (map m_idx demotions) \<and> sorted (map m_idx promotions) \<and>
    (\<forall>m \<in> set demotions. m_want m = as ! m_idx m \<and> curRank (cands ! m_idx m) < m_want m) \<and>
    (\<forall>m \<in> set promotions. m_want m = as ! m_idx m \<and> m_want m < curRank (cands ! m_idx m)) \<and>
    apply_moves (demotions @ promotions) (map curRank cands) =
      map (\<lambda>i. if ok ! i then as ! i else curRank (cands ! i)) [0..<length cands]"
proof -
  let ?D = "filter (\<lambda>i. is_move cands as ok i \<and> curRank (cands ! i) < as ! i) [0..<length cands]"
  let ?P = "filter (\<lambda>i. is_move cands as ok i \<and> as ! i < curRank (cands ! i)) [0..<length cands]"
  have d: "map m_idx demotions = ?D" and p: "map m_idx promotions = ?P"
    and w: "\<forall>m \<in> set (demotions @ promotions). m_want m = as ! m_idx m"
    and dd: "\<forall>m \<in> set demotions. m_want m = as ! m_idx m \<and> curRank (cands ! m_idx m) < m_want m"
    and pp: "\<forall>m \<in> set promotions. m_want m = as ! m_idx m \<and> m_want m < curRank (cands ! m_idx m)"
    using assms by (auto simp: planMoveOrder_def plan_moves_filter comp_def)
  have s: "set (map m_idx (demotions @ promotions)) = {i. i < length cands \<and> ok ! i \<and> as ! i \<noteq> curRank (cands ! i)}"
    unfolding map_append set_append d p by (auto simp: is_move_def)
  have "apply_moves (demotions @ promotions) (map curRank cands) =
      map (\<lambda>i. if ok ! i then as ! i else curRank (cands ! i)) [0..<length cands]"
    by (rule nth_equalityI) (use s in \<open>auto simp: apply_moves_nth [OF _ w]\<close>)
  then show ?thesis using s d p dd pp by (auto simp: sorted_wrt_filter)
qed

theorem planMoveOrder_correct_witness:
  "apply_moves (fst (planMoveOrder swap_cands [2, 1] [True, True]) @ snd (planMoveOrder swap_cands [2, 1] [True, True]))
     (map curRank swap_cands) = [2, 1]"
  using planMoveOrder_correct [of swap_cands "[2, 1]" "[True, True]" "fst (planMoveOrder swap_cands [2, 1] [True, True])"
      "snd (planMoveOrder swap_cands [2, 1] [True, True])"]
  by (simp add: swap_cands_def)

text \<open>
  The physical side: a move copies the file before it removes the source, so it succeeds only if
  the destination has room for it at that moment, and fails with \<^verbatim>\<open>ENOSPC\<close> otherwise.
\<close>

fun run_moves :: "(int \<Rightarrow> int) \<Rightarrow> candidate list \<Rightarrow> plannedMove list \<Rightarrow> (int \<Rightarrow> int) \<Rightarrow> plannedMove list" where
  "run_moves tot cands [] occ = []"
| "run_moves tot cands (m # ms) occ =
     (let sz = c_size (cands ! m_idx m); cur = curRank (cands ! m_idx m) in
      if occ (m_want m) + sz \<le> tot (m_want m)
      then m # run_moves tot cands ms (occ(m_want m := occ (m_want m) + sz, cur := occ cur - sz))
      else run_moves tot cands ms occ)"


text \<open>
  C29. A file that fits nowhere does not stay put. An unpinned file below the fastest tier that no
  tier can take at or below the fastest is still marked assigned, to the fastest tier, and gets a
  promotion into it although that tier has no room for it.
\<close>

theorem unfitting_file_promoted:
  assumes "go_sort srt" "c_pin c = PinNone" "0 \<le> c_size c" "sizes_bounded caps (c_size c)"
    "fits_nowhere caps ranked fastest (c_size c)" "fastest < curRank c"
    "s = assignCandidateRanks srt [c] caps ranked fastest slowest"
  shows "planMoveOrder [c] (assignments s) (assigned s) = ([], [\<lparr>m_idx = 0, m_want = fastest\<rparr>]) \<and> as_caps s = caps"
proof -
  have "srt (hotter [c]) [0] = [0]"
    using go_sort.srt_mset [OF assms(1), of "hotter [c]" "[0]"] by simp
  then have o: "place_order srt [c] = [0]"
    using assms(2) by (simp add: place_order_def is_pinned_def free_order_def)
  obtain r caps' where adm: "admitWithFallbackOrder caps ranked fastest (c_size c) fullFallbackSlowestFirst = (r, caps')"
    by fastforce
  from adm assms(4,3) have "r = fastest \<and> caps' = caps"
  proof (cases rule: admit_cases)
    case target
    then show ?thesis using assms(5) by (force simp: admitted_at_def fits_nowhere_def)
  next
    case full
    then show ?thesis using assms(5) by (force simp: admitted_at_def fits_nowhere_def)
  qed simp
  then have "s = \<lparr>assignments = [fastest], assigned = [True], as_caps = caps\<rparr>"
    using adm assms(2) by (simp add: assms(7) assign_is_loop [OF assms(1)] o assign_init_def place_step_def assign_one_def
        pref_rank_def fallback_of_def)
  then show ?thesis using assms(6) by (simp add: planMoveOrder_def)
qed

theorem unfitting_file_promoted_witness:
  "snd (planMoveOrder [sample_cand ''big'' 30 2 PinNone 0]
     (assignments (assignCandidateRanks isort [sample_cand ''big'' 30 2 PinNone 0] (sample_caps 90 80) sample_ranked 1 2))
     (assigned (assignCandidateRanks isort [sample_cand ''big'' 30 2 PinNone 0] (sample_caps 90 80) sample_ranked 1 2))) =
   [\<lparr>m_idx = 0, m_want = 1\<rparr>]"
  using unfitting_file_promoted [OF isort.go_sort_axioms _ _ _ _ _ refl,
      of "sample_cand ''big'' 30 2 PinNone 0" "sample_caps 90 80" sample_ranked 1 2]
  by (auto simp: sample_defs sizes_bounded_def fits_nowhere_def split: if_splits)

section \<open>Ceilings and the size bias\<close>

lemma sdiv_pos: "0 \<le> a \<Longrightarrow> 0 < b \<Longrightarrow> a sdiv b = a div (b :: int)"
  by (simp add: signed_divide_int_def sgn_if)

lemma tierTargetCap_bounds:
  assumes "0 \<le> tot" "tot * 100 < 2 ^ 63" "0 \<le> pct" "pct \<le> 100"
  shows "tierTargetCapBytes tot pct = tot * pct div 100 \<and> 0 \<le> tierTargetCapBytes tot pct \<and> tierTargetCapBytes tot pct \<le> tot"
proof -
  have le: "tot * pct \<le> tot * 100" using assms by (simp add: mult_left_mono)
  then have "wrap64 (tot * pct) = tot * pct" using assms by (intro wrap64_nonneg_id) auto
  then have "tierTargetCapBytes tot pct = tot * pct div 100"
    using assms by (simp add: tierTargetCapBytes_def Let_def sdiv_pos)
  moreover have "tot * pct div 100 \<le> tot * 100 div 100" using le by (rule zdiv_mono1) simp
  moreover have "0 \<le> tot * pct div 100" using assms by (simp add: pos_imp_zdiv_nonneg_iff)
  ultimately show ?thesis by simp
qed

lemma tierFullCap_eq: "tierFullCapBytes = tierTargetCapBytes"
  by (simp add: fun_eq_iff tierFullCapBytes_def tierTargetCapBytes_def)

lemma bucket_steps_log:
  assumes "1 \<le> u"
  shows "\<exists>k. bucket_steps u n = n + int k \<and> 16 ^ k \<le> u \<and> u < 16 ^ Suc k"
  using assms
proof (induction u n rule: bucket_steps.induct)
  case (1 u n)
  show ?case
  proof (cases "u \<ge> 16")
    case True
    then have q: "u sdiv sizeBucketStep = u div 16" "1 \<le> u div 16" by (simp_all add: sizeBucketStep_def sdiv_pos)
    with 1 True obtain k where k: "bucket_steps (u div 16) (n + 1) = n + 1 + int k" "16 ^ k \<le> u div 16" "u div 16 < 16 ^ Suc k"
      by (auto simp: sizeBucketStep_def)
    then have "16 ^ Suc k \<le> u" "u < 16 ^ Suc (Suc k)" by auto
    then show ?thesis using k(1) True q by (intro exI [of _ "Suc k"]) (simp add: bucket_steps.simps [of u n] sizeBucketStep_def)
  next
    case False
    then show ?thesis using 1(2) by (intro exI [of _ 0]) (simp add: bucket_steps.simps [of u n] sizeBucketStep_def)
  qed
qed

text \<open>
  C40. The size bias is a base-16 logarithm: a file of \<open>16 ^ k\<close> to \<open>16 ^ (k + 1)\<close> megabytes prefers
  the tier \<open>k\<close> ranks below the fastest, and never one below the slowest.
\<close>

theorem sizeBucketRank_log:
  assumes "0 \<le> fastest" "fastest \<le> slowest" "slowest < 2 ^ 62" "sizeBucketBaseBytes \<le> sz" "sz < 2 ^ 63"
  shows "\<exists>k. 16 ^ k * 2 ^ 20 \<le> sz \<and> sz < 16 ^ Suc k * 2 ^ 20 \<and>
    sizeBucketRank sz fastest slowest = min slowest (fastest + int k)"
proof -
  let ?u = "sz div 2 ^ 20"
  have u: "sz sdiv sizeBucketBaseBytes = ?u" "1 \<le> ?u"
    using assms(4) by (simp_all add: sdiv_pos sizeBucketBaseBytes_def)
  obtain k where k: "bucket_steps ?u 0 = int k" "16 ^ k \<le> ?u" "?u < 16 ^ Suc k"
    using bucket_steps_log [OF u(2), of 0] by auto
  have lo: "16 ^ k * 2 ^ 20 \<le> sz" using k(2) by auto
  have hi: "sz < 16 ^ Suc k * 2 ^ 20"
  proof -
    have "?u + 1 \<le> 16 ^ Suc k" using k(3) by simp
    then have "(?u + 1) * 2 ^ 20 \<le> 16 ^ Suc k * 2 ^ 20" by (rule mult_right_mono) simp
    moreover have "sz < (?u + 1) * 2 ^ 20" by simp
    ultimately show ?thesis by simp
  qed
  have "int k < 2 ^ 62"
  proof (rule ccontr)
    assume "\<not> int k < 2 ^ 62"
    then have "63 \<le> k" by simp
    then have "(16 :: int) ^ 63 \<le> 16 ^ k" by (intro power_increasing) auto
    with lo assms(5) show False by simp
  qed
  then have "wrap64 (fastest + int k) = fastest + int k" using assms(1-3) by (intro wrap64_nonneg_id) auto
  then show ?thesis using lo hi k(1) u(1) assms(4)
    by (intro exI [of _ k]) (simp add: sizeBucketRank_def Let_def min_def)
qed

theorem sizeBucketRank_log_witness: "sizeBucketRank (2 ^ 28) 1 3 = 3"
proof -
  obtain k where "16 ^ k * 2 ^ 20 \<le> (2 ^ 28 :: int)" "(2 ^ 28 :: int) < 16 ^ Suc k * 2 ^ 20"
    and r: "sizeBucketRank (2 ^ 28) 1 3 = min 3 (1 + int k)"
    using sizeBucketRank_log [of 1 3 "2 ^ 28"] by (auto simp: sizeBucketBaseBytes_def)
  then have "(16 :: int) ^ 2 < 16 ^ Suc k" by simp
  then have "2 \<le> k" using power_less_imp_less_exp [of "16 :: int" 2 "Suc k"] by simp
  then show ?thesis using r by simp
qed

lemma tier_index_from_spec:
  "tier_index_from n ts w = Some k \<longleftrightarrow>
     (\<exists>i < length ts. k = n + i \<and> path_Clean (ts ! i) = w \<and> (\<forall>j < i. path_Clean (ts ! j) \<noteq> w))"
proof (induction ts arbitrary: n)
  case (Cons t ts)
  show ?case
  proof (cases "path_Clean t = w")
    case True
    then show ?thesis by (auto intro: exI [of _ 0]) (metis gr0I nth_Cons_0)
  next
    case False
    have "(\<exists>i < Suc (length ts). k = n + i \<and> path_Clean ((t # ts) ! i) = w \<and> (\<forall>j < i. path_Clean ((t # ts) ! j) \<noteq> w)) \<longleftrightarrow>
        (\<exists>i < length ts. k = Suc n + i \<and> path_Clean (ts ! i) = w \<and> (\<forall>j < i. path_Clean (ts ! j) \<noteq> w))" (is "?l = ?r")
    proof
      assume ?l
      then obtain i where i: "i < Suc (length ts)" "k = n + i" "path_Clean ((t # ts) ! i) = w"
        "\<forall>j < i. path_Clean ((t # ts) ! j) \<noteq> w" by blast
      then obtain m where m: "i = Suc m" using False by (cases i) auto
      have "\<forall>j < m. path_Clean (ts ! j) \<noteq> w" using i(4) m by (metis Suc_less_eq nth_Cons_Suc)
      then show ?r using i m by auto
    next
      assume ?r
      then obtain i where i: "i < length ts" "k = Suc n + i" "path_Clean (ts ! i) = w" "\<forall>j < i. path_Clean (ts ! j) \<noteq> w"
        by blast
      have "\<forall>j < Suc i. path_Clean ((t # ts) ! j) \<noteq> w" using i(4) False by (simp add: nth_Cons split: nat.split)
      then show ?l using i by (intro exI [of _ "Suc i"]) simp
    qed
    then show ?thesis using False Cons.IH [of "Suc n"] by simp
  qed
qed simp

lemma smoothfsTierIndex_spec:
  "smoothfsTierIndex tiers m = Some k \<longleftrightarrow>
     k < length tiers \<and> path_Clean (tiers ! k) = path_Clean m \<and> (\<forall>j < k. path_Clean (tiers ! j) \<noteq> path_Clean m)"
  by (auto simp: smoothfsTierIndex_def tier_index_from_spec)

end
