(* ===== verification/MetaCache.thy ===== *)
theory MetaCache
  imports MetaRecord
begin

text \<open>
  The sharded read cache of \<^verbatim>\<open>tiering/meta/cache.go\<close>. Part one models each operation as
  the atomic step it is when one goroutine runs: the cache is a bounded map from inodes to
  records, and its counter is the number of entries. Part two models what the per-shard
  mutexes really serialise: the counter is shared by all shards, so puts on different shards
  interleave between the capacity check and the increment.
\<close>

section \<open>Definitions\<close>

definition cacheShards :: nat where
  "cacheShards = 64"

definition defaultMaxCacheEntries :: int where
  "defaultMaxCacheEntries = 4700000"

type_synonym cacheShard = "u64 \<rightharpoonup> Record"

record inodeCache =
  cshards :: "cacheShard list"
  max_entries :: int
  entry_count :: int

definition newInodeCache :: "int \<Rightarrow> inodeCache" where
  "newInodeCache mx = \<lparr>cshards = replicate cacheShards Map.empty, max_entries = mx, entry_count = 0\<rparr>"

text \<open>\<^verbatim>\<open>shardFor\<close>: the index of the shard an inode belongs to.\<close>

definition cache_shardFor :: "u64 \<Rightarrow> nat" where
  "cache_shardFor inode = unat inode mod cacheShards"

definition cache_get :: "inodeCache \<Rightarrow> u64 \<Rightarrow> Record option" where
  "cache_get c inode = (cshards c ! cache_shardFor inode) inode"

text \<open>The write both put variants end in: store the record, counting a new inode.\<close>

definition cache_full :: "inodeCache \<Rightarrow> bool" where
  "cache_full c \<longleftrightarrow> max_entries c > 0 \<and> entry_count c \<ge> max_entries c"

definition cache_put :: "inodeCache \<Rightarrow> u64 \<Rightarrow> Record \<Rightarrow> inodeCache" where
  "cache_put c inode rec =
     (let i = cache_shardFor inode; s = cshards c ! i in
      case s inode of
        None \<Rightarrow>
          if cache_full c then c
          else c\<lparr>entry_count := wrap64 (entry_count c + 1), cshards := (cshards c)[i := s(inode \<mapsto> rec)]\<rparr>
      | Some _ \<Rightarrow> c\<lparr>cshards := (cshards c)[i := s(inode \<mapsto> rec)]\<rparr>)"

definition putIfPlacementChanged :: "inodeCache \<Rightarrow> u64 \<Rightarrow> Record \<Rightarrow> inodeCache" where
  "putIfPlacementChanged c inode rec =
     (let cached = (cshards c ! cache_shardFor inode) inode;
          unchanged = (case cached of None \<Rightarrow> False
            | Some r \<Rightarrow> TierIdx r = TierIdx rec \<and> PinState r = PinState rec)
      in if unchanged then c
         else let i = cache_shardFor inode; s = cshards c ! i in
           case s inode of
             None \<Rightarrow>
               if cache_full c then c
               else c\<lparr>entry_count := wrap64 (entry_count c + 1), cshards := (cshards c)[i := s(inode \<mapsto> rec)]\<rparr>
           | Some _ \<Rightarrow> c\<lparr>cshards := (cshards c)[i := s(inode \<mapsto> rec)]\<rparr>)"

definition cache_del :: "inodeCache \<Rightarrow> u64 \<Rightarrow> inodeCache" where
  "cache_del c inode =
     (let i = cache_shardFor inode; s = cshards c ! i in
      case s inode of
        None \<Rightarrow> c
      | Some _ \<Rightarrow> c\<lparr>cshards := (cshards c)[i := s(inode := None)], entry_count := wrap64 (entry_count c - 1)\<rparr>)"

subsection \<open>Invariant and runs\<close>

definition shard_ok :: "nat \<Rightarrow> cacheShard \<Rightarrow> bool" where
  "shard_ok i s \<longleftrightarrow> finite (dom s) \<and> (\<forall>k \<in> dom s. cache_shardFor k = i)"

definition cache_entries :: "cacheShard list \<Rightarrow> int" where
  "cache_entries ss = (\<Sum>s\<leftarrow>ss. int (card (dom s)))"

definition cache_shape :: "cacheShard list \<Rightarrow> bool" where
  "cache_shape ss \<longleftrightarrow> length ss = cacheShards \<and> (\<forall>i < cacheShards. shard_ok i (ss ! i))"

definition cache_inv :: "inodeCache \<Rightarrow> bool" where
  "cache_inv c \<longleftrightarrow> cache_shape (cshards c) \<and> 0 < max_entries c \<and> max_entries c < 2 ^ 63 \<and>
     entry_count c = cache_entries (cshards c) \<and> entry_count c \<le> max_entries c"

definition sample_record :: Record where
  "sample_record = \<lparr>Version = RecordVersion, PinState = PinNone, TierIdx = 1, NamespaceID = 0,
     HeatCounter = 0, LastAccessNS = 0\<rparr>"

datatype cache_op = CPut u64 Record | CPutChanged u64 Record | CDel u64

fun cache_step :: "inodeCache \<Rightarrow> cache_op \<Rightarrow> inodeCache" where
  "cache_step c (CPut i r) = cache_put c i r"
| "cache_step c (CPutChanged i r) = putIfPlacementChanged c i r"
| "cache_step c (CDel i) = cache_del c i"

subsection \<open>The interleaved cache\<close>

text \<open>
  At most one goroutine is inside a shard's write-locked section, so the section's progress is
  indexed by the shard: \<open>Checked\<close> has passed the capacity check and not yet incremented the
  counter, \<open>Counted\<close> has incremented it and not yet stored the entry, \<open>Removed\<close> has deleted
  the entry and not yet decremented the counter.
\<close>

datatype section_pc = Unlocked | Checked u64 Record | Counted u64 Record | Removed

record conc_cache =
  cache :: inodeCache
  section_pcs :: "section_pc list"

definition conc_init :: "int \<Rightarrow> conc_cache" where
  "conc_init mx = \<lparr>cache = newInodeCache mx, section_pcs = replicate cacheShards Unlocked\<rparr>"

inductive conc_step :: "conc_cache \<Rightarrow> conc_cache \<Rightarrow> bool" where
  put_update: "\<lbrakk>i = cache_shardFor ino; section_pcs s ! i = Unlocked; (cshards (cache s) ! i) ino \<noteq> None\<rbrakk> \<Longrightarrow>
    conc_step s (s\<lparr>cache := (cache s)\<lparr>cshards := (cshards (cache s))[i := (cshards (cache s) ! i)(ino \<mapsto> rec)]\<rparr>\<rparr>)"
| put_check: "\<lbrakk>i = cache_shardFor ino; section_pcs s ! i = Unlocked; (cshards (cache s) ! i) ino = None;
    \<not> cache_full (cache s)\<rbrakk> \<Longrightarrow>
    conc_step s (s\<lparr>section_pcs := (section_pcs s)[i := Checked ino rec]\<rparr>)"
| put_count: "\<lbrakk>i < cacheShards; section_pcs s ! i = Checked ino rec\<rbrakk> \<Longrightarrow>
    conc_step s (s\<lparr>cache := (cache s)\<lparr>entry_count := wrap64 (entry_count (cache s) + 1)\<rparr>, section_pcs := (section_pcs s)[i := Counted ino rec]\<rparr>)"
| put_store: "\<lbrakk>i < cacheShards; section_pcs s ! i = Counted ino rec\<rbrakk> \<Longrightarrow>
    conc_step s (s\<lparr>cache := (cache s)\<lparr>cshards := (cshards (cache s))[i := (cshards (cache s) ! i)(ino \<mapsto> rec)]\<rparr>,
                   section_pcs := (section_pcs s)[i := Unlocked]\<rparr>)"
| del_remove: "\<lbrakk>i = cache_shardFor ino; section_pcs s ! i = Unlocked; (cshards (cache s) ! i) ino \<noteq> None\<rbrakk> \<Longrightarrow>
    conc_step s (s\<lparr>cache := (cache s)\<lparr>cshards := (cshards (cache s))[i := (cshards (cache s) ! i)(ino := None)]\<rparr>,
                   section_pcs := (section_pcs s)[i := Removed]\<rparr>)"
| del_count: "\<lbrakk>i < cacheShards; section_pcs s ! i = Removed\<rbrakk> \<Longrightarrow>
    conc_step s (s\<lparr>cache := (cache s)\<lparr>entry_count := wrap64 (entry_count (cache s) - 1)\<rparr>, section_pcs := (section_pcs s)[i := Unlocked]\<rparr>)"

inductive conc_reachable :: "int \<Rightarrow> conc_cache \<Rightarrow> bool" for mx where
  conc_start: "conc_reachable mx (conc_init mx)"
| conc_next: "conc_reachable mx s \<Longrightarrow> conc_step s t \<Longrightarrow> conc_reachable mx t"

text \<open>How far the counter is ahead of the stored entries, and the reservations still to come.\<close>

fun pc_ahead :: "section_pc \<Rightarrow> int" where
  "pc_ahead (Counted _ _) = 1"
| "pc_ahead Removed = 1"
| "pc_ahead _ = 0"

fun pc_reserved :: "section_pc \<Rightarrow> int" where
  "pc_reserved (Checked _ _) = 1"
| "pc_reserved _ = 0"

fun pc_fits :: "nat \<Rightarrow> cacheShard \<Rightarrow> section_pc \<Rightarrow> bool" where
  "pc_fits i s (Checked ino _) = (cache_shardFor ino = i \<and> s ino = None)"
| "pc_fits i s (Counted ino _) = (cache_shardFor ino = i \<and> s ino = None)"
| "pc_fits i s _ = True"

definition conc_inv :: "int \<Rightarrow> conc_cache \<Rightarrow> bool" where
  "conc_inv mx s \<longleftrightarrow> cache_shape (cshards (cache s)) \<and> length (section_pcs s) = cacheShards \<and>
     max_entries (cache s) = mx \<and>
     (\<forall>i < cacheShards. pc_fits i (cshards (cache s) ! i) (section_pcs s ! i)) \<and>
     entry_count (cache s) = cache_entries (cshards (cache s)) + (\<Sum>p\<leftarrow>section_pcs s. pc_ahead p) \<and>
     entry_count (cache s) + (\<Sum>p\<leftarrow>section_pcs s. pc_reserved p) \<le> mx + int cacheShards - 1"

section \<open>The cache as a bounded map\<close>

lemma cache_shardFor_less [simp]: "cache_shardFor i < cacheShards"
  by (simp add: cache_shardFor_def cacheShards_def)

lemma cache_shape_length: "cache_shape ss \<Longrightarrow> length ss = cacheShards"
  by (simp add: cache_shape_def)

lemma cache_shape_shard: "cache_shape ss \<Longrightarrow> i < cacheShards \<Longrightarrow> shard_ok i (ss ! i)"
  by (simp add: cache_shape_def)

lemma cache_lookup_upd:
  assumes "cache_shape ss"
  shows "(ss[cache_shardFor ino := (ss ! cache_shardFor ino)(ino := v)] ! cache_shardFor j) j =
    (if j = ino then v else (ss ! cache_shardFor j) j)"
  using cache_shape_length [OF assms] by (cases "cache_shardFor j = cache_shardFor ino") auto

lemma cache_shape_upd:
  assumes "cache_shape ss"
  shows "cache_shape (ss[cache_shardFor ino := (ss ! cache_shardFor ino)(ino := v)])"
  using assms unfolding cache_shape_def shard_ok_def
  by (auto simp: nth_list_update split: if_splits)

lemma cache_entries_nonneg: "0 \<le> cache_entries ss"
  unfolding cache_entries_def by (intro sum_list_nonneg) auto

lemma cache_entries_upd:
  assumes "cache_shape ss" "i = cache_shardFor ino"
  shows "cache_entries (ss[i := (ss ! i)(ino := v)]) =
    cache_entries ss + (if v = None then 0 else 1) - (if (ss ! i) ino = None then 0 else 1)"
proof -
  have i: "i < length ss" and fin: "finite (dom (ss ! i))"
    using assms cache_shape_shard [of ss i] by (simp_all add: cache_shape_length shard_ok_def)
  have "int (card (dom ((ss ! i)(ino := v)))) =
    int (card (dom (ss ! i))) + (if v = None then 0 else 1) - (if (ss ! i) ino = None then 0 else 1)"
  proof (cases v)
    case None
    have "ino \<in> dom (ss ! i) \<Longrightarrow> 0 < card (dom (ss ! i))" using fin by (auto simp: card_gt_0_iff)
    with None fin show ?thesis by (auto simp: card_dom_del domIff of_nat_diff)
  next
    case (Some r)
    with fin show ?thesis by (auto simp: card_insert_if domIff)
  qed
  with i show ?thesis
    by (simp add: cache_entries_def sum_list_update_int)
qed

text \<open>The entries of the shards are the entries of the cache: no inode is in two shards.\<close>

lemma cache_entries_card:
  assumes "cache_shape ss"
  shows "cache_entries ss = int (card {ino. (ss ! cache_shardFor ino) ino \<noteq> None})"
proof -
  have U: "{ino. (ss ! cache_shardFor ino) ino \<noteq> None} = (\<Union>i < cacheShards. dom (ss ! i))"
  proof (intro set_eqI iffI)
    fix ino
    assume "ino \<in> (\<Union>i < cacheShards. dom (ss ! i))"
    then obtain i where "i < cacheShards" "ino \<in> dom (ss ! i)" by auto
    moreover then have "cache_shardFor ino = i"
      using cache_shape_shard [OF assms] by (auto simp: shard_ok_def)
    ultimately show "ino \<in> {ino. (ss ! cache_shardFor ino) ino \<noteq> None}" by auto
  next
    fix ino
    assume "ino \<in> {ino. (ss ! cache_shardFor ino) ino \<noteq> None}"
    then have "ino \<in> dom (ss ! cache_shardFor ino)" by auto
    then show "ino \<in> (\<Union>i < cacheShards. dom (ss ! i))"
      using cache_shardFor_less [of ino] by blast
  qed
  have "card (\<Union>i < cacheShards. dom (ss ! i)) = (\<Sum>i < cacheShards. card (dom (ss ! i)))"
  proof (rule card_UN_disjoint)
    show "\<forall>i\<in>{..<cacheShards}. finite (dom (ss ! i))"
      using cache_shape_shard [OF assms] by (simp add: shard_ok_def)
    show "\<forall>i\<in>{..<cacheShards}. \<forall>j\<in>{..<cacheShards}. i \<noteq> j \<longrightarrow> dom (ss ! i) \<inter> dom (ss ! j) = {}"
    proof (intro ballI impI)
      fix i j
      assume "i \<in> {..<cacheShards}" "j \<in> {..<cacheShards}" "i \<noteq> j"
      then have "shard_ok i (ss ! i)" "shard_ok j (ss ! j)"
        using cache_shape_shard [OF assms] by simp_all
      with \<open>i \<noteq> j\<close> show "dom (ss ! i) \<inter> dom (ss ! j) = {}"
        unfolding shard_ok_def by (metis disjoint_iff)
    qed
  qed simp
  moreover have "cache_entries ss = (\<Sum>i < cacheShards. int (card (dom (ss ! i))))"
    using cache_shape_length [OF assms]
    by (simp add: cache_entries_def sum_list_sum_nth atLeast0LessThan)
  ultimately show ?thesis unfolding U by simp
qed

lemma cache_put_get:
  assumes "cache_inv c"
  shows "cache_get (cache_put c ino r) =
    (if cache_get c ino = None \<and> cache_full c then cache_get c else (cache_get c)(ino \<mapsto> r))"
  using assms cache_lookup_upd [of "cshards c" ino]
  by (auto simp: cache_inv_def cache_put_def cache_get_def Let_def fun_eq_iff split: option.splits)

lemma cache_del_get:
  assumes "cache_inv c"
  shows "cache_get (cache_del c ino) = (cache_get c)(ino := None)"
  using assms cache_lookup_upd [of "cshards c" ino None]
  by (auto simp: cache_inv_def cache_del_def cache_get_def Let_def fun_eq_iff split: option.splits)

lemma putIfPlacementChanged_alt:
  "putIfPlacementChanged c ino r =
    (case cache_get c ino of
       Some old \<Rightarrow> if TierIdx old = TierIdx r \<and> PinState old = PinState r then c else cache_put c ino r
     | None \<Rightarrow> cache_put c ino r)"
  by (simp add: putIfPlacementChanged_def cache_put_def cache_get_def Let_def split: option.splits)

lemma cache_put_inv: "cache_inv c \<Longrightarrow> cache_inv (cache_put c ino r)"
  using cache_entries_upd [of "cshards c" _ ino "Some r"] cache_shape_upd [of "cshards c" ino "Some r"]
    cache_entries_nonneg [of "cshards c"]
  by (auto simp: cache_inv_def cache_put_def cache_full_def Let_def wrap64_id split: option.splits)

lemma cache_del_inv: "cache_inv c \<Longrightarrow> cache_inv (cache_del c ino)"
  using cache_entries_upd [of "cshards c" _ ino None] cache_shape_upd [of "cshards c" ino None]
    cache_entries_nonneg [of "cshards c"]
  by (auto simp: cache_inv_def cache_del_def Let_def wrap64_id split: option.splits)

lemma putIfPlacementChanged_inv: "cache_inv c \<Longrightarrow> cache_inv (putIfPlacementChanged c ino r)"
  by (simp add: putIfPlacementChanged_alt cache_put_inv split: option.splits)

lemma newInodeCache_inv: "0 < mx \<Longrightarrow> mx < 2 ^ 63 \<Longrightarrow> cache_inv (newInodeCache mx)"
  by (simp add: cache_inv_def newInodeCache_def cache_shape_def shard_ok_def cache_entries_def
      sum_list_replicate)

section \<open>The interface the store relies on\<close>

text \<open>
  What the metadata store needs from its cache: a put either stores the record or, for an inode
  that is not cached, may leave the cache as it is; a put that only changes advisory fields may
  be skipped when the cached record has the same placement; a delete always removes.
\<close>

locale record_cache =
  fixes get :: "'c \<Rightarrow> u64 \<Rightarrow> Record option"
    and put :: "'c \<Rightarrow> u64 \<Rightarrow> Record \<Rightarrow> 'c"
    and put_changed :: "'c \<Rightarrow> u64 \<Rightarrow> Record \<Rightarrow> 'c"
    and del :: "'c \<Rightarrow> u64 \<Rightarrow> 'c"
    and inv :: "'c \<Rightarrow> bool"
  assumes get_put: "inv c \<Longrightarrow> get (put c i r) = (get c)(i \<mapsto> r) \<or>
      (get c i = None \<and> get (put c i r) = get c)"
    and get_put_changed: "inv c \<Longrightarrow> get (put_changed c i r) = get (put c i r) \<or>
      (\<exists>old. get c i = Some old \<and> TierIdx old = TierIdx r \<and> PinState old = PinState r \<and>
         get (put_changed c i r) = get c)"
    and get_del: "inv c \<Longrightarrow> get (del c i) = (get c)(i := None)"
    and inv_put: "inv c \<Longrightarrow> inv (put c i r)"
    and inv_put_changed: "inv c \<Longrightarrow> inv (put_changed c i r)"
    and inv_del: "inv c \<Longrightarrow> inv (del c i)"
begin

lemma get_put_other: "inv c \<Longrightarrow> j \<noteq> i \<Longrightarrow> get (put c i r) j = get c j"
  using get_put [of c i r] by auto

lemma get_put_same: "inv c \<Longrightarrow> get (put c i r) i = Some r' \<Longrightarrow> r' = r"
  using get_put [of c i r] by auto

lemma get_put_cached: "inv c \<Longrightarrow> get c i \<noteq> None \<Longrightarrow> get (put c i r) i = Some r"
  using get_put [of c i r] by auto

lemma get_put_changed_other: "inv c \<Longrightarrow> j \<noteq> i \<Longrightarrow> get (put_changed c i r) j = get c j"
  using get_put_changed [of c i r] get_put_other [of c j i r] by auto

lemma get_put_cases:
  "inv c \<Longrightarrow> get (put c i r) j = Some r' \<Longrightarrow> get c j = Some r' \<and> j \<noteq> i \<or> j = i \<and> r' = r"
  using get_put_other [of c j i r] get_put_same [of c i r r'] by (cases "j = i") simp_all

text \<open>After either put, what is cached for the inode has the placement just written.\<close>

lemma get_put_changed_placement:
  "inv c \<Longrightarrow> get (put_changed c i r) i = Some r' \<Longrightarrow> TierIdx r' = TierIdx r \<and> PinState r' = PinState r"
  using get_put_changed [of c i r] get_put_same [of c i r r'] by auto

lemma get_put_changed_cases:
  assumes "inv c" "get (put_changed c i r) j = Some r'"
  shows "get c j = Some r' \<and> j \<noteq> i \<or>
    j = i \<and> TierIdx r' = TierIdx r \<and> PinState r' = PinState r \<and> (r' = r \<or> get c j = Some r')"
  using assms get_put_changed [of c i r] get_put_cases [of c i r j r'] get_put_changed_other [of c j i r]
  by (cases "j = i") auto

end

interpretation ic: record_cache cache_get cache_put putIfPlacementChanged cache_del cache_inv
proof
  fix c :: inodeCache and i r
  assume inv: "cache_inv c"
  show "cache_get (cache_put c i r) = (cache_get c)(i \<mapsto> r) \<or>
      (cache_get c i = None \<and> cache_get (cache_put c i r) = cache_get c)"
    using cache_put_get [OF inv] by simp
  show "cache_get (putIfPlacementChanged c i r) = cache_get (cache_put c i r) \<or>
      (\<exists>old. cache_get c i = Some old \<and> TierIdx old = TierIdx r \<and> PinState old = PinState r \<and>
         cache_get (putIfPlacementChanged c i r) = cache_get c)"
    by (simp add: putIfPlacementChanged_alt split: option.splits)
qed (simp_all add: cache_del_get cache_put_inv cache_del_inv putIfPlacementChanged_inv)

section \<open>The counter\<close>

lemma cache_step_inv: "cache_inv c \<Longrightarrow> cache_inv (cache_step c a)"
  by (cases a) (simp_all add: ic.inv_put ic.inv_put_changed ic.inv_del)

lemma cache_run_inv: "cache_inv c \<Longrightarrow> cache_inv (foldl cache_step c ops)"
  by (induction ops arbitrary: c) (simp_all add: cache_step_inv)

lemma max_entries_step: "max_entries (cache_step c a) = max_entries c"
  by (cases a) (auto simp: cache_put_def putIfPlacementChanged_def cache_del_def Let_def
      split: option.splits)

lemma max_entries_run: "max_entries (foldl cache_step c ops) = max_entries c"
  by (induction ops arbitrary: c) (simp_all add: max_entries_step)

text \<open>
  C21. After any sequence of puts and deletes on a new cache, the counter is the number of
  inodes that have a cached record, and that number never exceeds the configured maximum.
\<close>

theorem cache_count_exact:
  assumes "0 < mx" "mx < 2 ^ 63" and c_def: "c = foldl cache_step (newInodeCache mx) ops"
  shows "entry_count c = int (card (dom (cache_get c))) \<and> entry_count c \<le> mx"
proof -
  have "cache_inv c"
    unfolding c_def using assms by (intro cache_run_inv newInodeCache_inv)
  moreover have "max_entries c = mx"
    by (simp add: c_def max_entries_run newInodeCache_def)
  moreover have "dom (cache_get c) = {ino. (cshards c ! cache_shardFor ino) ino \<noteq> None}"
    by (auto simp: cache_get_def dom_def)
  ultimately show ?thesis
    using cache_entries_card [of "cshards c"] by (simp add: cache_inv_def)
qed

theorem cache_count_exact_witness:
  "entry_count (foldl cache_step (newInodeCache 1) [CPut 5 sample_record, CPut 6 sample_record]) = 1 \<and>
   int (card (dom (cache_get (foldl cache_step (newInodeCache 1) [CPut 5 sample_record, CPut 6 sample_record])))) = 1"
proof -
  have "entry_count (foldl cache_step (newInodeCache 1) [CPut 5 sample_record, CPut 6 sample_record]) = 1"
    by (simp add: cache_put_def newInodeCache_def cache_shardFor_def cacheShards_def cache_full_def
        wrap64_def Let_def)
  with cache_count_exact [of 1 _ "[CPut 5 sample_record, CPut 6 sample_record]", OF _ _ refl] show ?thesis
    by simp
qed

section \<open>The interleaved cache\<close>

inductive_cases conc_stepE: "conc_step s t"

lemma sum_pcs_update:
  fixes f :: "section_pc \<Rightarrow> int"
  shows "i < length ps \<Longrightarrow> (\<Sum>p\<leftarrow>ps[i := q]. f p) = (\<Sum>p\<leftarrow>ps. f p) - f (ps ! i) + f q"
  by (rule sum_list_update_int)

lemma sum_pcs_bounds: "0 \<le> (\<Sum>p\<leftarrow>ps. pc_ahead p)" "0 \<le> (\<Sum>p\<leftarrow>ps. pc_reserved p)"
proof -
  have "0 \<le> pc_ahead p" "0 \<le> pc_reserved p" for p by (cases p; simp)+
  then show "0 \<le> (\<Sum>p\<leftarrow>ps. pc_ahead p)" "0 \<le> (\<Sum>p\<leftarrow>ps. pc_reserved p)"
    by (auto intro!: sum_list_nonneg)
qed

text \<open>A shard that is not inside a put holds no reservation, so at most the other 63 do.\<close>

lemma reserved_others:
  "i < length ps \<Longrightarrow> pc_reserved (ps ! i) = 0 \<Longrightarrow> (\<Sum>p\<leftarrow>ps. pc_reserved p) \<le> int (length ps) - 1"
proof (induction ps arbitrary: i)
  case Nil
  then show ?case by simp
next
  case (Cons p ps)
  have le1: "pc_reserved q \<le> 1" for q by (cases q) simp_all
  have all: "(\<Sum>p\<leftarrow>qs. pc_reserved p) \<le> int (length qs)" for qs
    by (induction qs) (auto intro: add_mono order_trans [OF add_mono [OF le1]])
  show ?case
  proof (cases i)
    case 0
    then show ?thesis using Cons.prems all [of ps] by simp
  next
    case (Suc j)
    then show ?thesis using Cons le1 [of p] by fastforce
  qed
qed

lemma conc_inv_init:
  assumes "0 < mx"
  shows "conc_inv mx (conc_init mx)"
  using assms
  by (simp add: conc_inv_def conc_init_def newInodeCache_def cache_shape_def shard_ok_def
      cache_entries_def sum_list_replicate cacheShards_def)

lemma pc_fits_shard_upd:
  assumes "length ps = cacheShards" "length ss = cacheShards" "pc_fits i s' p'"
    "\<forall>j < cacheShards. pc_fits j (ss ! j) (ps ! j)"
  shows "\<forall>j < cacheShards. pc_fits j (ss[i := s'] ! j) (ps[i := p'] ! j)"
proof (intro allI impI)
  fix j
  assume "j < cacheShards"
  with assms show "pc_fits j (ss[i := s'] ! j) (ps[i := p'] ! j)"
    by (cases "j = i") simp_all
qed

lemma conc_step_inv:
  assumes "conc_step s t" "conc_inv mx s" "0 < mx" "mx + int cacheShards < 2 ^ 63"
  shows "conc_inv mx t"
proof -
  note inv = assms(2) [unfolded conc_inv_def]
  have shape: "cache_shape (cshards (cache s))" and len: "length (section_pcs s) = cacheShards"
    and slen: "length (cshards (cache s)) = cacheShards"
    and fits: "\<forall>i < cacheShards. pc_fits i (cshards (cache s) ! i) (section_pcs s ! i)"
    using inv by (auto simp: cache_shape_length)
  have cnt0: "0 \<le> entry_count (cache s)"
    using inv cache_entries_nonneg [of "cshards (cache s)"] sum_pcs_bounds [of "section_pcs s"] by linarith
  have cnt1: "entry_count (cache s) < 2 ^ 63 - 1"
    using inv assms(4) sum_pcs_bounds [of "section_pcs s"] by linarith
  from assms(1) show ?thesis
  proof cases
    case (put_update i ino rec)
    have "pc_fits i ((cshards (cache s) ! i)(ino \<mapsto> rec)) Unlocked" by simp
    moreover have "(section_pcs s)[i := Unlocked] = section_pcs s"
      using put_update by (metis list_update_id)
    ultimately have "\<forall>j < cacheShards. pc_fits j
        ((cshards (cache s))[i := (cshards (cache s) ! i)(ino \<mapsto> rec)] ! j) (section_pcs s ! j)"
      using pc_fits_shard_upd [OF len slen _ fits, of i _ Unlocked] by metis
    with put_update inv shape show ?thesis
      using cache_entries_upd [of "cshards (cache s)" i ino "Some rec"] cache_shape_upd [of "cshards (cache s)" ino "Some rec"]
      by (simp add: conc_inv_def)
  next
    case (put_check i ino rec)
    have "(\<Sum>p\<leftarrow>section_pcs s. pc_reserved p) \<le> int cacheShards - 1"
      using reserved_others [of i "section_pcs s"] put_check len by simp
    moreover have "entry_count (cache s) < mx"
      using put_check assms(3) inv by (simp add: cache_full_def)
    moreover have "pc_fits i (cshards (cache s) ! i) (Checked ino rec)" using put_check by simp
    from pc_fits_shard_upd [OF len slen this fits]
    have "\<forall>j < cacheShards. pc_fits j (cshards (cache s) ! j) ((section_pcs s)[i := Checked ino rec] ! j)"
      by simp
    ultimately show ?thesis
      using put_check inv len by (simp add: conc_inv_def sum_pcs_update)
  next
    case (put_count i ino rec)
    then have "pc_fits i (cshards (cache s) ! i) (Counted ino rec)" using fits by force
    from pc_fits_shard_upd [OF len slen this fits]
    have "\<forall>j < cacheShards. pc_fits j (cshards (cache s) ! j) ((section_pcs s)[i := Counted ino rec] ! j)"
      by simp
    with put_count inv len cnt0 cnt1 show ?thesis
      by (simp add: conc_inv_def sum_pcs_update wrap64_id)
  next
    case (put_store i ino rec)
    then have ino: "i = cache_shardFor ino" "(cshards (cache s) ! i) ino = None" using fits by force+
    have "pc_fits i ((cshards (cache s) ! i)(ino \<mapsto> rec)) Unlocked" by simp
    from pc_fits_shard_upd [OF len slen this fits] put_store inv shape len ino show ?thesis
      using cache_entries_upd [of "cshards (cache s)" i ino "Some rec"] cache_shape_upd [of "cshards (cache s)" ino "Some rec"]
      by (simp add: conc_inv_def sum_pcs_update)
  next
    case (del_remove i ino)
    have "pc_fits i ((cshards (cache s) ! i)(ino := None)) Removed" by simp
    from pc_fits_shard_upd [OF len slen this fits] del_remove inv shape len show ?thesis
      using cache_entries_upd [of "cshards (cache s)" i ino None] cache_shape_upd [of "cshards (cache s)" ino None]
      by (simp add: conc_inv_def sum_pcs_update)
  next
    case (del_count i)
    have "pc_fits i (cshards (cache s) ! i) Unlocked" by simp
    from pc_fits_shard_upd [OF len slen this fits]
    have "\<forall>j < cacheShards. pc_fits j (cshards (cache s) ! j) ((section_pcs s)[i := Unlocked] ! j)"
      by simp
    with del_count inv len cnt0 cnt1 show ?thesis
      by (simp add: conc_inv_def sum_pcs_update wrap64_id)
  qed
qed

lemma conc_reachable_inv:
  assumes "conc_reachable mx s" "0 < mx" "mx + int cacheShards < 2 ^ 63"
  shows "conc_inv mx s"
  using assms(1) by induction (use assms conc_inv_init conc_step_inv in blast)+


text \<open>Two puts on different shards that both pass the check before either counts.\<close>

definition overshoot_state :: conc_cache where
  "overshoot_state = \<lparr>cache = (newInodeCache 1)\<lparr>entry_count := 2\<rparr>,
     section_pcs = (replicate cacheShards Unlocked)[0 := Checked 0 sample_record, 1 := Checked 1 sample_record,
       0 := Counted 0 sample_record, 1 := Counted 1 sample_record]\<rparr>"

lemma overshoot_reachable: "conc_reachable 1 overshoot_state"
proof -
  let ?U = "replicate cacheShards Unlocked"
  let ?s = "\<lambda>n ps. \<lparr>cache = (newInodeCache 1)\<lparr>entry_count := n\<rparr>, section_pcs = ps\<rparr>"
  note defs = newInodeCache_def cache_shardFor_def cacheShards_def cache_full_def wrap64_def
  have "conc_reachable 1 (?s 0 ?U)"
    using conc_start [of 1] by (simp add: conc_init_def newInodeCache_def)
  then have "conc_reachable 1 (?s 0 (?U[0 := Checked 0 sample_record]))"
    using put_check [of 0 0 "?s 0 ?U" sample_record] by (auto intro: conc_next simp: defs)
  then have "conc_reachable 1 (?s 0 (?U[0 := Checked 0 sample_record, 1 := Checked 1 sample_record]))"
    using put_check [of 1 1 "?s 0 (?U[0 := Checked 0 sample_record])" sample_record]
    by (auto intro: conc_next simp: defs)
  then have "conc_reachable 1 (?s 1 (?U[0 := Checked 0 sample_record, 1 := Checked 1 sample_record, 0 := Counted 0 sample_record]))"
    using put_count [of 0 "?s 0 (?U[0 := Checked 0 sample_record, 1 := Checked 1 sample_record])" 0 sample_record]
    by (auto intro: conc_next simp: defs)
  then have "conc_reachable 1 (?s 2 (?U[0 := Checked 0 sample_record, 1 := Checked 1 sample_record, 0 := Counted 0 sample_record, 1 := Counted 1 sample_record]))"
    using put_count [of 1 "?s 1 (?U[0 := Checked 0 sample_record, 1 := Checked 1 sample_record, 0 := Counted 0 sample_record])" 1 sample_record]
    by (auto intro: conc_next simp: defs)
  then show ?thesis by (simp add: overshoot_state_def)
qed


end
