(* ===== verification/MetaShard.thy ===== *)
theory MetaShard
  imports MetaRecord GoPath
begin

text \<open>
  One shard of the metadata store, \<^verbatim>\<open>tiering/meta/shard.go\<close>: a bbolt database behind a
  bounded queue and a writer goroutine that commits the queue in batches.

  bbolt is not part of the repository: its operations are the record \<open>bolt\<close>, an argument of
  the model, and what the code relies on is the locale \<open>bolt_db\<close>. A \<^verbatim>\<open>db.Update\<close> is one
  atomic list of puts and deletes on the objects bucket, or an error that leaves the database
  as it was.

  The writer goroutine is \<open>writer_next\<close>, one iteration of its select loop; the boolean is the
  scheduler's choice whether the batch deadline has fired. A goroutine blocked in a channel
  operation is the value \<^const>\<open>None\<close>. Timing, fsync and log output are not modelled.
\<close>

section \<open>bbolt\<close>

datatype bolt_write = BPut bytes bytes | BDelete bytes

record 'db bolt =
  bolt_bucket :: "'db \<Rightarrow> bool"
  bolt_get :: "'db \<Rightarrow> bytes \<Rightarrow> bytes option"
  bolt_update :: "'db \<Rightarrow> bolt_write list \<Rightarrow> 'db option"
  bolt_forEach :: "'db \<Rightarrow> (bytes \<times> bytes) list"

fun apply_write :: "(bytes \<rightharpoonup> bytes) \<Rightarrow> bolt_write \<Rightarrow> (bytes \<rightharpoonup> bytes)" where
  "apply_write m (BPut k v) = m(k \<mapsto> v)"
| "apply_write m (BDelete k) = m(k := None)"

definition apply_writes :: "bolt_write list \<Rightarrow> (bytes \<rightharpoonup> bytes) \<Rightarrow> (bytes \<rightharpoonup> bytes)" where
  "apply_writes ws m = foldl apply_write m ws"

locale bolt_db =
  fixes B :: "'db bolt"
  assumes update_get: "bolt_update B db ws = Some db' \<Longrightarrow> bolt_get B db' = apply_writes ws (bolt_get B db)"
    and update_bucket: "bolt_update B db ws = Some db' \<Longrightarrow> bolt_bucket B db' = bolt_bucket B db"
    and forEach_get: "bolt_bucket B db \<Longrightarrow> map_of (bolt_forEach B db) = bolt_get B db"
    and forEach_sorted: "sorted_wrt (\<lambda>x y. (fst x, fst y) \<in> lexord {(a, b). a < b}) (bolt_forEach B db)"

text \<open>A database whose disk takes every write.\<close>

locale bolt_reliable = bolt_db +
  assumes update_ok: "\<exists>db'. bolt_update B db ws = Some db'"

text \<open>An in-memory database: a list of pairs, newest first, sorted when it is iterated.\<close>

type_synonym mem_db = "(bytes \<times> bytes) list"

fun mem_put :: "bytes \<Rightarrow> bytes \<Rightarrow> mem_db \<Rightarrow> mem_db" where
  "mem_put k v [] = [(k, v)]"
| "mem_put k v ((k', v') # db) =
     (if k = k' then (k, v) # db
      else if (k, k') \<in> lexord {(a, b). a < b} then (k, v) # (k', v') # db
      else (k', v') # mem_put k v db)"

fun mem_write :: "mem_db \<Rightarrow> bolt_write \<Rightarrow> mem_db" where
  "mem_write db (BPut k v) = (k, v) # db"
| "mem_write db (BDelete k) = filter (\<lambda>p. fst p \<noteq> k) db"

definition mem_norm :: "mem_db \<Rightarrow> mem_db" where
  "mem_norm db = foldr (\<lambda>(k, v). mem_put k v) db []"

definition mem_bolt :: "mem_db bolt" where
  "mem_bolt = \<lparr>bolt_bucket = (\<lambda>db. True), bolt_get = map_of,
     bolt_update = (\<lambda>db ws. Some (foldl mem_write db ws)), bolt_forEach = mem_norm\<rparr>"

section \<open>The shard\<close>

definition shardWriteQueueCap :: nat where
  "shardWriteQueueCap = 4096"

definition shardBatchMax :: nat where
  "shardBatchMax = 256"

text \<open>A channel used as a barrier is its identity, a number.\<close>

record pendingWrite =
  pw_key :: bytes
  pw_val :: bytes
  pw_barrier :: "nat option"

text \<open>
  \<open>sh_batch\<close> and \<open>sh_exited\<close> are the writer goroutine's local state, \<open>sh_signalled\<close> the
  barriers it has closed.
\<close>

record 'db shard =
  sh_idx :: nat
  sh_db :: 'db
  sh_queue :: "pendingWrite list"
  sh_closed :: bool
  sh_batch :: "pendingWrite list"
  sh_exited :: bool
  sh_signalled :: "nat list"
  batchesCommitted :: u64
  recordsWritten :: u64
  maxBatchSeen :: u64
  dropsOnEnqueue :: u64
  flushErrors :: u64

text \<open>
  The operating system and bbolt as they answer while a store is opened: the answers per path
  are one snapshot. \<open>os_createBucket\<close> is the transaction that creates the objects bucket.
\<close>

datatype readdir = NotExist | ReadError | Entries "(string \<times> bool) list"

record 'db os_env =
  os_MkdirAll :: "string \<Rightarrow> bool"
  os_ReadDir :: "string \<Rightarrow> readdir"
  os_Stat :: "string \<Rightarrow> bool"
  os_WriteFile :: "string \<Rightarrow> bytes \<Rightarrow> bool"
  os_Getenv :: "string \<Rightarrow> string"
  os_boltOpen :: "string \<Rightarrow> 'db option"
  os_createBucket :: "'db \<Rightarrow> 'db option"

definition ensureDir :: "'db os_env \<Rightarrow> string \<Rightarrow> bool" where
  "ensureDir E path = os_MkdirAll E path"

definition init_shard :: "'db \<Rightarrow> nat \<Rightarrow> 'db shard" where
  "init_shard db i = \<lparr>sh_idx = i, sh_db = db, sh_queue = [], sh_closed = False, sh_batch = [],
     sh_exited = False, sh_signalled = [], batchesCommitted = 0, recordsWritten = 0,
     maxBatchSeen = 0, dropsOnEnqueue = 0, flushErrors = 0\<rparr>"

definition openShard :: "'db os_env \<Rightarrow> string \<Rightarrow> nat \<Rightarrow> 'db shard option" where
  "openShard E dir idx =
     (if \<not> ensureDir E dir then None
      else case os_boltOpen E (path_Join [dir, ''shard.db'']) of
        None \<Rightarrow> None
      | Some db \<Rightarrow> (case os_createBucket E db of None \<Rightarrow> None | Some db' \<Rightarrow> Some (init_shard db' idx)))"

definition enqueue :: "'db shard \<Rightarrow> bytes \<Rightarrow> bytes \<Rightarrow> bool \<times> 'db shard" where
  "enqueue s key val =
     (if sh_closed s then (False, s)
      else if length (sh_queue s) < shardWriteQueueCap
      then (True, s\<lparr>sh_queue := sh_queue s @ [\<lparr>pw_key = key, pw_val = val, pw_barrier = None\<rparr>]\<rparr>)
      else (False, s\<lparr>dropsOnEnqueue := dropsOnEnqueue s + 1\<rparr>))"

datatype shard_error = UpdateFailed | BucketMissing

definition shard_del :: "'db bolt \<Rightarrow> 'db shard \<Rightarrow> bytes \<Rightarrow> shard_error + 'db shard" where
  "shard_del B s key =
     (if \<not> bolt_bucket B (sh_db s) then Inr s
      else case bolt_update B (sh_db s) [BDelete key] of
        None \<Rightarrow> Inl UpdateFailed
      | Some db \<Rightarrow> Inr (s\<lparr>sh_db := db\<rparr>))"

definition putSync :: "'db bolt \<Rightarrow> 'db shard \<Rightarrow> bytes \<Rightarrow> bytes \<Rightarrow> shard_error + 'db shard" where
  "putSync B s key val =
     (if \<not> bolt_bucket B (sh_db s) then Inl BucketMissing
      else case bolt_update B (sh_db s) [BPut key val] of
        None \<Rightarrow> Inl UpdateFailed
      | Some db \<Rightarrow> Inr (s\<lparr>sh_db := db\<rparr>))"

definition shard_get :: "'db bolt \<Rightarrow> 'db shard \<Rightarrow> bytes \<Rightarrow> bytes option" where
  "shard_get B s key = (if \<not> bolt_bucket B (sh_db s) then None else bolt_get B (sh_db s) key)"

text \<open>The inode a stored key stands for, as \<^verbatim>\<open>iterate\<close> assembles it from the key's bytes.\<close>

definition key_inode :: "bytes \<Rightarrow> u64" where
  "key_inode k = push_bit 56 (ucast (k ! 0)) OR push_bit 48 (ucast (k ! 1)) OR
     push_bit 40 (ucast (k ! 2)) OR push_bit 32 (ucast (k ! 3)) OR push_bit 24 (ucast (k ! 4)) OR
     push_bit 16 (ucast (k ! 5)) OR push_bit 8 (ucast (k ! 6)) OR ucast (k ! 7)"

text \<open>The calls \<^verbatim>\<open>iterate\<close> makes: keys of the wrong length are skipped.\<close>

definition iterate :: "'db bolt \<Rightarrow> 'db shard \<Rightarrow> (u64 \<times> bytes) list" where
  "iterate B s =
     (if \<not> bolt_bucket B (sh_db s) then []
      else map (\<lambda>(k, v). (key_inode k, v)) (filter (\<lambda>(k, v). length k = 8) (bolt_forEach B (sh_db s))))"

definition puts_of :: "pendingWrite list \<Rightarrow> bolt_write list" where
  "puts_of ws = map (\<lambda>w. BPut (pw_key w) (pw_val w)) ws"

definition flush :: "'db bolt \<Rightarrow> 'db shard \<Rightarrow> pendingWrite list \<Rightarrow> 'db shard" where
  "flush B s batch =
     (if batch = [] then s
      else if \<not> bolt_bucket B (sh_db s) then s\<lparr>flushErrors := flushErrors s + 1\<rparr>
      else case bolt_update B (sh_db s) (puts_of batch) of
        None \<Rightarrow> s\<lparr>flushErrors := flushErrors s + 1\<rparr>
      | Some db \<Rightarrow> s\<lparr>sh_db := db, batchesCommitted := batchesCommitted s + 1,
          recordsWritten := recordsWritten s + of_nat (length batch),
          maxBatchSeen := (if of_nat (length batch) > maxBatchSeen s
            then of_nat (length batch) else maxBatchSeen s)\<rparr>)"

definition flush_batch :: "'db bolt \<Rightarrow> 'db shard \<Rightarrow> 'db shard" where
  "flush_batch B s = (flush B s (sh_batch s))\<lparr>sh_batch := []\<rparr>"

text \<open>
  One step of \<^verbatim>\<open>writerLoop\<close>. With an empty batch it receives the first item; with a started one
  it flushes when the batch is full or the deadline fires, and otherwise receives into it. A
  barrier flushes the batch before it is signalled; a closed and drained queue ends the loop.
\<close>

definition writer_next :: "'db bolt \<Rightarrow> bool \<Rightarrow> 'db shard \<Rightarrow> 'db shard option" where
  "writer_next B deadline s =
     (if sh_exited s then None
      else if sh_batch s = [] then
        (case sh_queue s of
           [] \<Rightarrow> if sh_closed s then Some (s\<lparr>sh_exited := True\<rparr>) else None
         | w # q \<Rightarrow> (case pw_barrier w of
             Some d \<Rightarrow> Some (s\<lparr>sh_queue := q, sh_signalled := d # sh_signalled s\<rparr>)
           | None \<Rightarrow> Some (s\<lparr>sh_queue := q, sh_batch := [w]\<rparr>)))
      else if shardBatchMax \<le> length (sh_batch s) \<or> deadline then Some (flush_batch B s)
      else (case sh_queue s of
          [] \<Rightarrow> if sh_closed s then Some ((flush_batch B s)\<lparr>sh_exited := True\<rparr>) else None
        | w # q \<Rightarrow> (case pw_barrier w of
            Some d \<Rightarrow> Some ((flush_batch B (s\<lparr>sh_queue := q\<rparr>))\<lparr>sh_signalled := d # sh_signalled s\<rparr>)
          | None \<Rightarrow> Some (s\<lparr>sh_queue := q, sh_batch := sh_batch s @ [w]\<rparr>))))"

definition writer_work :: "'db shard \<Rightarrow> nat" where
  "writer_work s = 4 * length (sh_queue s) + (if sh_batch s = [] then 0 else 2) + (if sh_exited s then 0 else 1)"

lemma flush_simps [simp]:
  "sh_queue (flush B s b) = sh_queue s" "sh_closed (flush B s b) = sh_closed s"
  "sh_batch (flush B s b) = sh_batch s" "sh_exited (flush B s b) = sh_exited s"
  "sh_signalled (flush B s b) = sh_signalled s" "sh_idx (flush B s b) = sh_idx s"
  "dropsOnEnqueue (flush B s b) = dropsOnEnqueue s"
  by (auto simp: flush_def split: option.splits)

lemma writer_next_work: "writer_next B d s = Some t \<Longrightarrow> writer_work t < writer_work s"
  by (auto simp: writer_next_def writer_work_def flush_batch_def split: if_splits list.splits option.splits)

text \<open>
  A blocking channel send: while the queue is full the sender waits and the writer runs.
\<close>

function send_blocking :: "'db bolt \<Rightarrow> 'db shard \<Rightarrow> pendingWrite \<Rightarrow> 'db shard option" where
  "send_blocking B s w =
     (if length (sh_queue s) < shardWriteQueueCap then Some (s\<lparr>sh_queue := sh_queue s @ [w]\<rparr>)
      else case writer_next B False s of None \<Rightarrow> None | Some t \<Rightarrow> send_blocking B t w)"
  by pat_completeness auto
termination
  by (relation "measure (\<lambda>(B, s, w). writer_work s)") (auto simp: writer_next_work)

declare send_blocking.simps [simp del]

definition enqueueBlocking :: "'db bolt \<Rightarrow> 'db shard \<Rightarrow> bytes \<Rightarrow> bytes \<Rightarrow> 'db shard option" where
  "enqueueBlocking B s key val =
     (if sh_closed s then Some s
      else send_blocking B s \<lparr>pw_key = key, pw_val = val, pw_barrier = None\<rparr>)"

text \<open>The receive \<^verbatim>\<open><-done\<close>: the writer runs until the barrier has been closed.\<close>

function await_barrier :: "'db bolt \<Rightarrow> 'db shard \<Rightarrow> nat \<Rightarrow> 'db shard option" where
  "await_barrier B s d =
     (if d \<in> set (sh_signalled s) then Some s
      else case writer_next B False s of None \<Rightarrow> None | Some t \<Rightarrow> await_barrier B t d)"
  by pat_completeness auto
termination
  by (relation "measure (\<lambda>(B, s, d). writer_work s)") (auto simp: writer_next_work)

declare await_barrier.simps [simp del]

definition barrier_ids :: "'db shard \<Rightarrow> nat list" where
  "barrier_ids s = sh_signalled s @ List.map_filter pw_barrier (sh_queue s)"

definition fresh_barrier :: "'db shard \<Rightarrow> nat" where
  "fresh_barrier s = Suc (foldl max 0 (barrier_ids s))"

definition drainQueue :: "'db bolt \<Rightarrow> 'db shard \<Rightarrow> 'db shard option" where
  "drainQueue B s =
     (if sh_closed s then Some s
      else let d = fresh_barrier s in
        case send_blocking B s \<lparr>pw_key = [], pw_val = [], pw_barrier = Some d\<rparr> of
          None \<Rightarrow> None
        | Some t \<Rightarrow> await_barrier B t d)"

text \<open>\<^verbatim>\<open>Close\<close>: no more sends are accepted, and the writer runs until it has drained and exited.\<close>

function run_to_exit :: "'db bolt \<Rightarrow> 'db shard \<Rightarrow> 'db shard" where
  "run_to_exit B s = (case writer_next B False s of None \<Rightarrow> s | Some t \<Rightarrow> run_to_exit B t)"
  by pat_completeness auto
termination
  by (relation "measure (\<lambda>(B, s). writer_work s)") (auto simp: writer_next_work)

declare run_to_exit.simps [simp del]

definition shard_Close :: "'db bolt \<Rightarrow> 'db shard \<Rightarrow> 'db shard" where
  "shard_Close B s = run_to_exit B (s\<lparr>sh_closed := True\<rparr>)"

subsection \<open>What a shard holds\<close>

definition writes_of :: "pendingWrite list \<Rightarrow> bolt_write list" where
  "writes_of ws = puts_of (filter (\<lambda>w. pw_barrier w = None) ws)"

text \<open>The contents the database will have once everything pending is committed.\<close>

definition view :: "'db bolt \<Rightarrow> 'db shard \<Rightarrow> (bytes \<rightharpoonup> bytes)" where
  "view B s = apply_writes (writes_of (sh_batch s @ sh_queue s)) (bolt_get B (sh_db s))"

text \<open>The keys with a write that is not committed yet.\<close>

definition pending_keys :: "'db shard \<Rightarrow> bytes set" where
  "pending_keys s = {pw_key w |w. w \<in> set (sh_batch s @ sh_queue s) \<and> pw_barrier w = None}"

definition shard_inv :: "'db bolt \<Rightarrow> 'db shard \<Rightarrow> bool" where
  "shard_inv B s \<longleftrightarrow> bolt_bucket B (sh_db s) \<and> length (sh_queue s) \<le> shardWriteQueueCap \<and>
     length (sh_batch s) \<le> shardBatchMax \<and> (\<forall>w \<in> set (sh_batch s). pw_barrier w = None) \<and>
     unat (maxBatchSeen s) \<le> shardBatchMax \<and>
     (sh_exited s \<longrightarrow> sh_closed s \<and> sh_queue s = [] \<and> sh_batch s = [])"

text \<open>The writes ahead of a barrier, and the contents when they have been committed.\<close>

definition ahead_of :: "nat \<Rightarrow> 'db shard \<Rightarrow> pendingWrite list" where
  "ahead_of d s = sh_batch s @ takeWhile (\<lambda>w. pw_barrier w \<noteq> Some d) (sh_queue s)"

definition barrier_view :: "'db bolt \<Rightarrow> nat \<Rightarrow> 'db shard \<Rightarrow> (bytes \<rightharpoonup> bytes)" where
  "barrier_view B d s = apply_writes (writes_of (ahead_of d s)) (bolt_get B (sh_db s))"

definition barrier_pending :: "nat \<Rightarrow> 'db shard \<Rightarrow> bool" where
  "barrier_pending d s \<longleftrightarrow> (\<exists>w \<in> set (sh_queue s). pw_barrier w = Some d)"

text \<open>What goroutines can do to a shard while another waits on a barrier.\<close>

datatype shard_event = SEnqueue bytes bytes | SBarrier nat | SWriter bool

fun shard_step :: "'db bolt \<Rightarrow> 'db shard \<Rightarrow> shard_event \<Rightarrow> 'db shard" where
  "shard_step B s (SEnqueue k v) = snd (enqueue s k v)"
| "shard_step B s (SBarrier d) =
     (if sh_closed s \<or> shardWriteQueueCap \<le> length (sh_queue s) then s
      else s\<lparr>sh_queue := sh_queue s @ [\<lparr>pw_key = [], pw_val = [], pw_barrier = Some d\<rparr>]\<rparr>)"
| "shard_step B s (SWriter e) = (case writer_next B e s of None \<Rightarrow> s | Some t \<Rightarrow> t)"

section \<open>Pending writes\<close>

lemma apply_writes_Nil [simp]: "apply_writes [] m = m"
  by (simp add: apply_writes_def)

lemma apply_writes_Cons [simp]: "apply_writes (w # ws) m = apply_writes ws (apply_write m w)"
  by (simp add: apply_writes_def)

lemma apply_writes_append: "apply_writes (a @ b) m = apply_writes b (apply_writes a m)"
  by (simp add: apply_writes_def)

lemma puts_of_Nil [simp]: "puts_of [] = []"
  by (simp add: puts_of_def)

lemma writes_of_Nil [simp]: "writes_of [] = []"
  by (simp add: writes_of_def puts_of_def)

lemma writes_of_append: "writes_of (a @ b) = writes_of a @ writes_of b"
  by (simp add: writes_of_def puts_of_def)

lemma writes_of_Cons:
  "writes_of (w # ws) = (if pw_barrier w = None then BPut (pw_key w) (pw_val w) # writes_of ws else writes_of ws)"
  by (simp add: writes_of_def puts_of_def)

lemma writes_of_batch: "\<forall>w \<in> set b. pw_barrier w = None \<Longrightarrow> writes_of b = puts_of b"
  by (simp add: writes_of_def filter_True)

lemma apply_writes_frame:
  "k \<notin> {pw_key w |w. w \<in> set ws \<and> pw_barrier w = None} \<Longrightarrow>
     apply_writes (writes_of ws) (m(k := v)) = (apply_writes (writes_of ws) m)(k := v)"
proof (induction ws arbitrary: m)
  case (Cons w ws)
  then have "k \<notin> {pw_key w |w. w \<in> set ws \<and> pw_barrier w = None}" "pw_barrier w = None \<Longrightarrow> pw_key w \<noteq> k" by auto
  note ih = Cons.IH [OF this(1)] and ne = this(2)
  show ?case
  proof (cases "pw_barrier w = None")
    case True
    then have "(m(k := v))(pw_key w \<mapsto> pw_val w) = (m(pw_key w \<mapsto> pw_val w))(k := v)"
      using ne by (simp add: fun_upd_twist)
    with True show ?thesis using ih [of "m(pw_key w \<mapsto> pw_val w)"] by (simp only: writes_of_Cons apply_writes_Cons apply_write.simps if_True simp_thms)
  next
    case False
    then show ?thesis using ih [of m] by (simp only: writes_of_Cons if_False simp_thms)
  qed
qed simp

lemma apply_writes_other:
  "k \<notin> {pw_key w |w. w \<in> set ws \<and> pw_barrier w = None} \<Longrightarrow> apply_writes (writes_of ws) m k = m k"
  using fun_cong [OF apply_writes_frame [of k ws m "m k"], of k] by simp

lemma view_unpending: "k \<notin> pending_keys s \<Longrightarrow> view B s k = bolt_get B (sh_db s) k"
  unfolding view_def pending_keys_def by (rule apply_writes_other)

lemma view_frame:
  "sh_queue t = sh_queue s \<Longrightarrow> sh_batch t = sh_batch s \<Longrightarrow> k \<notin> pending_keys s \<Longrightarrow>
     bolt_get B (sh_db t) = (bolt_get B (sh_db s))(k := v) \<Longrightarrow> view B t = (view B s)(k := v)"
  unfolding view_def pending_keys_def by (simp add: apply_writes_frame)

lemma pending_keys_next: "writer_next B d s = Some t \<Longrightarrow> pending_keys t \<subseteq> pending_keys s"
  by (auto simp: writer_next_def pending_keys_def flush_batch_def split: if_splits list.splits option.splits)

lemmas view_simps = view_def writes_of_append writes_of_Cons apply_writes_append

context bolt_reliable
begin

lemma flush_db:
  assumes "bolt_bucket B (sh_db s)"
  shows "bolt_get B (sh_db (flush B s b)) = apply_writes (puts_of b) (bolt_get B (sh_db s))"
    and "bolt_bucket B (sh_db (flush B s b))"
proof -
  obtain db where db: "bolt_update B (sh_db s) (puts_of b) = Some db"
    using update_ok by blast
  show "bolt_get B (sh_db (flush B s b)) = apply_writes (puts_of b) (bolt_get B (sh_db s))"
    using assms update_get [OF db] by (auto simp: flush_def db)
  show "bolt_bucket B (sh_db (flush B s b))"
    using assms update_bucket [OF db] by (auto simp: flush_def db)
qed

lemma flush_batch_db:
  assumes "shard_inv B s"
  shows "bolt_get B (sh_db (flush_batch B s)) = apply_writes (writes_of (sh_batch s)) (bolt_get B (sh_db s))"
  using assms flush_db [of s "sh_batch s"]
  by (simp add: flush_batch_def shard_inv_def writes_of_batch)

end

lemma maxBatch_flush:
  assumes "unat (maxBatchSeen s) \<le> shardBatchMax" "length b \<le> shardBatchMax"
  shows "unat (maxBatchSeen (flush B s b)) \<le> shardBatchMax"
proof -
  have "unat (of_nat (length b) :: u64) = length b"
    using assms(2) by (simp add: shardBatchMax_def unat_of_nat)
  with assms show ?thesis by (auto simp: flush_def split: option.splits)
qed

lemma flush_batch_simps [simp]:
  "sh_queue (flush_batch B s) = sh_queue s" "sh_closed (flush_batch B s) = sh_closed s"
  "sh_batch (flush_batch B s) = []" "sh_exited (flush_batch B s) = sh_exited s"
  "sh_signalled (flush_batch B s) = sh_signalled s"
  by (simp_all add: flush_batch_def)

context bolt_db
begin

lemma flush_bucket: "bolt_bucket B (sh_db s) \<Longrightarrow> bolt_bucket B (sh_db (flush B s b))"
  by (auto simp: flush_def update_bucket split: option.splits)

text \<open>Every writer step keeps the bounds of the shard, whether its commits succeed or not.\<close>

lemma writer_next_inv:
  assumes "writer_next B e s = Some t" "shard_inv B s"
  shows "shard_inv B t"
proof -
  have fb: "shard_inv B (flush_batch B s')" if "shard_inv B s'" for s'
    using that maxBatch_flush [of s' "sh_batch s'" B] flush_bucket [of s' "sh_batch s'"]
    by (auto simp: shard_inv_def flush_batch_def)
  have q: "shard_inv B (s'\<lparr>sh_queue := q\<rparr>)" if "shard_inv B s'" "sh_queue s' = w # q" for s' w q
    using that by (auto simp: shard_inv_def)
  show ?thesis
    using assms fb [of s] fb [of "s\<lparr>sh_queue := tl (sh_queue s)\<rparr>"] q [of s]
    by (auto simp: writer_next_def shard_inv_def shardBatchMax_def split: if_splits list.splits option.splits)
qed

lemma shard_step_inv: "shard_inv B s \<Longrightarrow> shard_inv B (shard_step B s ev)"
proof (cases ev)
  case (SWriter e)
  assume "shard_inv B s"
  with SWriter show ?thesis by (auto simp: writer_next_inv split: option.splits)
qed (auto simp: enqueue_def shard_inv_def)

lemma shard_run_inv: "shard_inv B s \<Longrightarrow> shard_inv B (foldl (shard_step B) s evs)"
  by (induction evs arbitrary: s) (simp_all add: shard_step_inv)

end

lemma init_shard_inv: "bolt_bucket B db \<Longrightarrow> shard_inv B (init_shard db i)"
  by (simp add: shard_inv_def init_shard_def)

lemma map_filter_barriers:
  "set (List.map_filter pw_barrier ws) = {d. \<exists>w \<in> set ws. pw_barrier w = Some d}"
  by (force simp: List.map_filter_def)

lemma foldl_max_ge: "(x :: nat) \<in> insert a (set xs) \<Longrightarrow> x \<le> foldl max a xs"
proof (induction xs arbitrary: a x)
  case (Cons y ys)
  have "max a y \<le> foldl max (max a y) ys" by (rule Cons.IH) simp
  with Cons show ?case by fastforce
qed simp

lemma fresh_barrier_new: "fresh_barrier s \<notin> set (barrier_ids s)"
  using foldl_max_ge [of _ 0 "barrier_ids s"] by (fastforce simp: fresh_barrier_def)

section \<open>The writer commits what was queued, in order\<close>

context bolt_reliable
begin

lemma writer_next_view:
  assumes "writer_next B e s = Some t" "shard_inv B s"
  shows "view B t = view B s"
proof -
  have fb: "bolt_get B (sh_db (flush_batch B s')) = apply_writes (writes_of (sh_batch s)) (bolt_get B (sh_db s))"
    if "sh_batch s' = sh_batch s" "sh_db s' = sh_db s" for s'
    using that assms(2) flush_db [of s' "sh_batch s'"]
    by (simp add: flush_batch_def shard_inv_def writes_of_batch)
  show ?thesis
    using assms(1)
    by (auto simp: writer_next_def view_simps fb split: if_splits list.splits option.splits)
qed

text \<open>
  A step of any goroutine either leaves the barrier pending with the same writes ahead of it, or
  is the writer's step that signals it, and then exactly those writes have been committed.
\<close>

lemma barrier_step:
  assumes inv: "shard_inv B s" and pend: "barrier_pending d s" and fresh: "d \<notin> set (sh_signalled s)"
    and other: "ev \<noteq> SBarrier d"
  shows "barrier_pending d (shard_step B s ev) \<and> d \<notin> set (sh_signalled (shard_step B s ev)) \<and>
      barrier_view B d (shard_step B s ev) = barrier_view B d s
    \<or> d \<in> set (sh_signalled (shard_step B s ev)) \<and>
      bolt_get B (sh_db (shard_step B s ev)) = barrier_view B d s"
proof (cases ev)
  case (SWriter e)
  have fb: "bolt_get B (sh_db (flush_batch B s')) = apply_writes (writes_of (sh_batch s)) (bolt_get B (sh_db s))"
    if "sh_batch s' = sh_batch s" "sh_db s' = sh_db s" for s'
    using that inv flush_db [of s' "sh_batch s'"]
    by (simp add: flush_batch_def shard_inv_def writes_of_batch)
  from pend obtain w q where q: "sh_queue s = w # q" by (cases "sh_queue s") (auto simp: barrier_pending_def)
  from inv q have "\<not> sh_exited s" by (auto simp: shard_inv_def)
  with SWriter pend fresh q fb show ?thesis
    by (cases "pw_barrier w")
      (auto simp: writer_next_def barrier_pending_def barrier_view_def ahead_of_def writes_of_append
        writes_of_Cons apply_writes_append)
next
  case (SEnqueue k v)
  with pend fresh show ?thesis
    by (auto simp: enqueue_def barrier_pending_def barrier_view_def ahead_of_def)
next
  case (SBarrier d')
  with pend fresh other show ?thesis
    by (auto simp: barrier_pending_def barrier_view_def ahead_of_def)
qed

lemma barrier_run:
  assumes "shard_inv B s" "barrier_pending d s" "d \<notin> set (sh_signalled s)" "SBarrier d \<notin> set evs"
    "d \<notin> set (sh_signalled (foldl (shard_step B) s evs))"
  shows "barrier_pending d (foldl (shard_step B) s evs) \<and>
    barrier_view B d (foldl (shard_step B) s evs) = barrier_view B d s"
  using assms
proof (induction evs arbitrary: s)
  case Nil
  then show ?case by simp
next
  case (Cons ev evs)
  have mono: "set (sh_signalled s') \<subseteq> set (sh_signalled (foldl (shard_step B) s' es))" for s' es
  proof (induction es arbitrary: s')
    case (Cons e es)
    have "set (sh_signalled s') \<subseteq> set (sh_signalled (shard_step B s' e))"
      by (cases e) (auto simp: enqueue_def writer_next_def split: option.splits list.splits)
    with Cons show ?case by (metis foldl_Cons order_trans)
  qed simp
  have "d \<notin> set (sh_signalled (shard_step B s ev))"
    using Cons.prems(5) mono by fastforce
  with barrier_step [of s d ev] Cons.prems
  have "barrier_pending d (shard_step B s ev)" "barrier_view B d (shard_step B s ev) = barrier_view B d s"
    "d \<notin> set (sh_signalled (shard_step B s ev))" by auto
  with Cons.IH [of "shard_step B s ev"] Cons.prems shard_step_inv [of s ev] show ?case by simp
qed

text \<open>A pending barrier keeps the writer running, so it is signalled.\<close>

lemma writer_not_stuck:
  assumes "shard_inv B s" "sh_queue s \<noteq> []"
  shows "\<exists>t. writer_next B e s = Some t"
proof -
  from assms obtain w q where "sh_queue s = w # q" by (cases "sh_queue s") auto
  moreover have "\<not> sh_exited s" using assms by (auto simp: shard_inv_def)
  ultimately show ?thesis
    by (cases "pw_barrier w") (auto simp: writer_next_def)
qed

lemma send_blocking_ok:
  assumes "shard_inv B s"
  shows "\<exists>t. send_blocking B s w = Some (t\<lparr>sh_queue := sh_queue t @ [w]\<rparr>) \<and> shard_inv B t \<and>
     view B t = view B s \<and> length (sh_queue t) < shardWriteQueueCap \<and>
     sh_closed t = sh_closed s \<and> (sh_exited t \<longrightarrow> sh_exited s) \<and>
     set (barrier_ids t) = set (barrier_ids s) \<and> pending_keys t \<subseteq> pending_keys s"
  using assms
proof (induction "writer_work s" arbitrary: s rule: less_induct)
  case less
  show ?case
  proof (cases "length (sh_queue s) < shardWriteQueueCap")
    case True
    with less.prems show ?thesis by (auto simp: send_blocking.simps [of B s])
  next
    case False
    then have "sh_queue s \<noteq> []" by (auto simp: shardWriteQueueCap_def)
    with less.prems obtain t where t: "writer_next B False s = Some t" using writer_not_stuck by blast
    have same: "sh_closed t = sh_closed s" "sh_exited t \<longrightarrow> sh_exited s"
      "set (barrier_ids t) = set (barrier_ids s)"
      using t \<open>sh_queue s \<noteq> []\<close>
      by (auto simp: writer_next_def barrier_ids_def map_filter_simps split: if_splits list.splits option.splits)
    have *: "send_blocking B s w = send_blocking B t w"
      using False t by (simp add: send_blocking.simps [of B s])
    show ?thesis
      using less.hyps [OF writer_next_work [OF t] writer_next_inv [OF t less.prems]]
        same writer_next_view [OF t less.prems] pending_keys_next [OF t]
      unfolding * by (metis subset_trans)
  qed
qed

lemma await_barrier_ok:
  assumes "shard_inv B s" "sh_queue s = q @ [w]" "pw_barrier w = Some d"
    "\<forall>w' \<in> set q. pw_barrier w' \<noteq> Some d" "d \<notin> set (sh_signalled s)"
  shows "\<exists>t. await_barrier B s d = Some t \<and> shard_inv B t \<and> sh_queue t = [] \<and> sh_batch t = [] \<and>
    bolt_get B (sh_db t) = view B s \<and> sh_closed t = sh_closed s"
  using assms
proof (induction "writer_work s" arbitrary: s q rule: less_induct)
  case less
  from less.prems(2) have "sh_queue s \<noteq> []" by simp
  with less.prems(1) obtain t where t: "writer_next B False s = Some t" using writer_not_stuck by blast
  have await: "await_barrier B s d = await_barrier B t d"
    using less.prems(5) t by (simp add: await_barrier.simps [of B s])
  have inv: "shard_inv B t" and view: "view B t = view B s"
    using writer_next_inv [OF t less.prems(1)] writer_next_view [OF t less.prems(1)] by simp_all
  show ?case
  proof (cases "d \<in> set (sh_signalled t)")
    case True
    then have "sh_queue t = []" "sh_batch t = []" "sh_closed t = sh_closed s"
      using t less.prems
      by (cases q; auto simp: writer_next_def split: if_splits option.splits)+
    with True inv view await show ?thesis
      by (simp add: await_barrier.simps [of B t] view_def)
  next
    case False
    then obtain q' where "sh_queue t = q' @ [w]" "\<forall>w' \<in> set q'. pw_barrier w' \<noteq> Some d" "sh_closed t = sh_closed s"
      using t less.prems
      by (cases q; auto simp: writer_next_def split: if_splits option.splits)
    then show ?thesis
      using less.hyps [OF writer_next_work [OF t] inv _ less.prems(3) _ False] await view by simp
  qed
qed

lemma drainQueue_ok:
  assumes "shard_inv B s" "\<not> sh_closed s"
  shows "\<exists>t. drainQueue B s = Some t \<and> shard_inv B t \<and> sh_queue t = [] \<and> sh_batch t = [] \<and>
    bolt_get B (sh_db t) = view B s \<and> \<not> sh_closed t"
proof -
  let ?d = "fresh_barrier s" and ?w = "\<lparr>pw_key = [], pw_val = [], pw_barrier = Some (fresh_barrier s)\<rparr>"
  obtain t where t: "send_blocking B s ?w = Some (t\<lparr>sh_queue := sh_queue t @ [?w]\<rparr>)" "shard_inv B t"
    "view B t = view B s" "length (sh_queue t) < shardWriteQueueCap" "sh_closed t = sh_closed s"
    "sh_exited t \<longrightarrow> sh_exited s" "set (barrier_ids t) = set (barrier_ids s)"
    using send_blocking_ok [OF assms(1), of ?w] by blast
  have fresh: "?d \<notin> set (barrier_ids t)"
    using fresh_barrier_new [of s] t(7) by simp
  let ?u = "t\<lparr>sh_queue := sh_queue t @ [?w]\<rparr>"
  have "shard_inv B ?u" using t assms by (auto simp: shard_inv_def)
  moreover have "\<forall>w' \<in> set (sh_queue t). pw_barrier w' \<noteq> Some ?d" "?d \<notin> set (sh_signalled ?u)"
    using fresh by (auto simp: barrier_ids_def map_filter_barriers)
  moreover have "view B ?u = view B s"
    using t(3) by (simp add: view_simps)
  ultimately show ?thesis
    using await_barrier_ok [of ?u "sh_queue t" ?w ?d] assms t by (simp add: drainQueue_def Let_def)
qed

lemma run_to_exit_ok:
  assumes "shard_inv B s" "sh_closed s"
  shows "sh_exited (run_to_exit B s) \<and> sh_queue (run_to_exit B s) = [] \<and> sh_batch (run_to_exit B s) = [] \<and>
    bolt_get B (sh_db (run_to_exit B s)) = view B s"
  using assms
proof (induction "writer_work s" arbitrary: s rule: less_induct)
  case less
  show ?case
  proof (cases "writer_next B False s")
    case None
    with less.prems have "sh_exited s" "sh_queue s = []" "sh_batch s = []"
      by (auto simp: writer_next_def shard_inv_def split: if_splits list.splits option.splits)
    with None show ?thesis by (simp add: run_to_exit.simps [of B s] view_def)
  next
    case (Some t)
    have "sh_closed t" using Some less.prems(2)
      by (auto simp: writer_next_def split: if_splits list.splits option.splits)
    with Some less.prems less.hyps [OF writer_next_work [OF Some] writer_next_inv [OF Some less.prems(1)]]
    show ?thesis by (simp add: run_to_exit.simps [of B s] writer_next_view)
  qed
qed

end

section \<open>An in-memory database is a reliable bbolt\<close>

lemma lexord_bytes_trans: "trans (lexord {(a :: 8 word, b). a < b})"
  by (intro lexord_transI) (auto simp: trans_def)

lemma lexord_bytes_total: "k \<noteq> k' \<Longrightarrow> (k, k') \<notin> lexord {(a :: 8 word, b). a < b} \<Longrightarrow> (k', k) \<in> lexord {(a, b). a < b}"
  using lexord_linear [of "{(a :: 8 word, b). a < b}" k k'] by (auto simp: linorder_less_linear)

lemma lexord_bytes_irrefl [simp]: "(k, k) \<notin> lexord {(a :: 8 word, b). a < b}"
  by (rule lexord_irreflexive) simp

abbreviation key_sorted :: "mem_db \<Rightarrow> bool" where
  "key_sorted \<equiv> sorted_wrt (\<lambda>x y. (fst x, fst y) \<in> lexord {(a, b). a < b})"

lemma mem_put_keys: "fst ` set (mem_put k v db) = insert k (fst ` set db)"
  by (induction k v db rule: mem_put.induct) auto

lemma mem_put_sorted: "key_sorted db \<Longrightarrow> key_sorted (mem_put k v db)"
proof (induction k v db rule: mem_put.induct)
  case (2 k v k' v' db)
  have above: "(k', fst x) \<in> lexord {(a, b). a < b}" if "x \<in> set (mem_put k v db)" "(k', k) \<in> lexord {(a, b). a < b}" for x
    using that 2(2) mem_put_keys [of k v db] by (metis (no_types, lifting) fst_conv image_iff insertE imageI sorted_wrt.simps(2))
  show ?case
    using 2 lexord_bytes_total [of k k'] above transD [OF lexord_bytes_trans, of k k'] by auto
qed simp

lemma mem_put_lookup: "key_sorted db \<Longrightarrow> map_of (mem_put k v db) = (map_of db)(k \<mapsto> v)"
proof (induction k v db rule: mem_put.induct)
  case (2 k v k' v' db)
  then show ?case by (auto simp: fun_eq_iff)
qed simp

lemma mem_norm_sorted: "key_sorted (mem_norm db)"
  by (induction db) (auto simp: mem_norm_def mem_put_sorted)

lemma mem_norm_lookup: "map_of (mem_norm db) = map_of db"
proof (induction db)
  case (Cons p db)
  then show ?case
    using mem_put_lookup [of "mem_norm db" "fst p" "snd p"] mem_norm_sorted [of db]
    by (cases p) (simp add: mem_norm_def)
qed (simp add: mem_norm_def)

lemma mem_write_lookup: "map_of (mem_write db w) = apply_write (map_of db) w"
proof (cases w)
  case (BDelete k)
  have "map_of (filter (\<lambda>p. fst p \<noteq> k) db) = (map_of db)(k := None)"
    by (induction db) (auto simp: fun_eq_iff)
  with BDelete show ?thesis by simp
qed simp

lemma mem_writes_lookup: "map_of (foldl mem_write db ws) = apply_writes ws (map_of db)"
  by (induction ws arbitrary: db) (simp_all add: mem_write_lookup)

interpretation mem: bolt_reliable mem_bolt
  by unfold_locales
    (auto simp: mem_bolt_def mem_writes_lookup mem_norm_lookup mem_norm_sorted)

section \<open>Properties of the shard\<close>







text \<open>
  C24. Bounds: in every run the queue holds at most 4096 writes, a batch at most 256, no batch the
  statistics report is larger, and a queue that is full refuses a non-blocking write and counts it.
\<close>

theorem shard_bounds:
  assumes "bolt_db B" "bolt_bucket B db"
    and "s = foldl (shard_step B) (init_shard db i) evs"
  shows "length (sh_queue s) \<le> 4096 \<and> length (sh_batch s) \<le> 256 \<and> unat (maxBatchSeen s) \<le> 256 \<and>
    (\<not> sh_closed s \<and> length (sh_queue s) = 4096 \<longrightarrow>
       fst (enqueue s k v) = False \<and> dropsOnEnqueue (snd (enqueue s k v)) = dropsOnEnqueue s + 1)"
proof -
  have "shard_inv B s"
    using bolt_db.shard_run_inv [OF assms(1) init_shard_inv [OF assms(2)]] assms(3) by simp
  then show ?thesis
    by (auto simp: shard_inv_def shardWriteQueueCap_def shardBatchMax_def enqueue_def)
qed

theorem shard_bounds_witness:
  "length (sh_queue (foldl (shard_step mem_bolt) (init_shard [] 0) [SEnqueue [1] [2], SWriter True])) \<le> 4096"
  using shard_bounds [OF mem.bolt_db_axioms, of "[]" _ 0 "[SEnqueue [1] [2], SWriter True]", OF _ refl]
  by (simp add: mem_bolt_def)

end
