(* ===== verification/MetaStore.thy ===== *)
theory MetaStore
  imports MetaCache MetaShard
begin

text \<open>
  The per-pool metadata store of \<^verbatim>\<open>tiering/meta/store.go\<close>: one tier store per rank, each
  sharded by the xxhash of the inode, with the inode cache in front of all of them.

  Tier stores are heap objects shared between the list \<^verbatim>\<open>tiers\<close> and the map \<^verbatim>\<open>rankStores\<close>:
  \<open>stores\<close> is that heap, and both refer to it by index. xxhash is a parameter \<open>h\<close>, bbolt the
  parameter \<open>B\<close> of \<^verbatim>\<open>MetaShard\<close>. An operation that can block on a channel returns an option;
  an operation that can fail returns its error beside the new state, since the cache may have
  changed before the error.
\<close>

section \<open>Definitions\<close>

record TierBacking =
  Rank :: int
  Name :: string
  BackingMount :: string

record 'db tierStore =
  ts_rank :: int
  ts_name :: string
  ts_backingMount :: string
  ts_root :: string
  ts_shards :: "'db shard list"

record 'db PoolMetaStore =
  stores :: "'db tierStore list"
  tiers :: "nat list"
  rankStores :: "int \<rightharpoonup> nat"
  pool_cache :: inodeCache

text \<open>\<^verbatim>\<open>shardFor\<close>: the hash of the big-endian inode picks the shard.\<close>

definition tier_shardFor :: "(bytes \<Rightarrow> u64) \<Rightarrow> 'db tierStore \<Rightarrow> u64 \<Rightarrow> nat" where
  "tier_shardFor h t inode = unat (h (be_put 8 inode)) mod length (ts_shards t)"

definition tierByRank :: "'db PoolMetaStore \<Rightarrow> int \<Rightarrow> nat option" where
  "tierByRank p rank = rankStores p rank"

text \<open>Reading and replacing the shard of an inode in a tier store of the heap.\<close>

definition the_shard :: "(bytes \<Rightarrow> u64) \<Rightarrow> 'db PoolMetaStore \<Rightarrow> nat \<Rightarrow> u64 \<Rightarrow> 'db shard" where
  "the_shard h p ti inode = ts_shards (stores p ! ti) ! tier_shardFor h (stores p ! ti) inode"

definition set_shard :: "(bytes \<Rightarrow> u64) \<Rightarrow> 'db PoolMetaStore \<Rightarrow> nat \<Rightarrow> u64 \<Rightarrow> 'db shard \<Rightarrow> 'db PoolMetaStore" where
  "set_shard h p ti inode s =
     p\<lparr>stores := (stores p)[ti := (stores p ! ti)\<lparr>ts_shards :=
        (ts_shards (stores p ! ti))[tier_shardFor h (stores p ! ti) inode := s]\<rparr>]\<rparr>"

definition Put :: "(bytes \<Rightarrow> u64) \<Rightarrow> 'db PoolMetaStore \<Rightarrow> u64 \<Rightarrow> int \<Rightarrow> Record \<Rightarrow> bool \<times> 'db PoolMetaStore" where
  "Put h p inode tierRank rec =
     (case tierByRank p tierRank of
        None \<Rightarrow> (False, p)
      | Some t \<Rightarrow>
          (case enqueue (the_shard h p t inode) (InodeKey inode) (Encode rec) of
             (ok, s) \<Rightarrow> (ok, (set_shard h p t inode s)\<lparr>pool_cache := putIfPlacementChanged (pool_cache p) inode rec\<rparr>)))"

definition PutBlocking :: "'db bolt \<Rightarrow> (bytes \<Rightarrow> u64) \<Rightarrow> 'db PoolMetaStore \<Rightarrow> u64 \<Rightarrow> int \<Rightarrow> Record \<Rightarrow>
    'db PoolMetaStore option" where
  "PutBlocking B h p inode tierRank rec =
     (case tierByRank p tierRank of
        None \<Rightarrow> Some p
      | Some t \<Rightarrow>
          (case enqueueBlocking B (the_shard h p t inode) (InodeKey inode) (Encode rec) of
             None \<Rightarrow> None
           | Some s \<Rightarrow> Some ((set_shard h p t inode s)\<lparr>pool_cache := cache_put (pool_cache p) inode rec\<rparr>)))"

definition Delete :: "'db bolt \<Rightarrow> (bytes \<Rightarrow> u64) \<Rightarrow> 'db PoolMetaStore \<Rightarrow> u64 \<Rightarrow> int \<Rightarrow>
    shard_error option \<times> 'db PoolMetaStore" where
  "Delete B h p inode tierRank =
     (case tierByRank p tierRank of
        None \<Rightarrow> (None, p)
      | Some t \<Rightarrow>
          let p1 = p\<lparr>pool_cache := cache_del (pool_cache p) inode\<rparr> in
          (case shard_del B (the_shard h p1 t inode) (InodeKey inode) of
             Inl e \<Rightarrow> (Some e, p1)
           | Inr s \<Rightarrow> (None, set_shard h p1 t inode s)))"

datatype get_result = Found Record | Absent | BadRecord record_error

definition Get :: "'db bolt \<Rightarrow> (bytes \<Rightarrow> u64) \<Rightarrow> 'db PoolMetaStore \<Rightarrow> u64 \<Rightarrow> int \<Rightarrow>
    get_result \<times> 'db PoolMetaStore" where
  "Get B h p inode tierRank =
     (let from_disk =
        (case tierByRank p tierRank of
           None \<Rightarrow> (Absent, p)
         | Some t \<Rightarrow>
             (case shard_get B (the_shard h p t inode) (InodeKey inode) of
                None \<Rightarrow> (Absent, p)
              | Some val \<Rightarrow>
                  (case DecodeRecord val of
                     Inl e \<Rightarrow> (BadRecord e, p)
                   | Inr rec \<Rightarrow> (Found rec, p\<lparr>pool_cache := cache_put (pool_cache p) inode rec\<rparr>))))
      in case cache_get (pool_cache p) inode of
           Some rec \<Rightarrow> if uint (TierIdx rec) = tierRank then (Found rec, p) else from_disk
         | None \<Rightarrow> from_disk)"

datatype move_error = MoveGet record_error | UnknownDest int | MoveShard shard_error

definition Move :: "'db bolt \<Rightarrow> (bytes \<Rightarrow> u64) \<Rightarrow> 'db PoolMetaStore \<Rightarrow> u64 \<Rightarrow> int \<Rightarrow> int \<Rightarrow>
    (move_error option \<times> 'db PoolMetaStore) option" where
  "Move B h p inode fromRank toRank =
     (if fromRank = toRank then Some (None, p)
      else case Get B h p inode fromRank of
        (BadRecord e, p1) \<Rightarrow> Some (Some (MoveGet e), p1)
      | (Absent, p1) \<Rightarrow> Some (None, p1)
      | (Found rec0, p1) \<Rightarrow>
          let rec = rec0\<lparr>TierIdx := word_of_int toRank\<rparr>;
              src = tierByRank p1 fromRank
          in case tierByRank p1 toRank of
               None \<Rightarrow> Some (Some (UnknownDest toRank), p1)
             | Some dst \<Rightarrow>
                 (case (case src of None \<Rightarrow> Some p1
                        | Some t \<Rightarrow> (case drainQueue B (the_shard h p1 t inode) of
                            None \<Rightarrow> None | Some s \<Rightarrow> Some (set_shard h p1 t inode s))) of
                    None \<Rightarrow> None
                  | Some p2 \<Rightarrow>
                      (case putSync B (the_shard h p2 dst inode) (InodeKey inode) (Encode rec) of
                         Inl e \<Rightarrow> Some (Some (MoveShard e), p2)
                       | Inr s \<Rightarrow>
                           let p3 = (set_shard h p2 dst inode s)\<lparr>pool_cache := cache_put (pool_cache p2) inode rec\<rparr> in
                           if src = Some dst then Some (None, p3)
                           else (case src of
                               None \<Rightarrow> Some (None, p3)
                             | Some t \<Rightarrow>
                                 (case shard_del B (the_shard h p3 t inode) (InodeKey inode) of
                                    Inl e \<Rightarrow> Some (Some (MoveShard e), p3)
                                  | Inr s' \<Rightarrow> Some (None, set_shard h p3 t inode s'))))))"

text \<open>The calls \<^verbatim>\<open>Iterate\<close> and \<^verbatim>\<open>IterateAll\<close> make, in order; undecodable values are skipped.\<close>

definition decode_opt :: "bytes \<Rightarrow> Record option" where
  "decode_opt v = (case DecodeRecord v of Inl _ \<Rightarrow> None | Inr r \<Rightarrow> Some r)"

definition Iterate :: "'db bolt \<Rightarrow> 'db PoolMetaStore \<Rightarrow> int \<Rightarrow> (u64 \<times> Record) list" where
  "Iterate B p tierRank =
     (case tierByRank p tierRank of
        None \<Rightarrow> []
      | Some t \<Rightarrow> concat (map (\<lambda>sh. List.map_filter (\<lambda>(ino, v). map_option (Pair ino) (decode_opt v)) (iterate B sh))
          (ts_shards (stores p ! t))))"

definition IterateAll :: "'db bolt \<Rightarrow> 'db PoolMetaStore \<Rightarrow> (int \<times> u64 \<times> Record) list" where
  "IterateAll B p =
     concat (map (\<lambda>t. let rank = ts_rank (stores p ! t) in
       map (\<lambda>(ino, rec).
         let recordRank = uint (TierIdx rec) in
         (if recordRank = 0 \<or> tierByRank p recordRank = None then rank else recordRank, ino, rec))
       (Iterate B p rank)) (tiers p))"

text \<open>
  \<^verbatim>\<open>ShardsFromEnv\<close>, \<^verbatim>\<open>discoverShardCount\<close> and \<^verbatim>\<open>writeVersion\<close>: how many shards a store has, and
  its version stamp.
\<close>

definition DefaultShards :: int where
  "DefaultShards = 8"

definition ShardsFromEnv :: "'db os_env \<Rightarrow> int" where
  "ShardsFromEnv E =
     (let s = os_Getenv E ''TIERD_META_SHARDS'' in
      case (if s = [] then None else Atoi s) of
        Some n \<Rightarrow> if n > 0 then (if n > 64 then 64 else n) else DefaultShards
      | None \<Rightarrow> DefaultShards)"

definition discoverShardCount :: "'db os_env \<Rightarrow> string \<Rightarrow> int option" where
  "discoverShardCount E dir =
     (case os_ReadDir E dir of
        NotExist \<Rightarrow> Some 0
      | ReadError \<Rightarrow> None
      | Entries es \<Rightarrow> Some (int (length (filter (\<lambda>(name, isdir). isdir \<and> Atoi name \<noteq> None) es))))"

definition writeVersion :: "'db os_env \<Rightarrow> string \<Rightarrow> bool" where
  "writeVersion E root =
     (let p = path_Join [root, ''VERSION''] in
      os_Stat E p \<or> os_WriteFile E p [ucast RecordVersion])"

text \<open>Shard directories are numbered with at least two digits.\<close>

definition shard_dir :: "string \<Rightarrow> nat \<Rightarrow> string" where
  "shard_dir objDir i = path_Join [objDir, (if i < 10 then ''0'' @ itoa_nat i else itoa_nat i)]"

fun open_shards :: "'db os_env \<Rightarrow> string \<Rightarrow> nat list \<Rightarrow> 'db shard list option" where
  "open_shards E objDir [] = Some []"
| "open_shards E objDir (i # is) =
     (case openShard E (shard_dir objDir i) i of
        None \<Rightarrow> None
      | Some sh \<Rightarrow> map_option ((#) sh) (open_shards E objDir is))"

definition openTierStoreAtRoot :: "'db os_env \<Rightarrow> TierBacking \<Rightarrow> string \<Rightarrow> 'db tierStore option" where
  "openTierStoreAtRoot E tb root =
     (if \<not> ensureDir E root then None
      else let objDir = path_Join [root, ''objects''] in
        case discoverShardCount E objDir of
          None \<Rightarrow> None
        | Some n \<Rightarrow>
            let shardCount = (if n = 0 then ShardsFromEnv E else n) in
            if \<not> writeVersion E root then None
            else map_option (\<lambda>shs. \<lparr>ts_rank = Rank tb, ts_name = Name tb, ts_backingMount = BackingMount tb,
                   ts_root = root, ts_shards = shs\<rparr>) (open_shards E objDir [0..<nat shardCount]))"

definition openTierStore :: "'db os_env \<Rightarrow> TierBacking \<Rightarrow> 'db tierStore option" where
  "openTierStore E tb = openTierStoreAtRoot E tb (path_Join [BackingMount tb, ''.tierd-meta''])"

text \<open>
  \<^verbatim>\<open>OpenWithRankAliases\<close>. The alias map is iterated in an unspecified order, so it is given as a
  list in that order. An error closes the stores opened so far and returns none of them.
\<close>

datatype open_error = NoTiers | OpenFailed | UnknownAlias int int

fun open_tiers :: "'db os_env \<Rightarrow> TierBacking list \<Rightarrow>
    'db tierStore list \<Rightarrow> (int \<rightharpoonup> nat) \<Rightarrow> open_error + ('db tierStore list \<times> (int \<rightharpoonup> nat))" where
  "open_tiers E [] ts rs = Inr (ts, rs)"
| "open_tiers E (tb # tbs) ts rs =
     (case openTierStore E tb of
        None \<Rightarrow> Inl OpenFailed
      | Some t \<Rightarrow> open_tiers E tbs (ts @ [t]) (rs(ts_rank t \<mapsto> length ts)))"

fun open_aliases :: "'db os_env \<Rightarrow> (int \<times> int) list \<Rightarrow>
    'db tierStore list \<Rightarrow> (int \<rightharpoonup> nat) \<Rightarrow> open_error + ('db tierStore list \<times> (int \<rightharpoonup> nat))" where
  "open_aliases E [] ts rs = Inr (ts, rs)"
| "open_aliases E ((logicalRank, physicalRank) # as) ts rs =
     (case rs physicalRank of
        None \<Rightarrow> Inl (UnknownAlias logicalRank physicalRank)
      | Some pt \<Rightarrow>
          if rs logicalRank \<noteq> None then open_aliases E as ts rs
          else
            let physical = ts ! pt;
                tb = \<lparr>Rank = logicalRank, Name = ts_name physical @ ''-rank-'' @ itoa logicalRank,
                      BackingMount = ts_backingMount physical\<rparr>;
                root = path_Join [ts_root physical, ''logical-ranks'', itoa logicalRank]
            in case openTierStoreAtRoot E tb root of
                 None \<Rightarrow> Inl OpenFailed
               | Some t \<Rightarrow> open_aliases E as (ts @ [t]) (rs(logicalRank \<mapsto> length ts)))"

definition OpenWithRankAliases :: "TierBacking sorter \<Rightarrow> nat sorter \<Rightarrow>
    'db os_env \<Rightarrow> TierBacking list \<Rightarrow> (int \<times> int) list \<Rightarrow> open_error + 'db PoolMetaStore" where
  "OpenWithRankAliases sort_tb sort_ts E tbs aliases =
     (if tbs = [] then Inl NoTiers
      else case open_tiers E (sort_tb (\<lambda>a b. Rank a < Rank b) tbs) [] Map.empty of
        Inl e \<Rightarrow> Inl e
      | Inr (ts, rs) \<Rightarrow>
          (case open_aliases E aliases ts rs of
             Inl e \<Rightarrow> Inl e
           | Inr (ts', rs') \<Rightarrow>
               Inr \<lparr>stores = ts', tiers = sort_ts (\<lambda>i j. ts_rank (ts' ! i) < ts_rank (ts' ! j)) [0..<length ts'],
                 rankStores = rs', pool_cache = newInodeCache defaultMaxCacheEntries\<rparr>))"

text \<open>\<^verbatim>\<open>PoolMetaStore.Close\<close>: every shard of every tier is closed.\<close>

definition tier_close :: "'db bolt \<Rightarrow> 'db tierStore \<Rightarrow> 'db tierStore" where
  "tier_close B t = t\<lparr>ts_shards := map (shard_Close B) (ts_shards t)\<rparr>"

definition store_Close :: "'db bolt \<Rightarrow> 'db PoolMetaStore \<Rightarrow> 'db PoolMetaStore" where
  "store_Close B p = p\<lparr>stores := foldl (\<lambda>ss t. ss[t := tier_close B (ss ! t)]) (stores p) (tiers p)\<rparr>"

definition FastestRoot :: "'db PoolMetaStore \<Rightarrow> string" where
  "FastestRoot p = (case tiers p of [] \<Rightarrow> [] | t # _ \<Rightarrow> ts_root (stores p ! t))"

definition TierBackingPath :: "'db PoolMetaStore \<Rightarrow> int \<Rightarrow> string" where
  "TierBackingPath p i =
     (if i < 0 \<or> int (length (tiers p)) \<le> i then [] else ts_backingMount (stores p ! (tiers p ! nat i)))"

text \<open>\<^verbatim>\<open>Stats\<close>: the counters of every shard of every tier. Sync errors and flush times are not modelled.\<close>

record ShardStats =
  st_TierRank :: int
  st_TierName :: string
  st_Index :: nat
  st_QueueDepth :: nat
  st_QueueCapacity :: nat
  st_BatchesCommitted :: u64
  st_RecordsWritten :: u64
  st_MaxBatchSeen :: u64
  st_DropsOnEnqueue :: u64
  st_FlushErrors :: u64

definition Stats :: "'db PoolMetaStore \<Rightarrow> ShardStats list" where
  "Stats p = concat (map (\<lambda>i. let t = stores p ! i in
     map (\<lambda>sh. \<lparr>st_TierRank = ts_rank t, st_TierName = ts_name t, st_Index = sh_idx sh,
       st_QueueDepth = length (sh_queue sh), st_QueueCapacity = shardWriteQueueCap,
       st_BatchesCommitted = batchesCommitted sh, st_RecordsWritten = recordsWritten sh,
       st_MaxBatchSeen = maxBatchSeen sh, st_DropsOnEnqueue = dropsOnEnqueue sh,
       st_FlushErrors = flushErrors sh\<rparr>) (ts_shards t)) (tiers p))"

subsection \<open>What the store holds\<close>

text \<open>
  The record a tier has for an inode once everything queued for it is committed, and the
  invariant of an open store.
\<close>

definition disk_record :: "'db bolt \<Rightarrow> (bytes \<Rightarrow> u64) \<Rightarrow> 'db PoolMetaStore \<Rightarrow> int \<Rightarrow> u64 \<Rightarrow> Record option" where
  "disk_record B h p rank ino =
     (case tierByRank p rank of None \<Rightarrow> None
      | Some t \<Rightarrow> Option.bind (view B (the_shard h p t ino) (InodeKey ino)) decode_opt)"

definition tier_inv :: "'db bolt \<Rightarrow> 'db tierStore \<Rightarrow> bool" where
  "tier_inv B t \<longleftrightarrow> ts_shards t \<noteq> [] \<and> (\<forall>s \<in> set (ts_shards t). shard_inv B s \<and> \<not> sh_closed s)"

definition store_inv :: "'db bolt \<Rightarrow> 'db PoolMetaStore \<Rightarrow> bool" where
  "store_inv B p \<longleftrightarrow> cache_inv (pool_cache p) \<and> (\<forall>t \<in> set (stores p). tier_inv B t) \<and>
     (\<forall>r t. rankStores p r = Some t \<longrightarrow> t < length (stores p) \<and> ts_rank (stores p ! t) = r \<and> t \<in> set (tiers p))"

text \<open>Two records that place a file the same way; heat fields in the cache are advisory.\<close>

definition same_placement :: "Record \<Rightarrow> Record \<Rightarrow> bool" where
  "same_placement a b \<longleftrightarrow> TierIdx a = TierIdx b \<and> PinState a = PinState b"

text \<open>
  Records on disk name the rank they are stored under; cached records have the current version,
  and one that names a known rank is, up to heat, the record of that rank.
\<close>

definition coherent :: "'db bolt \<Rightarrow> (bytes \<Rightarrow> u64) \<Rightarrow> 'db PoolMetaStore \<Rightarrow> bool" where
  "coherent B h p \<longleftrightarrow>
     (\<forall>rank ino r. disk_record B h p rank ino = Some r \<longrightarrow> uint (TierIdx r) = rank) \<and>
     (\<forall>ino r. cache_get (pool_cache p) ino = Some r \<longrightarrow> Version r = RecordVersion) \<and>
     (\<forall>ino r. cache_get (pool_cache p) ino = Some r \<longrightarrow>
     tierByRank p (uint (TierIdx r)) \<noteq> None \<longrightarrow>
     (\<exists>r'. disk_record B h p (uint (TierIdx r)) ino = Some r' \<and> same_placement r r'))"

text \<open>No write for the inode's shard is waiting in the queue or the writer's batch.\<close>

text \<open>No write of the inode's record is waiting in the tier's queue.\<close>

definition unqueued :: "(bytes \<Rightarrow> u64) \<Rightarrow> 'db PoolMetaStore \<Rightarrow> int \<Rightarrow> u64 \<Rightarrow> bool" where
  "unqueued h p rank ino \<longleftrightarrow> (case tierByRank p rank of None \<Rightarrow> True
     | Some t \<Rightarrow> InodeKey ino \<notin> pending_keys (the_shard h p t ino))"

section \<open>Addressing shards\<close>

lemma decode_opt_Encode [simp]: "Version r = RecordVersion \<Longrightarrow> decode_opt (Encode r) = Some r"
  using decode_encode_ok by (simp add: decode_opt_def)

lemma tierByRank_simps [simp]:
  "tierByRank (set_shard h p t ino s) = tierByRank p"
  "tierByRank (p\<lparr>pool_cache := c\<rparr>) = tierByRank p"
  by (simp_all add: fun_eq_iff tierByRank_def set_shard_def)

lemma the_shard_cache [simp]: "the_shard h (p\<lparr>pool_cache := c\<rparr>) = the_shard h p"
  by (simp add: fun_eq_iff the_shard_def)

lemma set_shard_cache [simp]: "pool_cache (set_shard h p t ino s) = pool_cache p"
  by (simp add: set_shard_def)

lemma store_inv_tier: "store_inv B p \<Longrightarrow> tierByRank p r = Some t \<Longrightarrow> t < length (stores p) \<and> tier_inv B (stores p ! t)"
  by (simp add: store_inv_def tierByRank_def)

lemma tierByRank_inj: "store_inv B p \<Longrightarrow> tierByRank p r = Some t \<Longrightarrow> tierByRank p r' = Some t \<Longrightarrow> r = r'"
  unfolding store_inv_def tierByRank_def by metis

lemma tier_shardFor_less: "tier_inv B t \<Longrightarrow> tier_shardFor h t ino < length (ts_shards t)"
  by (auto simp: tier_inv_def tier_shardFor_def)

lemma the_shard_inv:
  assumes "store_inv B p" "tierByRank p r = Some t"
  shows "shard_inv B (the_shard h p t ino)" "\<not> sh_closed (the_shard h p t ino)"
proof -
  have "tier_inv B (stores p ! t)" using store_inv_tier [OF assms] by simp
  then have "the_shard h p t ino \<in> set (ts_shards (stores p ! t))"
    using tier_shardFor_less [of B "stores p ! t" h ino] by (simp add: the_shard_def)
  with \<open>tier_inv B (stores p ! t)\<close> show "shard_inv B (the_shard h p t ino)" "\<not> sh_closed (the_shard h p t ino)"
    by (auto simp: tier_inv_def)
qed

lemma the_shard_set:
  assumes "store_inv B p" "tierByRank p r = Some t"
  shows "the_shard h (set_shard h p t ino s) t' ino' =
    (if t' = t \<and> tier_shardFor h (stores p ! t) ino' = tier_shardFor h (stores p ! t) ino then s
     else the_shard h p t' ino')"
proof -
  have "t < length (stores p)" "tier_shardFor h (stores p ! t) ino < length (ts_shards (stores p ! t))"
    using store_inv_tier [OF assms] tier_shardFor_less [of B "stores p ! t"] by simp_all
  then show ?thesis
    by (auto simp: the_shard_def set_shard_def nth_list_update tier_shardFor_def)
qed

lemma set_shard_inv:
  assumes "store_inv B p" "tierByRank p r = Some t" "shard_inv B s" "\<not> sh_closed s"
  shows "store_inv B (set_shard h p t ino s)"
proof -
  have t: "t < length (stores p)" and inv: "tier_inv B (stores p ! t)"
    using store_inv_tier [OF assms(1,2)] by simp_all
  have "tier_inv B ((stores p ! t)\<lparr>ts_shards := (ts_shards (stores p ! t))[i := s]\<rparr>)" for i
    using inv assms(3,4) by (auto simp: tier_inv_def dest!: set_update_subset_insert [THEN subsetD])
  then show ?thesis
    using assms(1) t unfolding store_inv_def set_shard_def
    by (auto simp: nth_list_update dest!: set_update_subset_insert [THEN subsetD] split: if_splits)
qed

lemma store_inv_cache: "store_inv B p \<Longrightarrow> cache_inv c \<Longrightarrow> store_inv B (p\<lparr>pool_cache := c\<rparr>)"
  by (simp add: store_inv_def)

lemma disk_record_cache [simp]: "disk_record B h (p\<lparr>pool_cache := c\<rparr>) = disk_record B h p"
  by (simp add: fun_eq_iff disk_record_def split: option.splits)

text \<open>
  Replacing an inode's shard by one whose contents differ at that inode's key only changes
  exactly one entry of the store.
\<close>

lemma disk_record_set_shard:
  assumes "store_inv B p" "tierByRank p r = Some t"
    "view B s = (view B (the_shard h p t ino))(InodeKey ino := v)"
  shows "disk_record B h (set_shard h p t ino s) =
    (\<lambda>r' ino'. if r' = r \<and> ino' = ino then Option.bind v decode_opt else disk_record B h p r' ino')"
proof (intro ext)
  fix r' ino'
  have same: "tierByRank p r' = Some t \<longleftrightarrow> r' = r" using tierByRank_inj [OF assms(1)] assms(2) by blast
  have sh: "the_shard h p t ino' = the_shard h p t ino"
    if "tier_shardFor h (stores p ! t) ino' = tier_shardFor h (stores p ! t) ino"
    using that by (simp add: the_shard_def)
  show "disk_record B h (set_shard h p t ino s) r' ino' =
     (if r' = r \<and> ino' = ino then Option.bind v decode_opt else disk_record B h p r' ino')"
    using assms(2,3) same sh
    by (auto simp: disk_record_def the_shard_set [OF assms(1,2)] split: option.splits)
qed

lemma unqueued_cache [simp]: "unqueued h (p\<lparr>pool_cache := c\<rparr>) = unqueued h p"
  by (simp add: fun_eq_iff unqueued_def split: option.splits)

lemma unqueued_set_shard:
  assumes "store_inv B p" "tierByRank p rank = Some t" "pending_keys s \<subseteq> insert (InodeKey ino) (pending_keys (the_shard h p t ino))"
    "unqueued h p r i" "(r, i) \<noteq> (rank, ino)"
  shows "unqueued h (set_shard h p t ino s) r i"
proof (cases "tierByRank p r")
  case (Some t')
  have same: "the_shard h p t i = the_shard h p t ino"
    if "tier_shardFor h (stores p ! t) i = tier_shardFor h (stores p ! t) ino"
    using that by (simp add: the_shard_def)
  have "t' = t \<Longrightarrow> r = rank" using tierByRank_inj [OF assms(1,2)] Some by blast
  with Some assms(3-5) same show ?thesis
    by (auto simp: unqueued_def the_shard_set [OF assms(1,2)])
qed (simp add: unqueued_def)

section \<open>The operations on the abstract store\<close>

lemma view_enqueue:
  assumes "\<not> sh_closed s" "length (sh_queue s) < shardWriteQueueCap"
  shows "view B (snd (enqueue s k v)) = (view B s)(k \<mapsto> v)"
  using assms by (simp add: enqueue_def view_simps)

context bolt_reliable
begin

lemma enqueueBlocking_ok:
  assumes "shard_inv B s" "\<not> sh_closed s"
  shows "\<exists>t. enqueueBlocking B s k v = Some t \<and> shard_inv B t \<and> \<not> sh_closed t \<and> view B t = (view B s)(k \<mapsto> v) \<and>
    pending_keys t \<subseteq> insert k (pending_keys s)"
proof -
  let ?w = "\<lparr>pw_key = k, pw_val = v, pw_barrier = None\<rparr>"
  obtain t where t: "send_blocking B s ?w = Some (t\<lparr>sh_queue := sh_queue t @ [?w]\<rparr>)" "shard_inv B t"
    "view B t = view B s" "length (sh_queue t) < shardWriteQueueCap" "sh_closed t = sh_closed s"
    "pending_keys t \<subseteq> pending_keys s"
    using send_blocking_ok [OF assms(1)] by blast
  have "pending_keys (t\<lparr>sh_queue := sh_queue t @ [?w]\<rparr>) \<subseteq> insert k (pending_keys s)"
    using t(6) by (auto simp: pending_keys_def)
  from t have "shard_inv B (t\<lparr>sh_queue := sh_queue t @ [?w]\<rparr>)"
    using assms(2) by (auto simp: shard_inv_def)
  moreover have "view B (t\<lparr>sh_queue := sh_queue t @ [?w]\<rparr>) = (view B s)(k \<mapsto> v)"
    using t(3) by (simp add: view_simps)
  ultimately show ?thesis
    using t assms \<open>pending_keys (t\<lparr>sh_queue := sh_queue t @ [?w]\<rparr>) \<subseteq> insert k (pending_keys s)\<close>
    by (simp add: enqueueBlocking_def)
qed

lemma PutBlocking_ok:
  assumes "store_inv B p" "tierByRank p rank \<noteq> None" "Version rec = RecordVersion"
  shows "\<exists>p'. PutBlocking B h p ino rank rec = Some p' \<and> store_inv B p' \<and> tierByRank p' = tierByRank p \<and>
    pool_cache p' = cache_put (pool_cache p) ino rec \<and>
    disk_record B h p' = (\<lambda>r i. if r = rank \<and> i = ino then Some rec else disk_record B h p r i) \<and>
    (\<forall>r i. (r, i) \<noteq> (rank, ino) \<longrightarrow> unqueued h p r i \<longrightarrow> unqueued h p' r i)"
proof -
  from assms(2) obtain t where t: "tierByRank p rank = Some t" by blast
  obtain s where s: "enqueueBlocking B (the_shard h p t ino) (InodeKey ino) (Encode rec) = Some s"
    "shard_inv B s" "\<not> sh_closed s" "view B s = (view B (the_shard h p t ino))(InodeKey ino \<mapsto> Encode rec)"
    "pending_keys s \<subseteq> insert (InodeKey ino) (pending_keys (the_shard h p t ino))"
    using enqueueBlocking_ok [OF the_shard_inv [OF assms(1) t]] by blast
  have "cache_inv (cache_put (pool_cache p) ino rec)"
    using assms(1) by (simp add: store_inv_def cache_put_inv)
  moreover have "\<forall>r i. (r, i) \<noteq> (rank, ino) \<longrightarrow> unqueued h p r i \<longrightarrow> unqueued h (set_shard h p t ino s) r i"
    using unqueued_set_shard [OF assms(1) t s(5)] by blast
  ultimately show ?thesis using s t assms
    by (auto simp: PutBlocking_def unqueued_cache store_inv_cache set_shard_inv disk_record_set_shard [OF assms(1) t s(4)] fun_eq_iff)
qed

lemma shard_del_ok:
  assumes "shard_inv B s" "\<not> sh_closed s"
  shows "\<exists>t. shard_del B s k = Inr t \<and> shard_inv B t \<and> \<not> sh_closed t \<and>
    sh_queue t = sh_queue s \<and> sh_batch t = sh_batch s \<and> bolt_get B (sh_db t) = (bolt_get B (sh_db s))(k := None)"
proof -
  obtain db where db: "bolt_update B (sh_db s) [BDelete k] = Some db" using update_ok by blast
  with update_get [OF db] update_bucket [OF db] assms show ?thesis
    by (auto simp: shard_del_def shard_inv_def)
qed

lemma putSync_ok:
  assumes "shard_inv B s" "\<not> sh_closed s"
  shows "\<exists>t. putSync B s k v = Inr t \<and> shard_inv B t \<and> \<not> sh_closed t \<and>
    sh_queue t = sh_queue s \<and> sh_batch t = sh_batch s \<and> bolt_get B (sh_db t) = (bolt_get B (sh_db s))(k \<mapsto> v)"
proof -
  obtain db where db: "bolt_update B (sh_db s) [BPut k v] = Some db" using update_ok by blast
  with update_get [OF db] update_bucket [OF db] assms show ?thesis
    by (auto simp: putSync_def shard_inv_def)
qed

lemma Delete_ok:
  assumes "store_inv B p" "tierByRank p rank = Some t" "unqueued h p rank ino"
  shows "\<exists>p'. Delete B h p ino rank = (None, p') \<and> store_inv B p' \<and> tierByRank p' = tierByRank p \<and>
    pool_cache p' = cache_del (pool_cache p) ino \<and>
    disk_record B h p' = (\<lambda>r i. if r = rank \<and> i = ino then None else disk_record B h p r i) \<and>
    (\<forall>r i. unqueued h p r i \<longrightarrow> unqueued h p' r i)"
proof -
  let ?s = "the_shard h p t ino"
  obtain s where s: "shard_del B ?s (InodeKey ino) = Inr s" "shard_inv B s" "\<not> sh_closed s"
    "sh_queue s = sh_queue ?s" "sh_batch s = sh_batch ?s"
    "bolt_get B (sh_db s) = (bolt_get B (sh_db ?s))(InodeKey ino := None)"
    using shard_del_ok [OF the_shard_inv [OF assms(1,2)]] by blast
  have v: "view B s = (view B ?s)(InodeKey ino := None)"
    using view_frame [OF s(4,5) _ s(6)] assms(2,3) by (simp add: unqueued_def)
  let ?p1 = "p\<lparr>pool_cache := cache_del (pool_cache p) ino\<rparr>"
  have inv1: "store_inv B ?p1" using assms(1) by (intro store_inv_cache) (simp_all add: store_inv_def cache_del_inv)
  have "disk_record B h (set_shard h ?p1 t ino s) =
    (\<lambda>r i. if r = rank \<and> i = ino then None else disk_record B h p r i)"
    using disk_record_set_shard [OF inv1, of rank t s h ino None] assms(2) v by (simp add: fun_eq_iff)
  moreover have "store_inv B (set_shard h ?p1 t ino s)"
    using set_shard_inv [OF inv1] assms(2) s by simp
  moreover have "unqueued h (set_shard h ?p1 t ino s) r i" if "unqueued h p r i" for r i
  proof (cases "(r, i) = (rank, ino)")
    case True
    then show ?thesis using that assms(2) s(4,5) by (simp add: unqueued_def the_shard_set [OF inv1] pending_keys_def)
  next
    case False
    have "pending_keys s \<subseteq> insert (InodeKey ino) (pending_keys (the_shard h ?p1 t ino))"
      using s(4,5) by (auto simp: pending_keys_def)
    from unqueued_set_shard [OF inv1 _ this, of rank r i] that False assms(2) show ?thesis by simp
  qed
  ultimately show ?thesis using assms(2) s by (simp add: Delete_def Let_def)
qed

text \<open>Draining a shard changes no entry of the store.\<close>

lemma drain_shard_ok:
  assumes "store_inv B p" "tierByRank p rank = Some t"
  shows "\<exists>s. drainQueue B (the_shard h p t ino) = Some s \<and> store_inv B (set_shard h p t ino s) \<and>
    disk_record B h (set_shard h p t ino s) = disk_record B h p \<and>
    unqueued h (set_shard h p t ino s) rank ino"
proof -
  obtain s where s: "drainQueue B (the_shard h p t ino) = Some s" "shard_inv B s" "sh_queue s = []" "sh_batch s = []"
    "bolt_get B (sh_db s) = view B (the_shard h p t ino)" "\<not> sh_closed s"
    using drainQueue_ok [OF the_shard_inv [OF assms]] by blast
  then have v: "view B s = view B (the_shard h p t ino)" by (simp add: view_def)
  have "disk_record B h (set_shard h p t ino s) = disk_record B h p"
    using disk_record_set_shard [OF assms, of s h ino "view B (the_shard h p t ino) (InodeKey ino)"] v assms(2)
    by (auto simp: fun_eq_iff disk_record_def)
  with s show ?thesis
    using set_shard_inv [OF assms s(2) s(6)] assms the_shard_set [OF assms, of h ino s t ino]
    by (simp add: unqueued_def pending_keys_def)
qed

lemma putSync_shard_ok:
  assumes "store_inv B p" "tierByRank p rank = Some t" "unqueued h p rank ino" "Version rec = RecordVersion"
  shows "\<exists>s. putSync B (the_shard h p t ino) (InodeKey ino) (Encode rec) = Inr s \<and>
    store_inv B (set_shard h p t ino s) \<and>
    disk_record B h (set_shard h p t ino s) = (\<lambda>r i. if r = rank \<and> i = ino then Some rec else disk_record B h p r i) \<and>
    (\<forall>r i. unqueued h p r i \<longrightarrow> unqueued h (set_shard h p t ino s) r i)"
proof -
  let ?s = "the_shard h p t ino"
  obtain s where s: "putSync B ?s (InodeKey ino) (Encode rec) = Inr s" "shard_inv B s" "\<not> sh_closed s"
    "sh_queue s = sh_queue ?s" "sh_batch s = sh_batch ?s"
    "bolt_get B (sh_db s) = (bolt_get B (sh_db ?s))(InodeKey ino \<mapsto> Encode rec)"
    using putSync_ok [OF the_shard_inv [OF assms(1,2)]] by blast
  have v: "view B s = (view B ?s)(InodeKey ino \<mapsto> Encode rec)"
    using view_frame [OF s(4,5) _ s(6)] assms(2,3) by (simp add: unqueued_def)
  have sh: "the_shard h p t i = ?s" if "tier_shardFor h (stores p ! t) i = tier_shardFor h (stores p ! t) ino" for i
    using that by (simp add: the_shard_def)
  have "unqueued h (set_shard h p t ino s) r i" if "unqueued h p r i" for r i
  proof (cases "tierByRank p r")
    case (Some t')
    with that sh [of i] s(4,5) show ?thesis
      by (cases "t' = t") (auto simp: unqueued_def pending_keys_def the_shard_set [OF assms(1,2)])
  qed (simp add: unqueued_def)
  moreover have "disk_record B h (set_shard h p t ino s) = (\<lambda>r i. if r = rank \<and> i = ino then Some rec else disk_record B h p r i)"
    using disk_record_set_shard [OF assms(1,2) v] assms(4) by (simp add: fun_eq_iff)
  ultimately show ?thesis
    using s(1) set_shard_inv [OF assms(1,2) s(2,3)] by blast
qed

end

section \<open>Cache and disk agree\<close>

lemma coherent_disk: "coherent B h p \<Longrightarrow> disk_record B h p rank ino = Some r \<Longrightarrow> uint (TierIdx r) = rank"
  by (simp add: coherent_def)

lemma coherent_cache:
  "coherent B h p \<Longrightarrow> cache_get (pool_cache p) ino = Some r \<Longrightarrow> tierByRank p (uint (TierIdx r)) \<noteq> None \<Longrightarrow>
     \<exists>r'. disk_record B h p (uint (TierIdx r)) ino = Some r' \<and> same_placement r r'"
  by (simp add: coherent_def)

lemma coherent_version: "coherent B h p \<Longrightarrow> cache_get (pool_cache p) ino = Some r \<Longrightarrow> Version r = RecordVersion"
  by (simp add: coherent_def)

lemma disk_record_version: "disk_record B h p rank ino = Some r \<Longrightarrow> Version r = RecordVersion"
  by (auto simp: disk_record_def decode_opt_def DecodeRecord_def Let_def bind_eq_Some_conv
      split: option.splits sum.splits if_splits)

text \<open>A write of a record that names the rank it is written to, on disk and in the cache.\<close>

lemma coherent_write:
  assumes "coherent B h p" "uint (TierIdx rec) = rank" "tierByRank p' = tierByRank p"
    "disk_record B h p' = (\<lambda>r i. if r = rank \<and> i = ino then Some rec else disk_record B h p r i)"
    "\<And>i r. cache_get (pool_cache p') i = Some r \<Longrightarrow>
       cache_get (pool_cache p) i = Some r \<and> i \<noteq> ino \<or>
       i = ino \<and> same_placement r rec \<and> Version r = RecordVersion"
  shows "coherent B h p'"
proof -
  have "\<exists>r'. disk_record B h p' (uint (TierIdx r)) i = Some r' \<and> same_placement r r'"
    if c: "cache_get (pool_cache p') i = Some r" and k: "tierByRank p' (uint (TierIdx r)) \<noteq> None" for i r
  proof (cases "i = ino")
    case True
    with assms(5) [OF c] have "same_placement r rec" by blast
    with True assms(2,4) show ?thesis by (simp add: same_placement_def)
  next
    case False
    with assms(5) [OF c] have "cache_get (pool_cache p) i = Some r" by blast
    with coherent_cache [OF assms(1)] k assms(3,4) False show ?thesis by simp
  qed
  moreover have "uint (TierIdx r) = rk" if "disk_record B h p' rk i = Some r" for rk i r
    using that coherent_disk [OF assms(1)] assms(2,4) by (auto split: if_splits)
  moreover have "Version r = RecordVersion" if "cache_get (pool_cache p') i = Some r" for i r
    using assms(5) [OF that] coherent_version [OF assms(1)] by blast
  ultimately show ?thesis unfolding coherent_def by blast
qed

text \<open>Removing an entry on disk and the inode's cached record.\<close>

lemma coherent_remove:
  assumes "coherent B h p" "tierByRank p' = tierByRank p"
    "disk_record B h p' = (\<lambda>r i. if r = rank \<and> i = ino then None else disk_record B h p r i)"
    "\<And>i r. cache_get (pool_cache p') i = Some r \<Longrightarrow>
      cache_get (pool_cache p) i = Some r \<and> (i = ino \<longrightarrow> uint (TierIdx r) \<noteq> rank)"
  shows "coherent B h p'"
proof -
  have "\<exists>r'. disk_record B h p' (uint (TierIdx r)) i = Some r' \<and> same_placement r r'"
    if c: "cache_get (pool_cache p') i = Some r" and k: "tierByRank p' (uint (TierIdx r)) \<noteq> None" for i r
    using assms(4) [OF c] coherent_cache [OF assms(1), of i r] k assms(2,3) by auto
  moreover have "uint (TierIdx r) = rk" if "disk_record B h p' rk i = Some r" for rk i r
    using that coherent_disk [OF assms(1)] assms(3) by (auto split: if_splits)
  moreover have "Version r = RecordVersion" if "cache_get (pool_cache p') i = Some r" for i r
    using assms(4) [OF that] coherent_version [OF assms(1)] by blast
  ultimately show ?thesis unfolding coherent_def by blast
qed

lemma coherent_same:
  assumes "coherent B h p" "tierByRank p' = tierByRank p" "disk_record B h p' = disk_record B h p"
    "pool_cache p' = pool_cache p"
  shows "coherent B h p'"
  using assms by (simp add: coherent_def)

lemma same_placement_refl [simp]: "same_placement r r"
  by (simp add: same_placement_def)

context bolt_reliable
begin

lemma PutBlocking_good:
  assumes "store_inv B p" "coherent B h p" "tierByRank p rank \<noteq> None" "Version rec = RecordVersion"
    "uint (TierIdx rec) = rank"
  shows "\<exists>p'. PutBlocking B h p ino rank rec = Some p' \<and> store_inv B p' \<and> coherent B h p' \<and>
    tierByRank p' = tierByRank p \<and>
    disk_record B h p' = (\<lambda>r i. if r = rank \<and> i = ino then Some rec else disk_record B h p r i) \<and>
    (\<forall>r i. (r, i) \<noteq> (rank, ino) \<longrightarrow> unqueued h p r i \<longrightarrow> unqueued h p' r i)"
proof -
  have ci: "cache_inv (pool_cache p)" using assms(1) by (simp add: store_inv_def)
  obtain p' where p': "PutBlocking B h p ino rank rec = Some p'" "store_inv B p'" "tierByRank p' = tierByRank p"
    "pool_cache p' = cache_put (pool_cache p) ino rec"
    "disk_record B h p' = (\<lambda>r i. if r = rank \<and> i = ino then Some rec else disk_record B h p r i)"
    "\<forall>r i. (r, i) \<noteq> (rank, ino) \<longrightarrow> unqueued h p r i \<longrightarrow> unqueued h p' r i"
    using PutBlocking_ok [OF assms(1,3,4)] by blast
  have "coherent B h p'"
    by (rule coherent_write [OF assms(2,5) p'(3,5)])
      (use assms(4) p'(4) in \<open>auto dest: ic.get_put_cases [OF ci]\<close>)
  with p' show ?thesis by blast
qed

lemma Get_good:
  assumes "store_inv B p" "coherent B h p" "tierByRank p rank \<noteq> None" "unqueued h p rank ino"
    "Get B h p ino rank = (res, p')"
  shows "store_inv B p' \<and> coherent B h p' \<and> tierByRank p' = tierByRank p \<and> disk_record B h p' = disk_record B h p \<and>
    the_shard h p' = the_shard h p \<and>
    (case res of
       Found r \<Rightarrow> Version r = RecordVersion \<and> (\<exists>r'. disk_record B h p rank ino = Some r' \<and> same_placement r r')
     | _ \<Rightarrow> disk_record B h p rank ino = None)"
proof (cases "\<exists>r. cache_get (pool_cache p) ino = Some r \<and> uint (TierIdx r) = rank")
  case True
  then obtain r where "cache_get (pool_cache p) ino = Some r" "uint (TierIdx r) = rank" by blast
  with assms coherent_cache [OF assms(2), of ino r] coherent_version [OF assms(2), of ino r]
  show ?thesis by (auto simp: Get_def)
next
  case False
  obtain t where t: "tierByRank p rank = Some t" using assms(3) by blast
  have ci: "cache_inv (pool_cache p)" using assms(1) by (simp add: store_inv_def)
  have disk: "disk_record B h p rank ino = Option.bind (shard_get B (the_shard h p t ino) (InodeKey ino)) decode_opt"
    using t assms(4) the_shard_inv [OF assms(1) t, of h ino]
    by (simp add: disk_record_def unqueued_def view_unpending shard_get_def shard_inv_def)
  have get: "Get B h p ino rank =
    (case shard_get B (the_shard h p t ino) (InodeKey ino) of None \<Rightarrow> (Absent, p)
     | Some val \<Rightarrow> (case DecodeRecord val of Inl e \<Rightarrow> (BadRecord e, p)
         | Inr rec \<Rightarrow> (Found rec, p\<lparr>pool_cache := cache_put (pool_cache p) ino rec\<rparr>)))"
    using False t by (auto simp: Get_def Let_def split: option.splits)
  have coh: "coherent B h (p\<lparr>pool_cache := cache_put (pool_cache p) ino rec\<rparr>)"
    if "disk_record B h p rank ino = Some rec" for rec
    by (rule coherent_write [OF assms(2) coherent_disk [OF assms(2) that]])
      (use that disk_record_version [OF that] in \<open>auto simp: fun_eq_iff dest: ic.get_put_cases [OF ci]\<close>)
  show ?thesis
    using assms(1,2,5) disk coh cache_put_inv [OF ci] disk_record_version [of B h p rank ino]
    by (auto simp: get decode_opt_def store_inv_cache split: option.splits sum.splits)
qed

text \<open>The whole effect of a successful relocation.\<close>

lemma Move_good:
  assumes inv: "store_inv B p" and coh: "coherent B h p" and ne: "fromRank \<noteq> toRank"
    and src: "tierByRank p fromRank = Some t" and dst: "tierByRank p toRank = Some u"
    and to: "0 \<le> toRank" "toRank < 256"
    and dr: "unqueued h p fromRank ino" "unqueued h p toRank ino"
    and rec: "disk_record B h p fromRank ino = Some r0"
  shows "\<exists>r p'. Move B h p ino fromRank toRank = Some (None, p') \<and> PinState r = PinState r0 \<and>
    uint (TierIdx r) = toRank \<and> store_inv B p' \<and> coherent B h p' \<and>
    disk_record B h p' = (\<lambda>rk i. if rk = fromRank \<and> i = ino then None
      else if rk = toRank \<and> i = ino then Some r else disk_record B h p rk i)"
proof -
  obtain res p1 where get: "Get B h p ino fromRank = (res, p1)" by (cases "Get B h p ino fromRank")
  have "tierByRank p fromRank \<noteq> None" using src by simp
  from Get_good [OF inv coh this dr(1) get] rec obtain r1 where res: "res = Found r1"
    and r1: "same_placement r1 r0" and v1: "Version r1 = RecordVersion"
    and p1: "store_inv B p1" "coherent B h p1" "tierByRank p1 = tierByRank p"
      "disk_record B h p1 = disk_record B h p" "the_shard h p1 = the_shard h p"
    by (auto split: get_result.splits)
  let ?r = "r1\<lparr>TierIdx := word_of_int toRank\<rparr>"
  have tidx: "uint (TierIdx ?r) = toRank" using to by (simp add: uint_word_of_int)
  have src1: "tierByRank p1 fromRank = Some t" and dst1: "tierByRank p1 toRank = Some u"
    using src dst p1 by simp_all
  have ut: "u \<noteq> t" using tierByRank_inj [OF inv src, of toRank] dst ne by auto
  obtain s2 where s2: "drainQueue B (the_shard h p1 t ino) = Some s2" "store_inv B (set_shard h p1 t ino s2)"
    "disk_record B h (set_shard h p1 t ino s2) = disk_record B h p1" "unqueued h (set_shard h p1 t ino s2) fromRank ino"
    using drain_shard_ok [OF p1(1) src1] by blast
  let ?p2 = "set_shard h p1 t ino s2"
  have dr2: "unqueued h ?p2 toRank ino"
    using dr(2) dst p1 ut by (simp add: unqueued_def the_shard_set [OF p1(1) src1])
  obtain s3 where s3: "putSync B (the_shard h ?p2 u ino) (InodeKey ino) (Encode ?r) = Inr s3"
    "store_inv B (set_shard h ?p2 u ino s3)"
    "disk_record B h (set_shard h ?p2 u ino s3) = (\<lambda>r i. if r = toRank \<and> i = ino then Some ?r else disk_record B h ?p2 r i)"
    "unqueued h (set_shard h ?p2 u ino s3) fromRank ino"
    using putSync_shard_ok [OF s2(2) _ dr2, of u ?r] dst1 v1 s2(4) by auto
  let ?p3 = "(set_shard h ?p2 u ino s3)\<lparr>pool_cache := cache_put (pool_cache ?p2) ino ?r\<rparr>"
  have ci: "cache_inv (pool_cache p1)" using p1 by (simp add: store_inv_def)
  have inv3: "store_inv B ?p3" using s3(2) by (intro store_inv_cache) (simp_all add: cache_put_inv ci)
  obtain s4 where s4: "shard_del B (the_shard h ?p3 t ino) (InodeKey ino) = Inr s4" "shard_inv B s4" "\<not> sh_closed s4"
    "sh_queue s4 = sh_queue (the_shard h ?p3 t ino)" "sh_batch s4 = sh_batch (the_shard h ?p3 t ino)"
    "bolt_get B (sh_db s4) = (bolt_get B (sh_db (the_shard h ?p3 t ino)))(InodeKey ino := None)"
    using shard_del_ok [OF the_shard_inv [OF inv3]] src1 by (metis tierByRank_simps)
  have v4: "view B s4 = (view B (the_shard h ?p3 t ino))(InodeKey ino := None)"
    using view_frame [OF s4(4,5) _ s4(6)] s3(4) src1 by (simp add: unqueued_def)
  let ?p4 = "set_shard h ?p3 t ino s4"
  have disk4: "disk_record B h ?p4 = (\<lambda>rk i. if rk = fromRank \<and> i = ino then None
      else if rk = toRank \<and> i = ino then Some ?r else disk_record B h p rk i)"
    using disk_record_set_shard [OF inv3 _ v4, of fromRank] src1 s3(3) s2(3) p1(4) by (simp add: fun_eq_iff)
  have inv4: "store_inv B ?p4" using set_shard_inv [OF inv3 _ s4(2,3)] src1 by simp
  have cohm: "coherent B h ?p3"
    by (rule coherent_write [OF p1(2) tidx])
      (use s3(3) s2(3) v1 in \<open>auto simp: fun_eq_iff dest: ic.get_put_cases [OF ci]\<close>)
  have "coherent B h ?p4"
    by (rule coherent_remove [OF cohm, of _ fromRank ino])
      (use disk4 s3(3) s2(3) p1(4) ne tidx in \<open>auto simp: fun_eq_iff dest: ic.get_put_cases [OF ci]\<close>)
  moreover have "Move B h p ino fromRank toRank = Some (None, ?p4)"
    using ne get res src1 dst1 s2(1) s3(1) s4(1) ut by (simp add: Move_def Let_def)
  moreover have "PinState ?r = PinState r0" using r1 by (simp add: same_placement_def)
  ultimately show ?thesis using tidx inv4 disk4 by blast
qed

end

lemma Put_good:
  assumes "store_inv B p" "coherent B h p" "Version rec = RecordVersion" "uint (TierIdx rec) = rank"
    "Put h p ino rank rec = (True, p')"
  shows "store_inv B p' \<and> coherent B h p' \<and> tierByRank p' = tierByRank p \<and>
    disk_record B h p' = (\<lambda>r i. if r = rank \<and> i = ino then Some rec else disk_record B h p r i)"
proof -
  have ci: "cache_inv (pool_cache p)" using assms(1) by (simp add: store_inv_def)
  obtain t where t: "tierByRank p rank = Some t"
    using assms(5) by (cases "tierByRank p rank") (auto simp: Put_def)
  let ?s = "the_shard h p t ino"
  let ?s' = "snd (enqueue ?s (InodeKey ino) (Encode rec))"
  have room: "length (sh_queue ?s) < shardWriteQueueCap" and p': "p' = (set_shard h p t ino ?s')\<lparr>pool_cache := putIfPlacementChanged (pool_cache p) ino rec\<rparr>"
    using assms(5) t by (auto simp: Put_def enqueue_def split: prod.splits if_splits)
  have v: "view B ?s' = (view B ?s)(InodeKey ino \<mapsto> Encode rec)"
    using view_enqueue room the_shard_inv(2) [OF assms(1) t] by blast
  have "shard_inv B ?s'" "\<not> sh_closed ?s'"
    using the_shard_inv [OF assms(1) t, of h ino] room by (auto simp: enqueue_def shard_inv_def)
  then have inv: "store_inv B p'"
    unfolding p' by (intro store_inv_cache set_shard_inv [OF assms(1) t]) (simp_all add: putIfPlacementChanged_inv ci)
  have disk: "disk_record B h p' = (\<lambda>r i. if r = rank \<and> i = ino then Some rec else disk_record B h p r i)"
    using disk_record_set_shard [OF assms(1) t v] assms(3) unfolding p' by (simp add: fun_eq_iff)
  have tb: "tierByRank p' = tierByRank p" by (simp add: p')
  have "coherent B h p'"
    by (rule coherent_write [OF assms(2,4) tb disk])
      (use assms(3) coherent_version [OF assms(2)] in
        \<open>auto simp: p' same_placement_def dest: ic.get_put_changed_cases [OF ci]\<close>)
  with inv disk tb show ?thesis by blast
qed

section \<open>Opening a store\<close>

text \<open>What opening relies on of bbolt: a transaction that created the bucket leaves it there.\<close>

definition creates_bucket :: "'db bolt \<Rightarrow> 'db os_env \<Rightarrow> bool" where
  "creates_bucket B E \<longleftrightarrow> (\<forall>db db'. os_createBucket E db = Some db' \<longrightarrow> bolt_bucket B db')"

definition opened :: "'db bolt \<Rightarrow> 'db tierStore list \<Rightarrow> (int \<rightharpoonup> nat) \<Rightarrow> bool" where
  "opened B ts rs \<longleftrightarrow> (\<forall>t \<in> set ts. tier_inv B t) \<and>
     (\<forall>r t. rs r = Some t \<longrightarrow> t < length ts \<and> ts_rank (ts ! t) = r)"

lemma init_shard_not_closed [simp]: "\<not> sh_closed (init_shard db i)"
  by (simp add: init_shard_def)

lemma ShardsFromEnv_bounds: "1 \<le> ShardsFromEnv E \<and> ShardsFromEnv E \<le> 64"
  by (simp add: ShardsFromEnv_def DefaultShards_def Let_def split: option.splits)

lemma open_shards_fresh:
  "open_shards E dir is = Some shs \<Longrightarrow> creates_bucket B E \<Longrightarrow>
     map sh_idx shs = is \<and> (\<forall>s \<in> set shs. shard_inv B s \<and> \<not> sh_closed s)"
proof (induction "is" arbitrary: shs)
  case (Cons i "is")
  then show ?case
    by (auto simp: openShard_def creates_bucket_def init_shard_def [THEN arg_cong [of _ _ sh_idx]]
        intro!: init_shard_inv split: if_splits option.splits)
qed simp

lemma openTierStoreAtRoot_inv:
  assumes "openTierStoreAtRoot E tb root = Some t" "creates_bucket B E"
  shows "tier_inv B t \<and> ts_rank t = Rank tb"
proof -
  from assms(1) obtain n shs where n: "discoverShardCount E (path_Join [root, ''objects'']) = Some n"
    and shs: "open_shards E (path_Join [root, ''objects'']) [0..<nat (if n = 0 then ShardsFromEnv E else n)] = Some shs"
    and t: "ts_shards t = shs" "ts_rank t = Rank tb"
    by (auto simp: openTierStoreAtRoot_def Let_def split: if_splits option.splits)
  have "0 \<le> n" using n by (auto simp: discoverShardCount_def split: readdir.splits)
  then have "0 < nat (if n = 0 then ShardsFromEnv E else n)" using ShardsFromEnv_bounds [of E] by auto
  moreover have "length shs = nat (if n = 0 then ShardsFromEnv E else n)"
    using arg_cong [OF conjunct1 [OF open_shards_fresh [OF shs assms(2)]], of length] by simp
  ultimately have "shs \<noteq> []" by auto
  with open_shards_fresh [OF shs assms(2)] t show ?thesis by (simp add: tier_inv_def)
qed

lemma opened_snoc:
  assumes "opened B ts rs" "creates_bucket B E" "openTierStoreAtRoot E tb root = Some t"
  shows "opened B (ts @ [t]) (rs(Rank tb \<mapsto> length ts))"
  using openTierStoreAtRoot_inv [OF assms(3,2)] assms(1)
  by (auto simp: opened_def nth_append less_SucI split: if_splits)

lemma open_tiers_opened:
  "open_tiers E tbs ts rs = Inr (ts', rs') \<Longrightarrow> opened B ts rs \<Longrightarrow> creates_bucket B E \<Longrightarrow>
     opened B ts' rs' \<and> dom rs' = dom rs \<union> Rank ` set tbs"
proof (induction tbs arbitrary: ts rs)
  case (Cons tb tbs)
  from Cons.prems(1) obtain t where t: "openTierStore E tb = Some t"
    and rest: "open_tiers E tbs (ts @ [t]) (rs(ts_rank t \<mapsto> length ts)) = Inr (ts', rs')"
    by (auto split: option.splits)
  have r: "ts_rank t = Rank tb"
    using openTierStoreAtRoot_inv [OF _ Cons.prems(3)] t by (auto simp: openTierStore_def)
  have "opened B (ts @ [t]) (rs(ts_rank t \<mapsto> length ts))"
    using opened_snoc [OF Cons.prems(2,3)] t by (simp add: openTierStore_def r)
  from Cons.IH [OF rest this Cons.prems(3)] r show ?case by auto
qed simp

lemma open_aliases_opened:
  "open_aliases E as ts rs = Inr (ts', rs') \<Longrightarrow> opened B ts rs \<Longrightarrow> creates_bucket B E \<Longrightarrow>
     opened B ts' rs' \<and> dom rs' = dom rs \<union> fst ` set as"
proof (induction as arbitrary: ts rs)
  case (Cons a as)
  obtain l ph where a: "a = (l, ph)" by (cases a)
  from Cons.prems(1) a obtain pt where pt: "rs ph = Some pt" by (auto split: option.splits)
  show ?case
  proof (cases "rs l")
    case (Some x)
    with Cons a pt have "opened B ts' rs' \<and> dom rs' = dom rs \<union> fst ` set as" by simp
    with Some a show ?thesis by auto
  next
    case None
    let ?tb = "\<lparr>Rank = l, Name = ts_name (ts ! pt) @ ''-rank-'' @ itoa l, BackingMount = ts_backingMount (ts ! pt)\<rparr>"
    let ?root = "path_Join [ts_root (ts ! pt), ''logical-ranks'', itoa l]"
    from None Cons.prems(1) a pt obtain t where t: "openTierStoreAtRoot E ?tb ?root = Some t"
      and rest: "open_aliases E as (ts @ [t]) (rs(l \<mapsto> length ts)) = Inr (ts', rs')"
      by (auto simp: Let_def split: option.splits)
    have "opened B (ts @ [t]) (rs(l \<mapsto> length ts))"
      using opened_snoc [OF Cons.prems(2,3) t] by simp
    from Cons.IH [OF rest this Cons.prems(3)] a show ?thesis by auto
  qed
qed simp

lemma Open_opened:
  assumes "go_sort sort_tb" "creates_bucket B E"
    "OpenWithRankAliases sort_tb sort_ts E tbs aliases = Inr p"
  shows "opened B (stores p) (rankStores p) \<and> dom (rankStores p) = Rank ` set tbs \<union> fst ` set aliases \<and>
    tiers p = sort_ts (\<lambda>i j. ts_rank (stores p ! i) < ts_rank (stores p ! j)) [0..<length (stores p)] \<and>
    pool_cache p = newInodeCache defaultMaxCacheEntries"
proof -
  let ?tbs = "sort_tb (\<lambda>a b. Rank a < Rank b) tbs"
  from assms(3) obtain ts rs ts' rs' where o1: "open_tiers E ?tbs [] Map.empty = Inr (ts, rs)"
    and o2: "open_aliases E aliases ts rs = Inr (ts', rs')"
    and p: "p = \<lparr>stores = ts', tiers = sort_ts (\<lambda>i j. ts_rank (ts' ! i) < ts_rank (ts' ! j)) [0..<length ts'],
      rankStores = rs', pool_cache = newInodeCache defaultMaxCacheEntries\<rparr>"
    by (auto simp: OpenWithRankAliases_def split: if_splits sum.splits)
  have 1: "opened B ts rs \<and> dom rs = Rank ` set ?tbs"
    using open_tiers_opened [OF o1 _ assms(2)] by (simp add: opened_def)
  then have "opened B ts' rs' \<and> dom rs' = dom rs \<union> fst ` set aliases"
    using open_aliases_opened [OF o2 _ assms(2)] by blast
  with 1 show ?thesis by (simp add: p go_sort.srt_set [OF assms(1)])
qed

lemma Open_inv:
  assumes "go_sort sort_tb" "go_sort sort_ts" "creates_bucket B E"
    "OpenWithRankAliases sort_tb sort_ts E tbs aliases = Inr p"
  shows "store_inv B p"
  using Open_opened [OF assms(1,3,4)] newInodeCache_inv [of defaultMaxCacheEntries]
  by (simp add: store_inv_def opened_def defaultMaxCacheEntries_def go_sort.srt_set [OF assms(2)])

text \<open>
  C18. Opening a pool yields a store that satisfies the invariant every operation keeps, whose
  tiers are all its stores in ascending rank order, and that knows exactly the ranks of the
  given backings and the logical ranks of the aliases.
\<close>

theorem Open_establishes:
  assumes "go_sort sort_tb" "go_sort sort_ts" "creates_bucket B E"
    "OpenWithRankAliases sort_tb sort_ts E tbs aliases = Inr p"
  shows "store_inv B p \<and> set (tiers p) = {..<length (stores p)} \<and> distinct (tiers p) \<and>
    sorted (map (\<lambda>t. ts_rank (stores p ! t)) (tiers p)) \<and>
    dom (tierByRank p) = Rank ` set tbs \<union> fst ` set aliases"
proof -
  note o = Open_opened [OF assms(1,3,4)]
  have "weak_order (\<lambda>i j. ts_rank (stores p ! i) < ts_rank (stores p ! j))"
    by (auto simp: weak_order_def)
  from go_sort.srt_sorted [OF assms(2) this]
  have "sorted (map (\<lambda>t. ts_rank (stores p ! t)) (tiers p))"
    using o by (simp add: sorted_map not_less)
  moreover have "set (tiers p) = {..<length (stores p)}" "distinct (tiers p)"
    using o by (simp_all add: go_sort.srt_set [OF assms(2)] go_sort.srt_distinct [OF assms(2)] atLeast0LessThan)
  moreover have "tierByRank p = rankStores p" by (simp add: fun_eq_iff tierByRank_def)
  ultimately show ?thesis using Open_inv [OF assms] o by simp
qed

text \<open>
  A small pool over the in-memory database: ranks 1 and 2, and rank 3 kept on the fastest; the
  first tier already holds a record for inode 7.
\<close>

definition sample_env :: "mem_db os_env" where
  "sample_env = \<lparr>os_MkdirAll = (\<lambda>p. True), os_ReadDir = (\<lambda>p. Entries [(''00'', True), (''x'', True)]),
     os_Stat = (\<lambda>p. False), os_WriteFile = (\<lambda>p b. True), os_Getenv = (\<lambda>v. []),
     os_boltOpen = (\<lambda>p. Some (if p = ''/mnt/a/.tierd-meta/objects/00/shard.db''
       then [(InodeKey 7, Encode sample_record)] else [])),
     os_createBucket = Some\<rparr>"

definition sample_backings :: "TierBacking list" where
  "sample_backings = [\<lparr>Rank = 2, Name = ''HDD'', BackingMount = ''/mnt/b''\<rparr>,
     \<lparr>Rank = 1, Name = ''NVME'', BackingMount = ''/mnt/a''\<rparr>]"

definition sample_store :: "mem_db PoolMetaStore" where
  "sample_store = (case OpenWithRankAliases isort isort sample_env sample_backings [(3, 1)] of
     Inr p \<Rightarrow> p | Inl _ \<Rightarrow> \<lparr>stores = [], tiers = [], rankStores = Map.empty, pool_cache = newInodeCache 1\<rparr>)"

lemma sample_atoi: "Atoi ''00'' = Some 0" "Atoi ''x'' = None"
  by (simp_all add: Atoi_def is_digit_def digits_val_def of_char_def)

lemma sample_itoa: "itoa_nat 0 = ''0''" "itoa 3 = ''3''"
  by (simp_all add: itoa_def itoa_nat.simps char_of_def bit_0)

lemma sample_root:
  "openTierStoreAtRoot sample_env tb root = Some \<lparr>ts_rank = Rank tb, ts_name = Name tb,
     ts_backingMount = BackingMount tb, ts_root = root,
     ts_shards = [init_shard (if path_Join [path_Join [path_Join [root, ''objects''], ''00''], ''shard.db''] =
       ''/mnt/a/.tierd-meta/objects/00/shard.db'' then [(InodeKey 7, Encode sample_record)] else []) 0]\<rparr>"
  by (simp add: openTierStoreAtRoot_def sample_env_def ensureDir_def discoverShardCount_def sample_atoi
      writeVersion_def openShard_def shard_dir_def sample_itoa Let_def)

lemma sample_store_opens:
  "OpenWithRankAliases isort isort sample_env sample_backings [(3, 1)] = Inr sample_store"
  by (simp add: sample_store_def OpenWithRankAliases_def sample_backings_def openTierStore_def sample_root isort_def Let_def)

lemma sample_fresh: "creates_bucket mem_bolt sample_env"
  by (simp add: creates_bucket_def sample_env_def mem_bolt_def)

theorem Open_establishes_witness:
  "store_inv mem_bolt sample_store \<and> dom (tierByRank sample_store) = {1, 2, 3}"
  using Open_establishes [OF isort.go_sort_axioms isort.go_sort_axioms sample_fresh sample_store_opens]
  by (auto simp: sample_backings_def)

lemma sample_stores:
  "rankStores sample_store = [1 \<mapsto> 0, 2 \<mapsto> 1, 3 \<mapsto> 2]"
  "map ts_shards (stores sample_store) =
     [[init_shard [(InodeKey 7, Encode sample_record)] 0], [init_shard [] 0], [init_shard [] 0]]"
  "pool_cache sample_store = newInodeCache defaultMaxCacheEntries"
  by (simp_all add: sample_store_def OpenWithRankAliases_def sample_backings_def openTierStore_def sample_root isort_def
      Let_def numeral_2_eq_2 path_Join_def path_Clean_def clean_parts_def clean_step_def render_path_def rooted_def sample_itoa)

definition zero_hash :: "bytes \<Rightarrow> u64" where
  "zero_hash b = 0"

lemma sample_rank:
  "tierByRank sample_store r = (if r = 1 then Some 0 else if r = 2 then Some 1 else if r = 3 then Some 2 else None)"
  by (simp add: tierByRank_def sample_stores)

lemma sample_shard:
  "the_shard zero_hash sample_store t i = (map ts_shards (stores sample_store) ! t) ! 0" if "t < 3"
proof -
  have "length (stores sample_store) = 3"
    using arg_cong [OF sample_stores(2), of length] by simp
  with that show ?thesis by (simp add: the_shard_def tier_shardFor_def zero_hash_def)
qed

lemma sample_unqueued: "unqueued zero_hash sample_store r i"
  by (simp add: unqueued_def sample_rank sample_shard sample_stores init_shard_def pending_keys_def)

lemma sample_disk:
  "disk_record mem_bolt zero_hash sample_store r i = (if r = 1 \<and> i = 7 then Some sample_record else None)"
proof -
  have "Version sample_record = RecordVersion" by (simp add: sample_record_def)
  then show ?thesis
    by (simp add: disk_record_def sample_rank sample_shard sample_stores view_def init_shard_def mem_bolt_def)
qed

lemma sample_coherent: "coherent mem_bolt zero_hash sample_store"
  by (simp add: coherent_def sample_disk sample_stores newInodeCache_def cache_get_def cacheShards_def
      cache_shardFor_def sample_record_def)

lemma sample_inv: "store_inv mem_bolt sample_store"
  by (rule Open_inv [OF isort.go_sort_axioms isort.go_sort_axioms sample_fresh sample_store_opens])

section \<open>Properties of the store\<close>



text \<open>
  C17. A non-blocking put that reports success refines the same update. One that reports failure
  leaves every tier's contents as they were.
\<close>

theorem Put_refines:
  assumes "store_inv B p" "coherent B h p" "Version rec = RecordVersion" "uint (TierIdx rec) = rank"
    "Put h p ino rank rec = (ok, p')"
  shows "disk_record B h p' =
      (if ok then (\<lambda>r i. if r = rank \<and> i = ino then Some rec else disk_record B h p r i) else disk_record B h p) \<and>
    (ok \<longrightarrow> store_inv B p' \<and> coherent B h p')"
proof (cases ok)
  case True
  then show ?thesis using Put_good [OF assms(1-4)] assms(5) by simp
next
  case False
  show ?thesis
  proof (cases "tierByRank p rank")
    case (Some t)
    let ?s = "the_shard h p t ino"
    have "p' = (set_shard h p t ino (snd (enqueue ?s (InodeKey ino) (Encode rec))))\<lparr>pool_cache := putIfPlacementChanged (pool_cache p) ino rec\<rparr>"
      and "view B (snd (enqueue ?s (InodeKey ino) (Encode rec))) = (view B ?s)(InodeKey ino := view B ?s (InodeKey ino))"
      using Some False assms(5) the_shard_inv(2) [OF assms(1) Some, of h ino]
      by (auto simp: Put_def enqueue_def view_def split: prod.splits if_splits)
    then show ?thesis
      using disk_record_set_shard [OF assms(1) Some, of _ h ino "view B ?s (InodeKey ino)"] False Some
      by (auto simp: disk_record_def fun_eq_iff)
  qed (use False assms(5) in \<open>simp add: Put_def\<close>)
qed

theorem Put_refines_witness:
  "fst (Put zero_hash sample_store 9 1 sample_record) \<and>
   disk_record mem_bolt zero_hash (snd (Put zero_hash sample_store 9 1 sample_record)) 1 9 = Some sample_record"
proof -
  have "fst (Put zero_hash sample_store 9 1 sample_record)"
    by (simp add: Put_def sample_rank sample_shard sample_stores enqueue_def init_shard_def
        shardWriteQueueCap_def)
  with Put_refines [OF sample_inv sample_coherent, of sample_record 1 9] show ?thesis
    by (cases "Put zero_hash sample_store 9 1 sample_record") (auto simp: sample_record_def)
qed





text \<open>
  C19. A delete of a known rank with no write pending removes exactly the named entry and the
  inode's cached record.
\<close>

theorem Delete_removes:
  assumes "bolt_reliable B" "store_inv B p" "tierByRank p rank \<noteq> None" "unqueued h p rank ino"
  shows "\<exists>p'. Delete B h p ino rank = (None, p') \<and> store_inv B p' \<and> cache_get (pool_cache p') ino = None \<and>
    disk_record B h p' = (\<lambda>r i. if r = rank \<and> i = ino then None else disk_record B h p r i)"
proof -
  obtain t where "tierByRank p rank = Some t" using assms(3) by blast
  from bolt_reliable.Delete_ok [OF assms(1,2) this assms(4)] show ?thesis
    using assms(2) by (fastforce simp: store_inv_def cache_del_get)
qed

theorem Delete_removes_witness:
  "\<exists>p'. Delete mem_bolt zero_hash sample_store 7 1 = (None, p') \<and> disk_record mem_bolt zero_hash p' 1 7 = None"
  using Delete_removes [OF mem.bolt_reliable_axioms sample_inv _ sample_unqueued, of 1 7]
  by (auto simp: sample_rank)

text \<open>
  C20. A delete that follows a put the writer has not committed yet does not remove the record: the
  queued write is still applied, so the tier ends up holding the record the delete was for.
\<close>

theorem Delete_resurrects:
  assumes "bolt_reliable B" "store_inv B p" "Put h p ino rank rec = (True, p1)" "Version rec = RecordVersion"
    "Delete B h p1 ino rank = (e, p2)"
  shows "disk_record B h p2 rank ino = Some rec"
proof -
  obtain t where t: "tierByRank p rank = Some t"
    using assms(3) by (cases "tierByRank p rank") (auto simp: Put_def)
  let ?s = "the_shard h p t ino" and ?w = "\<lparr>pw_key = InodeKey ino, pw_val = Encode rec, pw_barrier = None\<rparr>"
  let ?s1 = "?s\<lparr>sh_queue := sh_queue ?s @ [?w]\<rparr>"
  have room: "\<not> sh_closed ?s" "length (sh_queue ?s) < shardWriteQueueCap"
    and p1: "p1 = (set_shard h p t ino ?s1)\<lparr>pool_cache := putIfPlacementChanged (pool_cache p) ino rec\<rparr>"
    using assms(3) t by (auto simp: Put_def enqueue_def split: prod.splits if_splits)
  have "shard_inv B ?s1" using the_shard_inv [OF assms(2) t, of h ino] room by (auto simp: shard_inv_def)
  then obtain s2 where s2: "shard_del B ?s1 (InodeKey ino) = Inr s2" "sh_queue s2 = sh_queue ?s1"
    "sh_batch s2 = sh_batch ?s1" "shard_inv B s2" "\<not> sh_closed s2"
    using bolt_reliable.shard_del_ok [OF assms(1), of ?s1 "InodeKey ino"] room by auto
  have v2: "view B s2 (InodeKey ino) = Some (Encode rec)"
    using s2 by (simp add: view_def writes_of_append writes_of_Cons apply_writes_append)
  let ?p = "p1\<lparr>pool_cache := cache_del (pool_cache p1) ino\<rparr>"
  have sh: "the_shard h p1 t ino = ?s1" by (simp add: p1 the_shard_set [OF assms(2) t])
  have p2: "p2 = set_shard h ?p t ino s2"
    using assms(5) t s2 sh by (simp add: Delete_def Let_def p1)
  have "shard_inv B ?s1" "\<not> sh_closed ?s1" using \<open>shard_inv B ?s1\<close> room by simp_all
  then have inv: "store_inv B ?p"
    using assms(2) unfolding p1 by (intro store_inv_cache set_shard_inv [OF assms(2) t])
      (simp_all add: store_inv_def putIfPlacementChanged_inv cache_del_inv)
  have "the_shard h p2 t ino = s2"
    unfolding p2 using the_shard_set [OF inv, of rank t h ino s2 t ino] t by (simp add: p1)
  then show ?thesis using t v2 assms(4) by (simp add: disk_record_def p2 p1)
qed

theorem Delete_resurrects_witness:
  "disk_record mem_bolt zero_hash
     (snd (Delete mem_bolt zero_hash (snd (Put zero_hash sample_store 9 1 sample_record)) 9 1)) 1 9 = Some sample_record"
proof -
  have "fst (Put zero_hash sample_store 9 1 sample_record)"
    by (simp add: Put_def sample_rank sample_shard sample_stores enqueue_def init_shard_def
        shardWriteQueueCap_def)
  then have "Put zero_hash sample_store 9 1 sample_record = (True, snd (Put zero_hash sample_store 9 1 sample_record))"
    by (metis prod.collapse)
  from Delete_resurrects [OF mem.bolt_reliable_axioms sample_inv this _ prod.collapse [symmetric]] show ?thesis
    by (simp add: sample_record_def)
qed

end
