(* ===== verification/MetaIterate.thy ===== *)
theory MetaIterate
  imports MetaStore
begin

text \<open>
  Iteration over the metadata store (\<^verbatim>\<open>Iterate\<close> and \<^verbatim>\<open>IterateAll\<close> of \<^verbatim>\<open>tiering/meta/store.go\<close>):
  it visits exactly the committed records, each under the rank of its tier. This rests on how
  records are filed: every key, committed or queued, is in the shard its inode hashes to, and
  every record names the rank it is stored under. All operations keep that.
\<close>

section \<open>Keys\<close>

lemma key_inode_be: "length k = 8 \<Longrightarrow> key_inode k = be_get k"
proof -
  assume "length k = 8"
  then obtain a b c d e f g h where k: "k = [a, b, c, d, e, f, g, h]"
    by (auto simp: length_Suc_conv eval_nat_numeral)
  show ?thesis
    by (simp add: k key_inode_def be_get_def push_bit_or or.assoc or.commute or.left_commute)
qed

lemma InodeKey_be_put: "InodeKey i = be_put 8 i"
  by (simp add: InodeKey_def)

lemma key_inode_InodeKey [simp]: "key_inode (InodeKey i) = i"
  using be_get_put [of 8 i] by (simp add: key_inode_be InodeKey_be_put)

lemma InodeKey_key_inode: "length k = 8 \<Longrightarrow> InodeKey (key_inode k) = k"
  using be_put_get [of k, where 'a = 64] by (simp add: key_inode_be InodeKey_be_put)

section \<open>What a shard holds, committed or queued\<close>

definition shard_holds :: "'db bolt \<Rightarrow> (bytes \<Rightarrow> bytes \<Rightarrow> bool) \<Rightarrow> 'db shard \<Rightarrow> bool" where
  "shard_holds B Q s \<longleftrightarrow> (\<forall>k v. bolt_get B (sh_db s) k = Some v \<longrightarrow> Q k v) \<and>
     (\<forall>w \<in> set (sh_batch s @ sh_queue s). pw_barrier w = None \<longrightarrow> Q (pw_key w) (pw_val w))"

lemma apply_puts_holds:
  assumes "\<forall>k v. m k = Some v \<longrightarrow> Q k v" "\<forall>w \<in> set ws. Q (pw_key w) (pw_val w)"
  shows "apply_writes (puts_of ws) m k = Some v \<Longrightarrow> Q k v"
  using assms
  by (induction ws arbitrary: m) (auto simp: puts_of_def split: if_splits)

lemma distinct_map_neq: "sorted_wrt (\<lambda>x y. f x \<noteq> f y) xs \<Longrightarrow> distinct (map f xs)"
  by (induction xs) auto

context bolt_db
begin

lemma flush_batch_holds:
  assumes "shard_holds B Q s" "\<forall>w \<in> set (sh_batch s). pw_barrier w = None"
  shows "shard_holds B Q (flush_batch B s)"
proof -
  have "bolt_get B (sh_db (flush B s (sh_batch s))) k = Some v \<Longrightarrow> Q k v" for k v
    using assms apply_puts_holds [of "bolt_get B (sh_db s)" Q "sh_batch s" k v]
    by (auto simp: flush_def shard_holds_def update_get split: if_splits option.splits)
  then show ?thesis using assms by (simp add: shard_holds_def flush_batch_def)
qed

lemma writer_next_holds:
  assumes "writer_next B d s = Some t" "shard_inv B s" "shard_holds B Q s"
  shows "shard_holds B Q t"
proof -
  have b: "\<forall>w \<in> set (sh_batch s). pw_barrier w = None" using assms(2) by (simp add: shard_inv_def)
  have q: "shard_holds B Q (s\<lparr>sh_queue := q\<rparr>)" if "sh_queue s = w # q" for w q
    using that assms(3) by (simp add: shard_holds_def)
  note fl = flush_batch_holds [OF assms(3) b] and fq = flush_batch_holds [of Q "s\<lparr>sh_queue := q\<rparr>" for q]
  show ?thesis
  proof (cases "sh_batch s = []")
    case True
    then show ?thesis using assms(1,3)
      by (auto simp: writer_next_def shard_holds_def split: if_splits list.splits option.splits)
  next
    case False
    then show ?thesis using assms(1,3) fl fq [OF q] b
      by (auto simp: writer_next_def shard_holds_def split: if_splits list.splits option.splits)
  qed
qed

lemma send_blocking_holds:
  assumes "send_blocking B s w = Some t" "shard_inv B s" "shard_holds B Q s"
    "pw_barrier w = None \<Longrightarrow> Q (pw_key w) (pw_val w)"
  shows "shard_holds B Q t"
  using assms(1-3)
proof (induction "writer_work s" arbitrary: s rule: less_induct)
  case less
  show ?case
  proof (cases "length (sh_queue s) < shardWriteQueueCap")
    case True
    with less.prems assms(4) show ?thesis by (auto simp: send_blocking.simps [of B s] shard_holds_def)
  next
    case False
    with less.prems(1) obtain u where u: "writer_next B False s = Some u" "send_blocking B u w = Some t"
      by (auto simp: send_blocking.simps [of B s] split: option.splits)
    from less.hyps [OF writer_next_work [OF u(1)] u(2) writer_next_inv [OF u(1) less.prems(2)]
        writer_next_holds [OF u(1) less.prems(2,3)]] show ?thesis .
  qed
qed

lemma enqueueBlocking_holds:
  "enqueueBlocking B s k v = Some t \<Longrightarrow> shard_inv B s \<Longrightarrow> shard_holds B Q s \<Longrightarrow> Q k v \<Longrightarrow> shard_holds B Q t"
  by (auto simp: enqueueBlocking_def split: if_splits elim!: send_blocking_holds)

lemma shard_del_holds:
  "shard_del B s k = Inr t \<Longrightarrow> shard_holds B Q s \<Longrightarrow> shard_holds B Q t"
  by (auto simp: shard_del_def shard_holds_def update_get split: if_splits option.splits)

text \<open>\<^verbatim>\<open>ForEach\<close> visits each committed pair once.\<close>

lemma forEach_distinct: "distinct (map fst (bolt_forEach B db))"
proof -
  have irr: "(x, x) \<notin> lexord {(a, b :: 8 word). a < b}" for x
    by (rule lexord_irreflexive) simp
  have "sorted_wrt (\<lambda>x y. fst x \<noteq> fst y) (bolt_forEach B db)"
    by (rule sorted_wrt_mono_rel [OF _ forEach_sorted]) (use irr in auto)
  then show ?thesis by (rule distinct_map_neq)
qed

lemma forEach_set:
  assumes "bolt_bucket B db"
  shows "(k, v) \<in> set (bolt_forEach B db) \<longleftrightarrow> bolt_get B db k = Some v"
  using map_of_eq_Some_iff [OF forEach_distinct] forEach_get [OF assms] by metis

lemma iterate_set:
  assumes "bolt_bucket B (sh_db s)"
  shows "set (iterate B s) = {(i, v). bolt_get B (sh_db s) (InodeKey i) = Some v}"
proof -
  have "(i, v) \<in> set (iterate B s) \<longleftrightarrow> (InodeKey i, v) \<in> set (bolt_forEach B (sh_db s))" for i v
  proof
    assume "(i, v) \<in> set (iterate B s)"
    then obtain k where "(k, v) \<in> set (bolt_forEach B (sh_db s))" "length k = 8" "i = key_inode k"
      using assms by (auto simp: iterate_def)
    then show "(InodeKey i, v) \<in> set (bolt_forEach B (sh_db s))" by (simp add: InodeKey_key_inode)
  next
    assume "(InodeKey i, v) \<in> set (bolt_forEach B (sh_db s))"
    moreover have "length (InodeKey i) = 8" by (simp add: InodeKey_be_put)
    ultimately show "(i, v) \<in> set (iterate B s)"
      using assms by (force simp: iterate_def)
  qed
  then show ?thesis using forEach_set [OF assms] by auto
qed

end

section \<open>Filing\<close>

text \<open>The record a tier has on disk now, whatever is still queued.\<close>

definition committed :: "'db bolt \<Rightarrow> (bytes \<Rightarrow> u64) \<Rightarrow> 'db PoolMetaStore \<Rightarrow> int \<Rightarrow> u64 \<Rightarrow> Record option" where
  "committed B h p r ino = (case tierByRank p r of None \<Rightarrow> None
     | Some t \<Rightarrow> Option.bind (bolt_get B (sh_db (the_shard h p t ino)) (InodeKey ino)) decode_opt)"

definition filed_at :: "(bytes \<Rightarrow> u64) \<Rightarrow> 'db tierStore \<Rightarrow> nat \<Rightarrow> bytes \<Rightarrow> bytes \<Rightarrow> bool" where
  "filed_at h t k key v \<longleftrightarrow> (\<exists>ino. key = InodeKey ino \<and> tier_shardFor h t ino = k) \<and>
     (\<forall>rec. decode_opt v = Some rec \<longrightarrow> uint (TierIdx rec) = ts_rank t)"

definition filed :: "'db bolt \<Rightarrow> (bytes \<Rightarrow> u64) \<Rightarrow> 'db PoolMetaStore \<Rightarrow> bool" where
  "filed B h p \<longleftrightarrow> (\<forall>t < length (stores p). \<forall>k < length (ts_shards (stores p ! t)).
     shard_holds B (filed_at h (stores p ! t) k) (ts_shards (stores p ! t) ! k))"

lemma filed_cache [simp]: "filed B h (p\<lparr>pool_cache := c\<rparr>) = filed B h p"
  by (simp add: filed_def)

lemma tier_shardFor_upd [simp]: "length ss = length (ts_shards t) \<Longrightarrow> tier_shardFor h (t\<lparr>ts_shards := ss\<rparr>) i = tier_shardFor h t i"
  by (simp add: tier_shardFor_def)

lemma filed_at_upd [simp]: "length ss = length (ts_shards t) \<Longrightarrow> filed_at h (t\<lparr>ts_shards := ss\<rparr>) = filed_at h t"
  by (simp add: fun_eq_iff filed_at_def)

lemma filed_set_shard:
  assumes "filed B h p" "shard_holds B (filed_at h (stores p ! t) (tier_shardFor h (stores p ! t) ino)) s"
  shows "filed B h (set_shard h p t ino s)"
  unfolding filed_def
proof (intro allI impI)
  fix u k
  assume u: "u < length (stores (set_shard h p t ino s))"
    and k: "k < length (ts_shards (stores (set_shard h p t ino s) ! u))"
  show "shard_holds B (filed_at h (stores (set_shard h p t ino s) ! u) k) (ts_shards (stores (set_shard h p t ino s) ! u) ! k)"
  proof (cases "u = t")
    case True
    then show ?thesis using assms u k
      by (cases "k = tier_shardFor h (stores p ! t) ino") (auto simp: filed_def set_shard_def)
  next
    case False
    then show ?thesis using assms u k by (auto simp: filed_def set_shard_def)
  qed
qed

lemma filed_the_shard:
  assumes "filed B h p" "store_inv B p" "tierByRank p r = Some t"
  shows "shard_holds B (filed_at h (stores p ! t) (tier_shardFor h (stores p ! t) ino)) (the_shard h p t ino)"
  using assms store_inv_tier [OF assms(2,3)] tier_shardFor_less [of B "stores p ! t" h ino]
  by (simp add: filed_def the_shard_def)

lemma filed_at_own: "Version rec = RecordVersion \<Longrightarrow> uint (TierIdx rec) = ts_rank t \<Longrightarrow>
    filed_at h t (tier_shardFor h t ino) (InodeKey ino) (Encode rec)"
  by (auto simp: filed_at_def)

lemma store_inv_rank: "store_inv B p \<Longrightarrow> tierByRank p r = Some t \<Longrightarrow> ts_rank (stores p ! t) = r \<and> t \<in> set (tiers p)"
  by (simp add: store_inv_def tierByRank_def)

lemma PutBlocking_filed:
  assumes "bolt_db B" "filed B h p" "store_inv B p" "PutBlocking B h p ino rank rec = Some p'"
    "Version rec = RecordVersion" "uint (TierIdx rec) = rank"
  shows "filed B h p'"
proof (cases "tierByRank p rank")
  case None
  then show ?thesis using assms(2,4) by (simp add: PutBlocking_def)
next
  case (Some t)
  then obtain s where s: "enqueueBlocking B (the_shard h p t ino) (InodeKey ino) (Encode rec) = Some s"
    and p': "p' = (set_shard h p t ino s)\<lparr>pool_cache := cache_put (pool_cache p) ino rec\<rparr>"
    using assms(4) by (auto simp: PutBlocking_def split: option.splits)
  have "shard_holds B (filed_at h (stores p ! t) (tier_shardFor h (stores p ! t) ino)) s"
    using bolt_db.enqueueBlocking_holds [OF assms(1) s the_shard_inv(1) [OF assms(3) Some]
        filed_the_shard [OF assms(2,3) Some] filed_at_own [OF assms(5)]]
      store_inv_rank [OF assms(3) Some] assms(6) by simp
  then show ?thesis unfolding p' using filed_set_shard [OF assms(2)] by simp
qed

lemma Delete_filed:
  assumes "bolt_db B" "filed B h p" "store_inv B p"
  shows "filed B h (snd (Delete B h p ino rank))"
proof (cases "tierByRank p rank")
  case None
  then show ?thesis using assms(2) by (simp add: Delete_def)
next
  case (Some t)
  have "filed B h (set_shard h (p\<lparr>pool_cache := c\<rparr>) t ino s)" if "shard_del B (the_shard h p t ino) (InodeKey ino) = Inr s" for s c
    using filed_set_shard [of B h "p\<lparr>pool_cache := c\<rparr>" t ino s] assms(2)
      bolt_db.shard_del_holds [OF assms(1) that filed_the_shard [OF assms(2,3) Some]] by simp
  then show ?thesis using Some assms(2) by (auto simp: Delete_def Let_def split: sum.splits)
qed

lemma Get_filed: "filed B h (snd (Get B h p ino rank)) = filed B h p"
  by (auto simp: Get_def Let_def split: option.splits sum.splits)

section \<open>Iteration\<close>

lemma Iterate_set:
  assumes "bolt_db B" "store_inv B p" "filed B h p"
  shows "set (Iterate B p r) = {(i, rec). committed B h p r i = Some rec}"
proof (cases "tierByRank p r")
  case None
  then show ?thesis by (simp add: Iterate_def committed_def)
next
  case (Some t)
  let ?shs = "ts_shards (stores p ! t)"
  have inv: "tier_inv B (stores p ! t)" and t: "t < length (stores p)" using store_inv_tier [OF assms(2) Some] by simp_all
  have it: "set (iterate B sh) = {(i, v). bolt_get B (sh_db sh) (InodeKey i) = Some v}" if "sh \<in> set ?shs" for sh
    using bolt_db.iterate_set [OF assms(1)] inv that by (auto simp: tier_inv_def shard_inv_def)
  have "(i, rec) \<in> set (Iterate B p r) \<longleftrightarrow>
      (\<exists>sh \<in> set ?shs. \<exists>v. bolt_get B (sh_db sh) (InodeKey i) = Some v \<and> decode_opt v = Some rec)" for i rec
  proof -
    have "(i, rec) \<in> set (Iterate B p r) \<longleftrightarrow>
        (\<exists>sh \<in> set ?shs. \<exists>(j, v) \<in> set (iterate B sh). map_option (Pair j) (decode_opt v) = Some (i, rec))"
      by (simp add: Iterate_def Some set_map_filter case_prod_unfold)
    also have "\<dots> \<longleftrightarrow> (\<exists>sh \<in> set ?shs. \<exists>v. bolt_get B (sh_db sh) (InodeKey i) = Some v \<and> decode_opt v = Some rec)"
      using it by (intro bex_cong) auto
    finally show ?thesis .
  qed
  moreover have "(\<exists>sh \<in> set ?shs. \<exists>v. bolt_get B (sh_db sh) (InodeKey i) = Some v \<and> decode_opt v = Some rec) \<longleftrightarrow>
      committed B h p r i = Some rec" for i rec
  proof
    assume "\<exists>sh \<in> set ?shs. \<exists>v. bolt_get B (sh_db sh) (InodeKey i) = Some v \<and> decode_opt v = Some rec"
    then obtain k v where k: "k < length ?shs" "bolt_get B (sh_db (?shs ! k)) (InodeKey i) = Some v" "decode_opt v = Some rec"
      by (metis in_set_conv_nth)
    then have "filed_at h (stores p ! t) k (InodeKey i) v"
      using assms(3) t unfolding filed_def shard_holds_def by blast
    then have "k = tier_shardFor h (stores p ! t) i" by (auto simp: filed_at_def)
    then show "committed B h p r i = Some rec" using k Some by (simp add: committed_def the_shard_def)
  next
    assume "committed B h p r i = Some rec"
    then obtain v where "bolt_get B (sh_db (the_shard h p t i)) (InodeKey i) = Some v" "decode_opt v = Some rec"
      using Some by (auto simp: committed_def bind_eq_Some_conv)
    moreover have "the_shard h p t i \<in> set ?shs"
      using tier_shardFor_less [OF inv, of h i] by (simp add: the_shard_def)
    ultimately show "\<exists>sh \<in> set ?shs. \<exists>v. bolt_get B (sh_db sh) (InodeKey i) = Some v \<and> decode_opt v = Some rec" by blast
  qed
  ultimately show ?thesis by auto
qed

lemma committed_filed:
  assumes "store_inv B p" "filed B h p" "committed B h p r i = Some rec"
  shows "uint (TierIdx rec) = r" "tierByRank p r \<noteq> None"
proof -
  obtain t v where t: "tierByRank p r = Some t" "bolt_get B (sh_db (the_shard h p t i)) (InodeKey i) = Some v" "decode_opt v = Some rec"
    using assms(3) by (auto simp: committed_def bind_eq_Some_conv split: option.splits)
  with filed_the_shard [OF assms(2,1) t(1), of i] have "uint (TierIdx rec) = ts_rank (stores p ! t)"
    by (auto simp: shard_holds_def filed_at_def)
  then show "uint (TierIdx rec) = r" "tierByRank p r \<noteq> None" using store_inv_rank [OF assms(1) t(1)] t(1) by simp_all
qed

lemma IterateAll_set:
  assumes "bolt_db B" "store_inv B p" "filed B h p"
  shows "set (IterateAll B p) = {(r, i, rec). committed B h p r i = Some rec}"
proof -
  have rk: "(if uint (TierIdx rec) = 0 \<or> tierByRank p (uint (TierIdx rec)) = None then q else uint (TierIdx rec)) = q"
    if "committed B h p q i = Some rec" for q i rec
    using committed_filed [OF assms(2,3) that] by simp
  have "(r, i, rec) \<in> set (IterateAll B p) \<longleftrightarrow>
      (\<exists>t \<in> set (tiers p). r = ts_rank (stores p ! t) \<and> committed B h p r i = Some rec)" for r i rec
  proof -
    let ?f = "\<lambda>q (i, rec). (if uint (TierIdx rec) = 0 \<or> tierByRank p (uint (TierIdx rec)) = None then q else uint (TierIdx rec), i, rec)"
    have "set (IterateAll B p) = (\<Union>t \<in> set (tiers p). ?f (ts_rank (stores p ! t)) ` set (Iterate B p (ts_rank (stores p ! t))))"
      by (simp add: IterateAll_def Let_def)
    also have "\<dots> = (\<Union>t \<in> set (tiers p). Pair (ts_rank (stores p ! t)) ` set (Iterate B p (ts_rank (stores p ! t))))"
      using rk by (intro SUP_cong image_cong) (auto simp: Iterate_set [OF assms])
    finally show ?thesis by (auto simp: Iterate_set [OF assms])
  qed
  moreover have "\<exists>t \<in> set (tiers p). r = ts_rank (stores p ! t)" if "committed B h p r i = Some rec" for r i rec
    using committed_filed(2) [OF assms(2,3) that] store_inv_rank [OF assms(2)] by blast
  ultimately show ?thesis by auto
qed

text \<open>Without a queued write of the record, what is committed is what the store holds.\<close>

lemma committed_unqueued: "unqueued h p r i \<Longrightarrow> committed B h p r i = disk_record B h p r i"
  by (simp add: committed_def disk_record_def unqueued_def view_unpending split: option.splits)

end
