(* ===== verification/FsTree.thy ===== *)
theory FsTree
  imports Prelude
begin

text \<open>
  A directory tree as \<^verbatim>\<open>filepath.WalkDir\<close> of the Go standard library sees it, and a context that
  may be cancelled. \<open>FDir n e cs\<close> is a directory whose listing yields the entries \<open>cs\<close>, with an
  error when \<open>e\<close>; \<open>FReg\<close> is a regular file with what \<^verbatim>\<open>Info\<close> returns, an error being
  \<^const>\<open>None\<close>; \<open>FOther\<close> is any other entry. \<open>visits\<close> is the sequence of calls the walk makes when
  its callback skips the directories chosen by \<open>skip\<close> and no others: the callback is called once
  for every entry, before a directory's entries, and once more when listing a directory failed.
  Paths are the components below the root.
\<close>

record finfo =
  fi_ino :: u64
  fi_size :: int
  fi_mtime :: int

datatype fnode = FDir string bool "fnode list" | FReg string "finfo option" | FOther string

fun node_name :: "fnode \<Rightarrow> string" where
  "node_name (FDir n e cs) = n"
| "node_name (FReg n i) = n"
| "node_name (FOther n) = n"

datatype visit = VDir "string list" | VErr "string list" | VReg "string list" "finfo option" | VOther "string list"

fun visits :: "(string list \<Rightarrow> string \<Rightarrow> bool) \<Rightarrow> string list \<Rightarrow> fnode \<Rightarrow> visit list" where
  "visits skip p (FDir n e cs) = VDir p # (if skip p n then [] else
     (if e then [VErr p] else []) @ concat (map (\<lambda>c. visits skip (p @ [node_name c]) c) cs))"
| "visits skip p (FReg n i) = [VReg p i]"
| "visits skip p (FOther n) = [VOther p]"

text \<open>\<^verbatim>\<open>WalkDir\<close> on a root: a root that cannot be read is one call with an error.\<close>

definition walkDir :: "(string list \<Rightarrow> string \<Rightarrow> bool) \<Rightarrow> fnode option \<Rightarrow> visit list" where
  "walkDir skip root = (case root of None \<Rightarrow> [VErr []] | Some n \<Rightarrow> visits skip [] n)"

text \<open>
  A context is the number of times \<^verbatim>\<open>ctx.Err()\<close> still returns nil, or \<^const>\<open>None\<close> when it is never
  cancelled: once it reports an error it keeps doing so.
\<close>

type_synonym ctx = "nat option"

definition ctx_Err :: "ctx \<Rightarrow> bool" where
  "ctx_Err c \<longleftrightarrow> c = Some 0"

definition ctx_next :: "ctx \<Rightarrow> ctx" where
  "ctx_next c = map_option (\<lambda>n. n - 1) c"

lemma ctx_None [simp]: "\<not> ctx_Err None" "ctx_next None = None"
  by (simp_all add: ctx_Err_def ctx_next_def)

text \<open>The regular files a walk finds, and whether it met an error.\<close>

definition found_files :: "visit list \<Rightarrow> finfo set" where
  "found_files vs = {i. \<exists>p. VReg p (Some i) \<in> set vs}"

definition clean_walk :: "visit list \<Rightarrow> bool" where
  "clean_walk vs \<longleftrightarrow> (\<forall>v \<in> set vs. (\<forall>p. v \<noteq> VErr p) \<and> (\<forall>p. v \<noteq> VReg p None))"

lemma found_files_simps [simp]:
  "found_files [] = {}"
  "found_files (VReg p (Some i) # vs) = insert i (found_files vs)"
  "found_files (VReg p None # vs) = found_files vs"
  "found_files (VDir p # vs) = found_files vs"
  "found_files (VErr p # vs) = found_files vs"
  "found_files (VOther p # vs) = found_files vs"
  by (auto simp: found_files_def)

end
