(* ===== verification/MetaReconcile.thy ===== *)
theory MetaReconcile
  imports MetaIterate FsTree
begin

text \<open>
  Bringing the metadata store in line with the tiers, \<^verbatim>\<open>tiering/meta/reconcile.go\<close>: every regular
  file of every tier gets a record, and records of files that were not seen are removed. Also the
  heat decay of \<^verbatim>\<open>tiering/mdadm/placement.go\<close>, which rewrites every record.

  \<open>fs\<close> gives the tree below a mount point. The file counters are \<^verbatim>\<open>int64\<close> counters of files, far
  from their bound; the duration and the contents of the time stamp file are not modelled.
\<close>

section \<open>Definitions\<close>

record ReconcileSource =
  rs_BackingMount :: string
  rs_TierRank :: int

record ReconcileStats =
  FilesWalked :: int
  RecordsEnqueued :: int
  DeadRecords :: int
  Errors :: int
  Aborted :: bool

definition NamespaceID_of :: "(bytes \<Rightarrow> u64) \<Rightarrow> string \<Rightarrow> u64" where
  "NamespaceID_of h namespace = h (map of_char namespace)"

record 'db walk_state =
  ws_ctx :: ctx
  ws_store :: "'db PoolMetaStore"
  ws_stats :: ReconcileStats
  ws_live :: "u64 set"

definition reconcile_skip :: "string list \<Rightarrow> string \<Rightarrow> bool" where
  "reconcile_skip p name \<longleftrightarrow> name = ''.tierd-meta'' \<or> name = ''.smoothnas'' \<or> name = ''lost+found''"

text \<open>What the walk's callback does with a regular file.\<close>

definition walk_file :: "'db bolt \<Rightarrow> (bytes \<Rightarrow> u64) \<Rightarrow> u64 \<Rightarrow> int \<Rightarrow> finfo \<Rightarrow> 'db walk_state \<Rightarrow> 'db walk_state option" where
  "walk_file B h nsID tierRank fi s =
     (let ino = fi_ino fi;
          (res, p1) = Get B h (ws_store s) ino tierRank;
          s1 = s\<lparr>ws_store := p1, ws_live := insert ino (ws_live s)\<rparr>;
          rec0 = \<lparr>Version = RecordVersion, PinState = 0, TierIdx = word_of_int tierRank, NamespaceID = nsID,
                  HeatCounter = 0, LastAccessNS = 0\<rparr>
      in case res of
           Found existing \<Rightarrow>
             if NamespaceID existing = nsID \<and> Version existing = RecordVersion then Some s1
             else map_option (\<lambda>p2. s1\<lparr>ws_store := p2, ws_stats := (ws_stats s)\<lparr>RecordsEnqueued := RecordsEnqueued (ws_stats s) + 1\<rparr>\<rparr>)
               (PutBlocking B h p1 ino tierRank (rec0\<lparr>PinState := PinState existing, HeatCounter := HeatCounter existing,
                 LastAccessNS := LastAccessNS existing\<rparr>))
         | _ \<Rightarrow> map_option (\<lambda>p2. s1\<lparr>ws_store := p2, ws_stats := (ws_stats s)\<lparr>RecordsEnqueued := RecordsEnqueued (ws_stats s) + 1\<rparr>\<rparr>)
             (PutBlocking B h p1 ino tierRank rec0))"

definition count_error :: "'db walk_state \<Rightarrow> 'db walk_state" where
  "count_error s = s\<lparr>ws_stats := (ws_stats s)\<lparr>Errors := Errors (ws_stats s) + 1\<rparr>\<rparr>"

definition count_file :: "'db walk_state \<Rightarrow> 'db walk_state" where
  "count_file s = s\<lparr>ws_stats := (ws_stats s)\<lparr>FilesWalked := FilesWalked (ws_stats s) + 1\<rparr>\<rparr>"

fun walk_loop :: "'db bolt \<Rightarrow> (bytes \<Rightarrow> u64) \<Rightarrow> u64 \<Rightarrow> int \<Rightarrow> visit list \<Rightarrow> 'db walk_state \<Rightarrow> 'db walk_state option" where
  "walk_loop B h nsID tierRank [] s = Some s"
| "walk_loop B h nsID tierRank (v # vs) s =
     (if ctx_Err (ws_ctx s) then Some (s\<lparr>ws_stats := (ws_stats s)\<lparr>Aborted := True\<rparr>\<rparr>)
      else let s1 = s\<lparr>ws_ctx := ctx_next (ws_ctx s)\<rparr> in
        case v of
          VErr p \<Rightarrow> walk_loop B h nsID tierRank vs (count_error s1)
        | VDir p \<Rightarrow> walk_loop B h nsID tierRank vs s1
        | VOther p \<Rightarrow> walk_loop B h nsID tierRank vs s1
        | VReg p None \<Rightarrow> walk_loop B h nsID tierRank vs (count_error (count_file s1))
        | VReg p (Some fi) \<Rightarrow>
            (case walk_file B h nsID tierRank fi (count_file s1) of
               None \<Rightarrow> None
             | Some s2 \<Rightarrow> walk_loop B h nsID tierRank vs s2))"

definition walkTier :: "'db bolt \<Rightarrow> (bytes \<Rightarrow> u64) \<Rightarrow> (string \<Rightarrow> fnode option) \<Rightarrow> u64 \<Rightarrow> ReconcileSource \<Rightarrow>
    'db walk_state \<Rightarrow> 'db walk_state option" where
  "walkTier B h fs nsID src s =
     walk_loop B h nsID (rs_TierRank src) (walkDir reconcile_skip (fs (rs_BackingMount src))) s"

text \<open>The loop of \<^verbatim>\<open>Reconcile\<close> over the sources; \<open>live\<close> is the map of inode sets by rank.\<close>

fun walk_sources :: "'db bolt \<Rightarrow> (bytes \<Rightarrow> u64) \<Rightarrow> (string \<Rightarrow> fnode option) \<Rightarrow> u64 \<Rightarrow> ReconcileSource list \<Rightarrow>
    (int \<rightharpoonup> u64 set) \<Rightarrow> 'db walk_state \<Rightarrow> ((int \<rightharpoonup> u64 set) \<times> 'db walk_state) option" where
  "walk_sources B h fs nsID [] live s = Some (live, s)"
| "walk_sources B h fs nsID (src # srcs) live s =
     (if rs_BackingMount src = [] then walk_sources B h fs nsID srcs live s
      else if ctx_Err (ws_ctx s) then Some (live, s\<lparr>ws_stats := (ws_stats s)\<lparr>Aborted := True\<rparr>\<rparr>)
      else
        let set0 = (case live (rs_TierRank src) of None \<Rightarrow> {} | Some L \<Rightarrow> L) in
        case walkTier B h fs nsID src (s\<lparr>ws_ctx := ctx_next (ws_ctx s), ws_live := set0\<rparr>) of
          None \<Rightarrow> None
        | Some s2 \<Rightarrow> walk_sources B h fs nsID srcs (live(rs_TierRank src \<mapsto> ws_live s2)) s2)"

text \<open>\<^verbatim>\<open>sweepDead\<close>: collecting the victims, then deleting them.\<close>

definition is_victim :: "u64 \<Rightarrow> (int \<rightharpoonup> u64 set) \<Rightarrow> int \<times> u64 \<times> Record \<Rightarrow> bool" where
  "is_victim nsID live = (\<lambda>(tierRank, ino, rec).
     NamespaceID rec = nsID \<and> (case live tierRank of None \<Rightarrow> False | Some L \<Rightarrow> ino \<notin> L))"

fun collect_victims :: "u64 \<Rightarrow> (int \<rightharpoonup> u64 set) \<Rightarrow> (int \<times> u64 \<times> Record) list \<Rightarrow> ctx \<Rightarrow> (ctx \<times> (int \<times> u64) list) option" where
  "collect_victims nsID live [] c = Some (c, [])"
| "collect_victims nsID live ((tierRank, ino, rec) # rs) c =
     (if ctx_Err c then None
      else map_option (\<lambda>(c', vs). (c', if is_victim nsID live (tierRank, ino, rec) then (tierRank, ino) # vs else vs))
        (collect_victims nsID live rs (ctx_next c)))"

fun delete_victims :: "'db bolt \<Rightarrow> (bytes \<Rightarrow> u64) \<Rightarrow> (int \<times> u64) list \<Rightarrow> 'db PoolMetaStore \<times> ReconcileStats \<Rightarrow>
    'db PoolMetaStore \<times> ReconcileStats" where
  "delete_victims B h [] (p, st) = (p, st)"
| "delete_victims B h ((tierRank, ino) # vs) (p, st) =
     (case Delete B h p ino tierRank of
        (Some e, p') \<Rightarrow> delete_victims B h vs (p', st)
      | (None, p') \<Rightarrow> delete_victims B h vs (p', st\<lparr>DeadRecords := DeadRecords st + 1\<rparr>))"

definition sweepDead :: "'db bolt \<Rightarrow> (bytes \<Rightarrow> u64) \<Rightarrow> u64 \<Rightarrow> (int \<rightharpoonup> u64 set) \<Rightarrow> 'db walk_state \<Rightarrow> 'db walk_state" where
  "sweepDead B h nsID live s =
     (case collect_victims nsID live (IterateAll B (ws_store s)) (ws_ctx s) of
        None \<Rightarrow> s\<lparr>ws_stats := (ws_stats s)\<lparr>Aborted := True\<rparr>\<rparr>
      | Some (c, vs) \<Rightarrow>
          (case delete_victims B h vs (ws_store s, ws_stats s) of
             (p, st) \<Rightarrow> s\<lparr>ws_ctx := c, ws_store := p, ws_stats := st\<rparr>))"

text \<open>The path of the stamp file a completed pass writes.\<close>

definition reconcile_stamp :: "'db PoolMetaStore \<Rightarrow> string option" where
  "reconcile_stamp p = (if FastestRoot p = [] then None else Some (path_Join [FastestRoot p, ''last-reconcile'']))"

definition Reconcile :: "'db bolt \<Rightarrow> (bytes \<Rightarrow> u64) \<Rightarrow> (string \<Rightarrow> fnode option) \<Rightarrow> ctx \<Rightarrow> string \<Rightarrow> ReconcileSource list \<Rightarrow>
    'db PoolMetaStore \<Rightarrow> (ReconcileStats \<times> 'db PoolMetaStore \<times> string option) option" where
  "Reconcile B h fs c namespaceID sources p =
     (let nsID = NamespaceID_of h namespaceID;
          s0 = \<lparr>ws_ctx = c, ws_store = p, ws_stats = \<lparr>FilesWalked = 0, RecordsEnqueued = 0, DeadRecords = 0, Errors = 0,
                 Aborted = False\<rparr>, ws_live = {}\<rparr>
      in case walk_sources B h fs nsID sources Map.empty s0 of
           None \<Rightarrow> None
         | Some (live, s1) \<Rightarrow>
             let s2 = (if Aborted (ws_stats s1) then s1 else sweepDead B h nsID live s1) in
             Some (ws_stats s2, ws_store s2, if Aborted (ws_stats s2) then None else reconcile_stamp (ws_store s2)))"

text \<open>
  \<^verbatim>\<open>decayAllHeat\<close> for one pool. The callback's puts go to the shard being iterated, whose snapshot
  was taken when its iteration started, so the records visited are those at the start.
\<close>

fun decay_records :: "'db bolt \<Rightarrow> (bytes \<Rightarrow> u64) \<Rightarrow> (int \<times> u64 \<times> Record) list \<Rightarrow> 'db PoolMetaStore \<Rightarrow> nat \<Rightarrow>
    ('db PoolMetaStore \<times> nat) option" where
  "decay_records B h [] p halved = Some (p, halved)"
| "decay_records B h ((tierRank, ino, rec) # rs) p halved =
     (if HeatCounter rec = 0 then decay_records B h rs p halved
      else case PutBlocking B h p ino tierRank (rec\<lparr>HeatCounter := HeatCounter rec div 2\<rparr>) of
        None \<Rightarrow> None
      | Some p' \<Rightarrow> decay_records B h rs p' (Suc halved))"

definition decayHeat :: "'db bolt \<Rightarrow> (bytes \<Rightarrow> u64) \<Rightarrow> 'db PoolMetaStore \<Rightarrow> ('db PoolMetaStore \<times> nat) option" where
  "decayHeat B h p = decay_records B h (IterateAll B p) p 0"

section \<open>The walk\<close>

text \<open>
  A store as it is after opening, before anything else ran: the cache holds only records that are
  on disk as they are.
\<close>

definition exact_cache :: "'db bolt \<Rightarrow> (bytes \<Rightarrow> u64) \<Rightarrow> 'db PoolMetaStore \<Rightarrow> bool" where
  "exact_cache B h p \<longleftrightarrow> (\<forall>i r. cache_get (pool_cache p) i = Some r \<longrightarrow> tierByRank p (uint (TierIdx r)) \<noteq> None \<longrightarrow>
     disk_record B h p (uint (TierIdx r)) i = Some r)"

definition good_store :: "'db bolt \<Rightarrow> (bytes \<Rightarrow> u64) \<Rightarrow> 'db PoolMetaStore \<Rightarrow> bool" where
  "good_store B h p \<longleftrightarrow> store_inv B p \<and> coherent B h p \<and> filed B h p \<and> exact_cache B h p"

context bolt_reliable
begin

lemma PutBlocking_good_store:
  assumes "good_store B h p" "tierByRank p rank \<noteq> None" "Version rec = RecordVersion" "uint (TierIdx rec) = rank"
  shows "\<exists>p'. PutBlocking B h p ino rank rec = Some p' \<and> good_store B h p' \<and> tierByRank p' = tierByRank p \<and>
    disk_record B h p' = (\<lambda>r i. if r = rank \<and> i = ino then Some rec else disk_record B h p r i) \<and>
    (\<forall>r i. (r, i) \<noteq> (rank, ino) \<longrightarrow> unqueued h p r i \<longrightarrow> unqueued h p' r i)"
proof -
  have g: "store_inv B p" "coherent B h p" "filed B h p" "exact_cache B h p" using assms(1) by (simp_all add: good_store_def)
  have ci: "cache_inv (pool_cache p)" using g(1) by (simp add: store_inv_def)
  obtain p' where p': "PutBlocking B h p ino rank rec = Some p'" "store_inv B p'" "coherent B h p'" "tierByRank p' = tierByRank p"
    "disk_record B h p' = (\<lambda>r i. if r = rank \<and> i = ino then Some rec else disk_record B h p r i)"
    "\<forall>r i. (r, i) \<noteq> (rank, ino) \<longrightarrow> unqueued h p r i \<longrightarrow> unqueued h p' r i"
    using PutBlocking_good [OF g(1,2) assms(2-4)] by blast
  have c: "pool_cache p' = cache_put (pool_cache p) ino rec"
    using PutBlocking_ok [OF g(1) assms(2,3), of h ino] p'(1) by auto
  have "exact_cache B h p'"
    using g(4) assms(4) unfolding exact_cache_def p'(4,5) c by (auto dest: ic.get_put_cases [OF ci])
  with p' PutBlocking_filed [OF bolt_db_axioms g(3,1) p'(1) assms(3,4)] show ?thesis by (auto simp: good_store_def)
qed

lemma Get_good_store:
  assumes "good_store B h p" "tierByRank p rank \<noteq> None" "unqueued h p rank ino" "Get B h p ino rank = (res, p')"
  shows "good_store B h p' \<and> tierByRank p' = tierByRank p \<and> disk_record B h p' = disk_record B h p \<and>
    unqueued h p' = unqueued h p \<and>
    (case res of Found r \<Rightarrow> disk_record B h p rank ino = Some r | _ \<Rightarrow> disk_record B h p rank ino = None)"
proof -
  have g: "store_inv B p" "coherent B h p" "filed B h p" "exact_cache B h p" using assms(1) by (simp_all add: good_store_def)
  have ci: "cache_inv (pool_cache p)" using g(1) by (simp add: store_inv_def)
  note gg = Get_good [OF g(1,2) assms(2-4)]
  have f: "filed B h p'" using Get_filed [of B h p ino rank] g(3) assms(4) by simp
  have uq: "unqueued h p' = unqueued h p" using gg by (simp add: fun_eq_iff unqueued_def split: option.splits)
  show ?thesis
  proof (cases "\<exists>r. cache_get (pool_cache p) ino = Some r \<and> uint (TierIdx r) = rank")
    case True
    then obtain r where r: "cache_get (pool_cache p) ino = Some r" "uint (TierIdx r) = rank" by blast
    then have "res = Found r" "p' = p" using assms(4) by (auto simp: Get_def)
    moreover have "disk_record B h p rank ino = Some r" using g(4) r assms(2) by (auto simp: exact_cache_def)
    ultimately show ?thesis using assms(1) by simp
  next
    case False
    obtain t where t: "tierByRank p rank = Some t" using assms(2) by blast
    have disk: "disk_record B h p rank ino = Option.bind (shard_get B (the_shard h p t ino) (InodeKey ino)) decode_opt"
      using t assms(3) the_shard_inv [OF g(1) t, of h ino]
      by (simp add: disk_record_def unqueued_def view_unpending shard_get_def shard_inv_def)
    have get: "Get B h p ino rank =
      (case shard_get B (the_shard h p t ino) (InodeKey ino) of None \<Rightarrow> (Absent, p)
       | Some val \<Rightarrow> (case DecodeRecord val of Inl e \<Rightarrow> (BadRecord e, p)
           | Inr rec \<Rightarrow> (Found rec, p\<lparr>pool_cache := cache_put (pool_cache p) ino rec\<rparr>)))"
      using False t by (auto simp: Get_def Let_def split: option.splits)
    have ex: "exact_cache B h (p\<lparr>pool_cache := cache_put (pool_cache p) ino rec\<rparr>)"
      if "disk_record B h p rank ino = Some rec" for rec
      using g(4) that coherent_disk [OF g(2) that] unfolding exact_cache_def by (auto dest: ic.get_put_cases [OF ci])
    have "exact_cache B h p' \<and> (case res of Found r \<Rightarrow> disk_record B h p rank ino = Some r | _ \<Rightarrow> disk_record B h p rank ino = None)"
      using assms(4) g(4) disk ex by (auto simp: get decode_opt_def split: option.splits sum.splits)
    then show ?thesis using gg f uq by (simp add: good_store_def)
  qed
qed

end

text \<open>The record a walked file ends up with, from the one it had.\<close>

definition walked_record :: "u64 \<Rightarrow> int \<Rightarrow> Record option \<Rightarrow> Record" where
  "walked_record nsID r old = (case old of
     Some rec \<Rightarrow> rec\<lparr>NamespaceID := nsID\<rparr>
   | None \<Rightarrow> \<lparr>Version = RecordVersion, PinState = 0, TierIdx = word_of_int r, NamespaceID = nsID, HeatCounter = 0, LastAccessNS = 0\<rparr>)"

text \<open>
  The state of the walk: the files in \<open>D r\<close> of the tier of rank \<open>r\<close> have been visited, all
  others still have the record they had, with no write queued.
\<close>

definition walked :: "'db bolt \<Rightarrow> (bytes \<Rightarrow> u64) \<Rightarrow> u64 \<Rightarrow> 'db PoolMetaStore \<Rightarrow> (int \<Rightarrow> u64 set) \<Rightarrow> 'db PoolMetaStore \<Rightarrow> bool" where
  "walked B h nsID p0 D p \<longleftrightarrow> good_store B h p \<and> tierByRank p = tierByRank p0 \<and>
     (\<forall>r i. i \<notin> D r \<longrightarrow> unqueued h p r i) \<and>
     disk_record B h p = (\<lambda>r i. if i \<in> D r then Some (walked_record nsID r (disk_record B h p0 r i)) else disk_record B h p0 r i)"

definition known_rank :: "'db PoolMetaStore \<Rightarrow> int \<Rightarrow> bool" where
  "known_rank p r \<longleftrightarrow> tierByRank p r \<noteq> None \<and> 0 \<le> r \<and> r < 256"

fun visit_inode :: "visit \<Rightarrow> u64 option" where
  "visit_inode (VReg p (Some fi)) = Some (fi_ino fi)"
| "visit_inode _ = None"

lemma visit_inode_Some: "visit_inode v = Some i \<longleftrightarrow> (\<exists>p fi. v = VReg p (Some fi) \<and> i = fi_ino fi)"
  by (cases v rule: visit_inode.cases) auto

context bolt_reliable
begin

lemma walk_file_ok:
  assumes "walked B h nsID p0 D (ws_store s)" "known_rank p0 r" "fi_ino fi \<notin> D r"
  shows "\<exists>s'. walk_file B h nsID r fi s = Some s' \<and> walked B h nsID p0 (D(r := insert (fi_ino fi) (D r))) (ws_store s') \<and>
    ws_live s' = insert (fi_ino fi) (ws_live s) \<and> ws_ctx s' = ws_ctx s \<and> Aborted (ws_stats s') = Aborted (ws_stats s)"
proof -
  let ?i = "fi_ino fi" and ?p = "ws_store s"
  let ?D = "D(r := insert ?i (D r))"
  have w: "good_store B h ?p" "tierByRank ?p = tierByRank p0" "\<forall>r i. i \<notin> D r \<longrightarrow> unqueued h ?p r i"
    "disk_record B h ?p = (\<lambda>r i. if i \<in> D r then Some (walked_record nsID r (disk_record B h p0 r i)) else disk_record B h p0 r i)"
    using assms(1) by (simp_all add: walked_def)
  have kn: "tierByRank ?p r \<noteq> None" "0 \<le> r" "r < 256" using assms(2) w(2) by (simp_all add: known_rank_def)
  obtain res p1 where get: "Get B h ?p ?i r = (res, p1)" by (cases "Get B h ?p ?i r")
  have g: "good_store B h p1" "tierByRank p1 = tierByRank ?p" "disk_record B h p1 = disk_record B h ?p"
    "unqueued h p1 = unqueued h ?p"
    "case res of Found r' \<Rightarrow> disk_record B h ?p r ?i = Some r' | _ \<Rightarrow> disk_record B h ?p r ?i = None"
    using Get_good_store [OF w(1) kn(1) _ get] w(3) assms(3) by auto
  have old: "disk_record B h ?p r ?i = disk_record B h p0 r ?i" using w(4) assms(3) by simp
  have tidx: "uint (word_of_int r :: u8) = r" using kn by (simp add: uint_word_of_int)
  have put: "\<exists>p2. PutBlocking B h p1 ?i r rec = Some p2 \<and> walked B h nsID p0 ?D p2"
    if rec: "rec = walked_record nsID r (disk_record B h p0 r ?i)" and tag: "uint (TierIdx rec) = r" "Version rec = RecordVersion" for rec
  proof -
    obtain p2 where p2: "PutBlocking B h p1 ?i r rec = Some p2" "good_store B h p2" "tierByRank p2 = tierByRank p1"
      "disk_record B h p2 = (\<lambda>q i. if q = r \<and> i = ?i then Some rec else disk_record B h p1 q i)"
      "\<forall>q i. (q, i) \<noteq> (r, ?i) \<longrightarrow> unqueued h p1 q i \<longrightarrow> unqueued h p2 q i"
      using PutBlocking_good_store [OF g(1) _ tag(2,1), of ?i] kn(1) g(2) by auto
    have "disk_record B h p2 = (\<lambda>q i. if i \<in> ?D q then Some (walked_record nsID q (disk_record B h p0 q i)) else disk_record B h p0 q i)"
      using p2(4) g(3) w(4) rec by (auto simp: fun_eq_iff)
    moreover have "\<forall>q i. i \<notin> ?D q \<longrightarrow> unqueued h p2 q i" using p2(5) g(4) w(3) by (auto split: if_splits)
    ultimately show ?thesis using p2 g(2) w(2) by (auto simp: walked_def)
  qed
  let ?new = "\<lparr>Version = RecordVersion, PinState = 0, TierIdx = word_of_int r, NamespaceID = nsID, HeatCounter = 0, LastAccessNS = 0\<rparr>"
  show ?thesis
  proof (cases "disk_record B h p0 r ?i")
    case None
    then have "\<forall>x. res \<noteq> Found x" using g(5) old by (auto split: get_result.splits)
    moreover obtain p2 where "PutBlocking B h p1 ?i r ?new = Some p2" "walked B h nsID p0 ?D p2"
      using put [of ?new] None tidx by (auto simp: walked_record_def)
    ultimately show ?thesis using get by (cases res) (auto simp: walk_file_def Let_def)
  next
    case (Some rec)
    then have res: "res = Found rec" using g(5) old by (auto split: get_result.splits)
    have rec: "uint (TierIdx rec) = r" "Version rec = RecordVersion"
      using coherent_disk [of B h ?p r ?i rec] disk_record_version [of B h ?p r ?i rec] old Some w(1)
      by (simp_all add: good_store_def)
    show ?thesis
    proof (cases "NamespaceID rec = nsID")
      case True
      then have "walked_record nsID r (Some rec) = rec" by (simp add: walked_record_def)
      then have "walked B h nsID p0 ?D p1"
        using g w old Some unfolding walked_def by (auto simp: fun_eq_iff)
      then show ?thesis using get res True rec by (simp add: walk_file_def Let_def)
    next
      case False
      have eq: "?new\<lparr>PinState := PinState rec, HeatCounter := HeatCounter rec, LastAccessNS := LastAccessNS rec\<rparr> =
          walked_record nsID r (disk_record B h p0 r ?i)"
      proof -
        have "word_of_int r = TierIdx rec" using rec(1) by (metis word_of_int_uint)
        then show ?thesis using rec(2) Some by (cases rec) (simp add: walked_record_def)
      qed
      obtain p2 where "PutBlocking B h p1 ?i r (?new\<lparr>PinState := PinState rec, HeatCounter := HeatCounter rec,
          LastAccessNS := LastAccessNS rec\<rparr>) = Some p2" "walked B h nsID p0 ?D p2"
        using put [OF eq] tidx by auto
      then show ?thesis using get res False by (auto simp: walk_file_def Let_def)
    qed
  qed
qed

lemma walk_loop_ok:
  assumes "walked B h nsID p0 D (ws_store s)" "known_rank p0 r" "ws_ctx s = None"
    "distinct (List.map_filter visit_inode vs)"
    "fi_ino ` found_files vs \<inter> D r = {}"
  shows "\<exists>s'. walk_loop B h nsID r vs s = Some s' \<and>
    walked B h nsID p0 (D(r := D r \<union> fi_ino ` found_files vs)) (ws_store s') \<and>
    ws_live s' = ws_live s \<union> fi_ino ` found_files vs \<and> ws_ctx s' = None \<and> Aborted (ws_stats s') = Aborted (ws_stats s)"
  using assms
proof (induction vs arbitrary: s D)
  case Nil
  then show ?case by simp
next
  case (Cons v vs)
  let ?s1 = "s\<lparr>ws_ctx := None\<rparr>"
  have skip: ?case if "walk_loop B h nsID r (v # vs) s = walk_loop B h nsID r vs t" "ws_store t = ws_store s" "ws_ctx t = None"
    "ws_live t = ws_live s" "Aborted (ws_stats t) = Aborted (ws_stats s)" "\<And>p i. v \<noteq> VReg p (Some i)" for t
  proof -
    have f: "found_files (v # vs) = found_files vs" using that(6) by (auto simp: found_files_def)
    have "distinct (List.map_filter visit_inode vs)"
      using Cons.prems(4) that(6) by (cases v rule: visit_inode.cases) (auto simp: map_filter_simps)
    then show ?thesis using Cons.IH [of D t] Cons.prems that(1-5) unfolding f by simp
  qed
  show ?case
  proof (cases v)
    case (VReg p io)
    show ?thesis
    proof (cases io)
      case None
      show ?thesis
        by (rule skip [of "count_error (count_file ?s1)"])
          (use None VReg Cons.prems(3) in \<open>simp_all add: count_error_def count_file_def\<close>)
    next
      case (Some fi)
      let ?i = "fi_ino fi"
      have n: "?i \<notin> D r" "?i \<notin> fi_ino ` found_files vs"
        "distinct (List.map_filter visit_inode vs)"
        using Cons.prems(4,5) VReg Some
        by (auto simp: map_filter_simps set_map_filter found_files_def visit_inode_Some)
      obtain s2 where s2: "walk_file B h nsID r fi (count_file ?s1) = Some s2"
        "walked B h nsID p0 (D(r := insert ?i (D r))) (ws_store s2)" "ws_live s2 = insert ?i (ws_live s)" "ws_ctx s2 = None"
        "Aborted (ws_stats s2) = Aborted (ws_stats s)"
        using walk_file_ok [of h nsID p0 D "count_file ?s1" r fi] Cons.prems(1,2) n(1) by (auto simp: count_file_def)
      have "fi_ino ` found_files vs \<inter> (D(r := insert ?i (D r))) r = {}" using Cons.prems(5) n(2) VReg Some by auto
      from Cons.IH [OF s2(2) Cons.prems(2) s2(4) n(3) this, unfolded fun_upd_upd fun_upd_same s2(3,5)] obtain s' where s': "walk_loop B h nsID r vs s2 = Some s'"
        "walked B h nsID p0 (D(r := insert ?i (D r) \<union> fi_ino ` found_files vs)) (ws_store s')"
        "ws_live s' = insert ?i (ws_live s) \<union> fi_ino ` found_files vs" "ws_ctx s' = None" "Aborted (ws_stats s') = Aborted (ws_stats s)"
        by blast
      have "D r \<union> fi_ino ` found_files (v # vs) = insert ?i (D r) \<union> fi_ino ` found_files vs"
        "ws_live s \<union> fi_ino ` found_files (v # vs) = insert ?i (ws_live s) \<union> fi_ino ` found_files vs"
        by (auto simp: VReg Some)
      moreover have "walk_loop B h nsID r (v # vs) s = Some s'" using VReg Some s2(1) s'(1) Cons.prems(3) by simp
      ultimately show ?thesis using s' by metis
    qed
  next
    case (VErr p)
    show ?thesis by (rule skip [of "count_error ?s1"]) (use VErr Cons.prems(3) in \<open>simp_all add: count_error_def\<close>)
  next
    case (VDir p)
    show ?thesis by (rule skip [of ?s1]) (use VDir Cons.prems(3) in simp_all)
  next
    case (VOther p)
    show ?thesis by (rule skip [of ?s1]) (use VOther Cons.prems(3) in simp_all)
  qed
qed

text \<open>The sources a pass walks: those with a mount point, of known and distinct ranks, without hard links.\<close>

end

definition walk_inodes :: "(string \<Rightarrow> fnode option) \<Rightarrow> ReconcileSource \<Rightarrow> u64 list" where
  "walk_inodes fs src = List.map_filter visit_inode
     (walkDir reconcile_skip (fs (rs_BackingMount src)))"

definition sources_ok :: "'db PoolMetaStore \<Rightarrow> (string \<Rightarrow> fnode option) \<Rightarrow> ReconcileSource list \<Rightarrow> bool" where
  "sources_ok p fs srcs \<longleftrightarrow> distinct (map rs_TierRank srcs) \<and>
     (\<forall>src \<in> set srcs. rs_BackingMount src \<noteq> [] \<and> known_rank p (rs_TierRank src) \<and> distinct (walk_inodes fs src))"

text \<open>The inodes a pass sees on a tier.\<close>

definition seen :: "(string \<Rightarrow> fnode option) \<Rightarrow> ReconcileSource list \<Rightarrow> int \<Rightarrow> u64 set" where
  "seen fs srcs r = (\<Union>src \<in> {src \<in> set srcs. rs_TierRank src = r}. set (walk_inodes fs src))"

lemma seen_none: "r \<notin> rs_TierRank ` set srcs \<Longrightarrow> seen fs srcs r = {}"
  by (auto simp: seen_def image_iff)

lemma walk_inodes_found: "set (walk_inodes fs src) = fi_ino ` found_files (walkDir reconcile_skip (fs (rs_BackingMount src)))"
  by (auto simp: walk_inodes_def set_map_filter found_files_def visit_inode_Some)

context bolt_reliable
begin

lemma walk_sources_ok:
  assumes "walked B h nsID p0 D (ws_store s)" "ws_ctx s = None" "sources_ok p0 fs srcs" "\<not> Aborted (ws_stats s)"
    "\<forall>src \<in> set srcs. D (rs_TierRank src) = {} \<and> live (rs_TierRank src) = None"
  shows "\<exists>s'. walk_sources B h fs nsID srcs live s =
      Some (\<lambda>r. if r \<in> rs_TierRank ` set srcs then Some (seen fs srcs r) else live r, s') \<and>
    walked B h nsID p0 (\<lambda>r. D r \<union> seen fs srcs r) (ws_store s') \<and> ws_ctx s' = None \<and> \<not> Aborted (ws_stats s')"
  using assms
proof (induction srcs arbitrary: D live s)
  case Nil
  then show ?case by (simp add: seen_def)
next
  case (Cons src srcs)
  let ?r = "rs_TierRank src" and ?W = "set (walk_inodes fs src)"
  have src: "rs_BackingMount src \<noteq> []" "known_rank p0 ?r" "distinct (walk_inodes fs src)" "?r \<notin> rs_TierRank ` set srcs"
    "sources_ok p0 fs srcs" "D ?r = {}" "live ?r = None"
    using Cons.prems(3,5) by (auto simp: sources_ok_def)
  obtain s2 where s2: "walkTier B h fs nsID src (s\<lparr>ws_ctx := None, ws_live := {}\<rparr>) = Some s2"
    "walked B h nsID p0 (D(?r := ?W)) (ws_store s2)" "ws_live s2 = ?W" "ws_ctx s2 = None" "\<not> Aborted (ws_stats s2)"
    using walk_loop_ok [of h nsID p0 D "s\<lparr>ws_ctx := None, ws_live := {}\<rparr>" ?r "walkDir reconcile_skip (fs (rs_BackingMount src))"]
      Cons.prems(1,4) src(2,3,6) walk_inodes_found [of fs src] by (auto simp: walkTier_def walk_inodes_def)
  have step: "walk_sources B h fs nsID (src # srcs) live s = walk_sources B h fs nsID srcs (live(?r \<mapsto> ?W)) s2"
    using src(1,7) s2(1,3) Cons.prems(2) by simp
  have "\<forall>src' \<in> set srcs. (D(?r := ?W)) (rs_TierRank src') = {} \<and> (live(?r \<mapsto> ?W)) (rs_TierRank src') = None"
    using Cons.prems(5) src(4) by (metis fun_upd_apply imageI list.set_intros(2))
  from Cons.IH [OF s2(2,4) src(5) s2(5) this] obtain s' where s':
    "walk_sources B h fs nsID srcs (live(?r \<mapsto> ?W)) s2 =
      Some (\<lambda>r. if r \<in> rs_TierRank ` set srcs then Some (seen fs srcs r) else (live(?r \<mapsto> ?W)) r, s')"
    "walked B h nsID p0 (\<lambda>r. (D(?r := ?W)) r \<union> seen fs srcs r) (ws_store s')" "ws_ctx s' = None" "\<not> Aborted (ws_stats s')" by blast
  have none: "seen fs srcs ?r = {}" using src(4) by (rule seen_none)
  have "seen fs (src # srcs) r = (if r = ?r then ?W \<union> seen fs srcs r else seen fs srcs r)" for r
    by (auto simp: seen_def)
  then have sn: "seen fs (src # srcs) r = (if r = ?r then ?W else seen fs srcs r)" for r
    using none by simp
  from none have da: "(\<lambda>r. (D(?r := ?W)) r \<union> seen fs srcs r) = (\<lambda>r. D r \<union> seen fs (src # srcs) r)"
    using src(6) by (auto simp: fun_eq_iff sn)
  have lb: "(\<lambda>r. if r \<in> rs_TierRank ` set srcs then Some (seen fs srcs r) else (live(?r \<mapsto> ?W)) r) =
      (\<lambda>r. if r \<in> rs_TierRank ` set (src # srcs) then Some (seen fs (src # srcs) r) else live r)"
    using src(4) by (auto simp: fun_eq_iff sn)
  show ?case unfolding step s'(1) lb using s'(2) [unfolded da] s'(3,4) by blast
qed

lemma collect_victims_all:
  "collect_victims nsID live rs None = Some (None, map (\<lambda>(r, i, rec). (r, i)) (filter (is_victim nsID live) rs))"
  by (induction rs) auto

lemma delete_victims_ok:
  assumes "store_inv B p" "\<forall>(r, i) \<in> set vs. tierByRank p r \<noteq> None \<and> unqueued h p r i"
  shows "\<exists>p' st'. delete_victims B h vs (p, st) = (p', st') \<and> store_inv B p' \<and> Aborted st' = Aborted st \<and>
    DeadRecords st' = DeadRecords st + int (length vs) \<and>
    disk_record B h p' = (\<lambda>r i. if (r, i) \<in> set vs then None else disk_record B h p r i)"
  using assms
proof (induction vs arbitrary: p st)
  case (Cons v vs)
  obtain r i where v: "v = (r, i)" by (cases v)
  obtain t where t: "tierByRank p r = Some t" "unqueued h p r i" using Cons.prems(2) v by auto
  obtain p1 where p1: "Delete B h p i r = (None, p1)" "store_inv B p1" "tierByRank p1 = tierByRank p"
    "disk_record B h p1 = (\<lambda>q j. if q = r \<and> j = i then None else disk_record B h p q j)"
    "\<forall>q j. unqueued h p q j \<longrightarrow> unqueued h p1 q j"
    using Delete_ok [OF Cons.prems(1) t] by blast
  have "\<forall>(r, i) \<in> set vs. tierByRank p1 r \<noteq> None \<and> unqueued h p1 r i" using Cons.prems(2) p1(3,5) by auto
  from Cons.IH [OF p1(2) this, of "st\<lparr>DeadRecords := DeadRecords st + 1\<rparr>"] show ?case
    using v p1(1,4) by (auto simp: fun_eq_iff)
qed simp

text \<open>What a tier holds after a pass, from what it held before.\<close>

end

definition reconciled :: "u64 \<Rightarrow> int \<Rightarrow> u64 set \<Rightarrow> u64 \<Rightarrow> Record option \<Rightarrow> Record option" where
  "reconciled nsID r live i old =
     (if i \<in> live then Some (walked_record nsID r old)
      else case old of Some rec \<Rightarrow> if NamespaceID rec = nsID then None else Some rec | None \<Rightarrow> None)"

definition at_rest :: "(bytes \<Rightarrow> u64) \<Rightarrow> 'db PoolMetaStore \<Rightarrow> bool" where
  "at_rest h p \<longleftrightarrow> (\<forall>r i. unqueued h p r i)"

context bolt_reliable
begin

lemma sweepDead_ok:
  assumes w: "walked B h nsID p0 D (ws_store s)" and c: "ws_ctx s = None" and na: "\<not> Aborted (ws_stats s)"
    and live: "\<And>r. live r = (if r \<in> R then Some (D r) else None)" and D: "\<And>r. r \<notin> R \<Longrightarrow> D r = {}"
  shows "\<not> Aborted (ws_stats (sweepDead B h nsID live s)) \<and>
    disk_record B h (ws_store (sweepDead B h nsID live s)) =
      (\<lambda>r i. if r \<in> R then reconciled nsID r (D r) i (disk_record B h p0 r i) else disk_record B h p0 r i)"
proof -
  let ?p = "ws_store s"
  have g: "good_store B h ?p" "\<forall>r i. i \<notin> D r \<longrightarrow> unqueued h ?p r i"
    "disk_record B h ?p = (\<lambda>r i. if i \<in> D r then Some (walked_record nsID r (disk_record B h p0 r i)) else disk_record B h p0 r i)"
    using w by (simp_all add: walked_def)
  then have si: "store_inv B ?p" "filed B h ?p" by (simp_all add: good_store_def)
  define vs where "vs = map (\<lambda>(r, i, rec). (r, i)) (filter (is_victim nsID live) (IterateAll B ?p))"
  have mem: "(r, i) \<in> set vs \<longleftrightarrow> r \<in> R \<and> i \<notin> D r \<and> (\<exists>rec. disk_record B h p0 r i = Some rec \<and> NamespaceID rec = nsID)" for r i
  proof -
    have "(r, i) \<in> set vs \<longleftrightarrow> (\<exists>rec. committed B h ?p r i = Some rec \<and> NamespaceID rec = nsID \<and> r \<in> R \<and> i \<notin> D r)"
      by (force simp: vs_def IterateAll_set [OF bolt_db_axioms si] is_victim_def live split: if_splits)
    also have "\<dots> \<longleftrightarrow> r \<in> R \<and> i \<notin> D r \<and> (\<exists>rec. disk_record B h p0 r i = Some rec \<and> NamespaceID rec = nsID)"
    proof (cases "i \<in> D r")
      case False
      then have "committed B h ?p r i = disk_record B h p0 r i"
        using g(2,3) committed_unqueued [of h ?p r i B] by simp
      then show ?thesis by auto
    qed simp
    finally show ?thesis .
  qed
  have "tierByRank ?p r \<noteq> None \<and> unqueued h ?p r i" if rv: "(r, i) \<in> set vs" for r i
  proof -
    have "disk_record B h ?p r i \<noteq> None" using rv mem g(3) by auto
    then have "tierByRank ?p r \<noteq> None" by (auto simp: disk_record_def split: option.splits)
    with rv mem g(2) show ?thesis by blast
  qed
  then have all: "\<forall>(r, i) \<in> set vs. tierByRank ?p r \<noteq> None \<and> unqueued h ?p r i" by auto
  obtain p' st' where d: "delete_victims B h vs (?p, ws_stats s) = (p', st')" "Aborted st' = Aborted (ws_stats s)"
    "disk_record B h p' = (\<lambda>r i. if (r, i) \<in> set vs then None else disk_record B h ?p r i)"
    using delete_victims_ok [OF si(1) all, of "ws_stats s"] by blast
  then have sw: "sweepDead B h nsID live s = s\<lparr>ws_ctx := None, ws_store := p', ws_stats := st'\<rparr>"
    by (simp add: sweepDead_def c collect_victims_all vs_def)
  have "disk_record B h p' r i = (if r \<in> R then reconciled nsID r (D r) i (disk_record B h p0 r i) else disk_record B h p0 r i)" for r i
    using D [of r] mem [of r i] g(3) d(3) by (auto simp: reconciled_def split: option.splits)
  then show ?thesis using sw d(2) na by (simp add: fun_eq_iff)
qed

lemma Reconcile_ok:
  assumes "good_store B h p" "at_rest h p" "sources_ok p fs srcs"
  shows "\<exists>st p'. Reconcile B h fs None ns srcs p = Some (st, p', reconcile_stamp p') \<and> \<not> Aborted st \<and>
    disk_record B h p' = (\<lambda>r i. if r \<in> rs_TierRank ` set srcs
      then reconciled (NamespaceID_of h ns) r (seen fs srcs r) i (disk_record B h p r i) else disk_record B h p r i)"
proof -
  let ?ns = "NamespaceID_of h ns"
  define s0 where "s0 = \<lparr>ws_ctx = None, ws_store = p, ws_stats = \<lparr>FilesWalked = 0, RecordsEnqueued = 0, DeadRecords = 0,
     Errors = 0, Aborted = False\<rparr>, ws_live = {}\<rparr>"
  have w0: "walked B h ?ns p (\<lambda>r. {}) (ws_store s0)"
    using assms(1,2) by (simp add: walked_def at_rest_def s0_def)
  obtain s1 where s1: "walk_sources B h fs ?ns srcs Map.empty s0 =
      Some (\<lambda>r. if r \<in> rs_TierRank ` set srcs then Some (seen fs srcs r) else None, s1)"
    "walked B h ?ns p (seen fs srcs) (ws_store s1)" "ws_ctx s1 = None" "\<not> Aborted (ws_stats s1)"
    using walk_sources_ok [OF w0 _ assms(3), of Map.empty] by (auto simp: s0_def)
  let ?live = "\<lambda>r. if r \<in> rs_TierRank ` set srcs then Some (seen fs srcs r) else None"
  from sweepDead_ok [OF s1(2-4), of ?live "rs_TierRank ` set srcs"] seen_none [of _ srcs fs]
  have "\<not> Aborted (ws_stats (sweepDead B h ?ns ?live s1))"
    "disk_record B h (ws_store (sweepDead B h ?ns ?live s1)) = (\<lambda>r i. if r \<in> rs_TierRank ` set srcs
      then reconciled ?ns r (seen fs srcs r) i (disk_record B h p r i) else disk_record B h p r i)" by auto
  then show ?thesis using s1(1,4) by (simp add: Reconcile_def Let_def s0_def)
qed

lemma decay_records_ok:
  assumes "good_store B h p" "\<forall>(r, i, rec) \<in> set rs. tierByRank p r \<noteq> None \<and> uint (TierIdx rec) = r \<and> Version rec = RecordVersion"
    "\<forall>(r, i, rec) \<in> set rs. disk_record B h p0 r i = Some rec"
    "disk_record B h p = (\<lambda>r i. if (r, i) \<in> S then map_option (\<lambda>rec. rec\<lparr>HeatCounter := HeatCounter rec div 2\<rparr>) (disk_record B h p0 r i)
       else disk_record B h p0 r i)"
  shows "\<exists>p' n. decay_records B h rs p k = Some (p', n) \<and> good_store B h p' \<and>
    disk_record B h p' = (\<lambda>r i. if (r, i) \<in> S \<or> (\<exists>rec. (r, i, rec) \<in> set rs)
      then map_option (\<lambda>rec. rec\<lparr>HeatCounter := HeatCounter rec div 2\<rparr>) (disk_record B h p0 r i) else disk_record B h p0 r i)"
  using assms
proof (induction rs arbitrary: p S k)
  case (Cons x rs)
  obtain r i rec where x: "x = (r, i, rec)" by (cases x) auto
  have rec: "tierByRank p r \<noteq> None" "uint (TierIdx rec) = r" "Version rec = RecordVersion" "disk_record B h p0 r i = Some rec"
    using Cons.prems(2,3) x by auto
  have S: "(\<lambda>q j. if (q, j) \<in> insert (r, i) S \<or> (\<exists>rec. (q, j, rec) \<in> set rs) then f q j else g q j) =
      (\<lambda>q j. if (q, j) \<in> S \<or> (\<exists>rec. (q, j, rec) \<in> set (x # rs)) then f q j else g q j)" for f g :: "int \<Rightarrow> u64 \<Rightarrow> Record option"
    by (auto simp: fun_eq_iff x)
  have rest: "\<forall>(r, i, rec) \<in> set rs. disk_record B h p0 r i = Some rec" using Cons.prems(3) by simp
  show ?case
  proof (cases "HeatCounter rec = 0")
    case True
    then have "rec\<lparr>HeatCounter := HeatCounter rec div 2\<rparr> = rec" by simp
    then have "disk_record B h p = (\<lambda>q j. if (q, j) \<in> insert (r, i) S
        then map_option (\<lambda>rec. rec\<lparr>HeatCounter := HeatCounter rec div 2\<rparr>) (disk_record B h p0 q j) else disk_record B h p0 q j)"
      using Cons.prems(4) rec(4) by (auto simp: fun_eq_iff)
    from Cons.IH [OF Cons.prems(1) _ rest this] Cons.prems(2) show ?thesis using True x unfolding S by simp
  next
    case False
    obtain p1 where p1: "PutBlocking B h p i r (rec\<lparr>HeatCounter := HeatCounter rec div 2\<rparr>) = Some p1" "good_store B h p1"
      "tierByRank p1 = tierByRank p"
      "disk_record B h p1 = (\<lambda>q j. if q = r \<and> j = i then Some (rec\<lparr>HeatCounter := HeatCounter rec div 2\<rparr>) else disk_record B h p q j)"
      using PutBlocking_good_store [OF Cons.prems(1) rec(1), of "rec\<lparr>HeatCounter := HeatCounter rec div 2\<rparr>" i] rec(2,3) by auto
    have d1: "disk_record B h p1 = (\<lambda>q j. if (q, j) \<in> insert (r, i) S
        then map_option (\<lambda>rec. rec\<lparr>HeatCounter := HeatCounter rec div 2\<rparr>) (disk_record B h p0 q j) else disk_record B h p0 q j)"
      using p1(4) Cons.prems(4) rec(4) by (auto simp: fun_eq_iff)
    have "\<forall>(r, i, rec) \<in> set rs. tierByRank p1 r \<noteq> None \<and> uint (TierIdx rec) = r \<and> Version rec = RecordVersion"
      using Cons.prems(2) p1(3) by simp
    from Cons.IH [OF p1(2) this rest d1] show ?thesis using False x p1(1) unfolding S by simp
  qed
qed simp

lemma decayHeat_ok:
  assumes "good_store B h p" "at_rest h p"
  shows "\<exists>p' n. decayHeat B h p = Some (p', n) \<and> good_store B h p' \<and>
    disk_record B h p' = (\<lambda>r i. map_option (\<lambda>rec. rec\<lparr>HeatCounter := HeatCounter rec div 2\<rparr>) (disk_record B h p r i))"
proof -
  have si: "store_inv B p" "filed B h p" using assms(1) by (simp_all add: good_store_def)
  have cm: "committed B h p r i = disk_record B h p r i" for r i
    using assms(2) by (intro committed_unqueued) (simp add: at_rest_def)
  have it: "set (IterateAll B p) = {(r, i, rec). disk_record B h p r i = Some rec}"
    using IterateAll_set [OF bolt_db_axioms si] by (simp add: cm)
  have "\<forall>(r, i, rec) \<in> set (IterateAll B p). tierByRank p r \<noteq> None \<and> uint (TierIdx rec) = r \<and> Version rec = RecordVersion"
    using committed_filed [OF si] disk_record_version by (auto simp: it cm)
  from decay_records_ok [OF assms(1) this, of p "{}" 0] it obtain p' n where p': "decay_records B h (IterateAll B p) p 0 = Some (p', n)"
    "good_store B h p'" "disk_record B h p' = (\<lambda>r i. if \<exists>rec. disk_record B h p r i = Some rec
      then map_option (\<lambda>rec. rec\<lparr>HeatCounter := HeatCounter rec div 2\<rparr>) (disk_record B h p r i) else disk_record B h p r i)" by auto
  have "disk_record B h p' = (\<lambda>r i. map_option (\<lambda>rec. rec\<lparr>HeatCounter := HeatCounter rec div 2\<rparr>) (disk_record B h p r i))"
    unfolding p'(3) by (auto simp: fun_eq_iff)
  with p'(1,2) show ?thesis by (simp add: decayHeat_def)
qed

end

section \<open>Properties\<close>

lemma sample_filed: "filed mem_bolt zero_hash sample_store"
proof -
  have len: "length (stores sample_store) = 3" using arg_cong [OF sample_stores(2), of length] by simp
  have rk: "ts_rank (stores sample_store ! 0) = 1"
    using store_inv_rank [OF sample_inv, of 1 0] by (simp add: sample_rank)
  have sh: "ts_shards (stores sample_store ! t) = [[init_shard [(InodeKey 7, Encode sample_record)] 0], [init_shard [] 0], [init_shard [] 0]] ! t"
    if "t < 3" for t
    using that len by (metis nth_map sample_stores(2))
  have "shard_holds mem_bolt (filed_at zero_hash (stores sample_store ! t) 0) (ts_shards (stores sample_store ! t) ! 0)" if "t < 3" for t
  proof (cases "t = 0")
    case True
    have "decode_opt (Encode sample_record) = Some sample_record" by (simp add: sample_record_def)
    then show ?thesis using True rk sh [of 0]
      by (auto simp: shard_holds_def filed_at_def mem_bolt_def init_shard_def tier_shardFor_def zero_hash_def sample_record_def
          split: if_splits)
  next
    case False
    with that have "t = 1 \<or> t = 2" by auto
    then show ?thesis using sh [of t] by (auto simp: shard_holds_def mem_bolt_def init_shard_def)
  qed
  moreover have "length (ts_shards (stores sample_store ! t)) = 1" if "t < 3" for t
    using sh [OF that] that by (auto simp: less_Suc_eq eval_nat_numeral)
  ultimately show ?thesis by (simp add: filed_def len)
qed

lemma sample_good: "good_store mem_bolt zero_hash sample_store" "at_rest zero_hash sample_store"
  by (simp_all add: good_store_def sample_inv sample_coherent sample_filed sample_unqueued at_rest_def exact_cache_def
      sample_stores newInodeCache_def cache_get_def cacheShards_def cache_shardFor_def)


definition sample_fs :: "string \<Rightarrow> fnode option" where
  "sample_fs m = Some (FDir ''a'' False [FReg ''new'' (Some \<lparr>fi_ino = 5, fi_size = 1, fi_mtime = 0\<rparr>)])"

definition sample_sources :: "ReconcileSource list" where
  "sample_sources = [\<lparr>rs_BackingMount = ''/mnt/a'', rs_TierRank = 1\<rparr>]"

lemma sample_sources_ok: "sources_ok sample_store fs sample_sources" if "distinct (walk_inodes fs (hd sample_sources))"
  using that by (simp add: sources_ok_def sample_sources_def known_rank_def sample_rank)


text \<open>
  C30. A directory that cannot be listed loses the records of everything below it: a pass over a tier
  whose root fails to list is not aborted, sees no file, and removes every record of its namespace
  from the tier, pins included, although the files are still there.
\<close>

theorem Reconcile_unreadable_sweeps:
  assumes "bolt_reliable B" "good_store B h p" "at_rest h p" "known_rank p (rs_TierRank src)" "rs_BackingMount src \<noteq> []"
    "fs (rs_BackingMount src) = Some (FDir n True []) \<or> fs (rs_BackingMount src) = None"
    "disk_record B h p (rs_TierRank src) i = Some rec" "NamespaceID rec = NamespaceID_of h ns"
  shows "\<exists>st p'. Reconcile B h fs None ns [src] p = Some (st, p', reconcile_stamp p') \<and> \<not> Aborted st \<and>
    disk_record B h p' (rs_TierRank src) i = None"
proof -
  have w: "walk_inodes fs src = []"
    using assms(6) by (auto simp: walk_inodes_def walkDir_def map_filter_simps)
  then have "sources_ok p fs [src]" using assms(4,5) by (simp add: sources_ok_def)
  from bolt_reliable.Reconcile_ok [OF assms(1-3) this, of ns] w assms(7,8) show ?thesis
    by (auto simp: reconciled_def seen_def)
qed

theorem Reconcile_unreadable_sweeps_witness:
  "\<exists>st p'. Reconcile mem_bolt zero_hash (\<lambda>m. None) None ''tank'' sample_sources sample_store = Some (st, p', reconcile_stamp p') \<and>
     \<not> Aborted st \<and> disk_record mem_bolt zero_hash p' 1 7 = None"
  using Reconcile_unreadable_sweeps [OF mem.bolt_reliable_axioms sample_good, of "\<lparr>rs_BackingMount = ''/mnt/a'', rs_TierRank = 1\<rparr>" "\<lambda>m. None"
      "[]" 7 sample_record "''tank''"]
  by (simp add: sample_sources_def known_rank_def sample_rank sample_disk sample_record_def NamespaceID_of_def zero_hash_def)



end
