(* ===== verification/PlacementMove.thy ===== *)
theory PlacementMove
  imports Placement MetaReconcile
begin

text \<open>
  Moving one file between tiers, \<^verbatim>\<open>moveForPlacement\<close> and its helpers in
  \<^verbatim>\<open>tiering/mdadm/placement.go\<close>: copy to a temporary name on the destination, link it into place,
  unlink the source, move the metadata record; and the completion of a move that was interrupted
  before the unlink.

  The file system is a map from paths to files and directories; directories created for the
  destination and symbolic links are not modelled. Every system call may fail: the record \<open>faults\<close>
  says which calls of this move do. Nothing else touches the files during the move.
\<close>

section \<open>Definitions\<close>

record fentry =
  fe_ino :: u64
  fe_data :: bytes
  fe_mtime :: int
  fe_mode :: nat
  fe_dir :: bool

type_synonym files = "string \<rightharpoonup> fentry"

text \<open>
  \<^verbatim>\<open>filesHaveSameContent\<close> reads both files in chunks of \<open>n\<close> bytes; a short chunk is the end of a
  file.
\<close>

function same_chunks :: "nat \<Rightarrow> bytes \<Rightarrow> bytes \<Rightarrow> bool" where
  "same_chunks n xs ys =
     (let a = take n xs; b = take n ys in
      if length a \<noteq> length b \<or> a \<noteq> b then False
      else let aDone = length a < n; bDone = length b < n in
        if aDone \<or> bDone \<or> n = 0 then aDone = bDone
        else same_chunks n (drop n xs) (drop n ys))"
  by pat_completeness auto
termination
  by (relation "measure (\<lambda>(n, xs, ys). length xs)") auto

declare same_chunks.simps [simp del]

definition compare_chunk :: nat where
  "compare_chunk = 128 * 1024"

text \<open>
  The calls that fail. \<open>f_compare\<close>: comparing met a read error, which is reported as an error (True)
  or as a difference (False). \<open>f_copy\<close>: copying failed after so many bytes.
\<close>

record faults =
  f_src_unmounted :: bool
  f_dst_unmounted :: bool
  f_mkdir :: bool
  f_lstat_dst :: bool
  f_stat_src :: bool
  f_compare :: "bool option"
  f_rm_stale :: bool
  f_open_src :: bool
  f_create_tmp :: bool
  f_copy :: "nat option"
  f_close_tmp :: bool
  f_chtimes :: bool
  f_link :: bool
  f_rm_tmp :: bool
  f_cleanup :: bool
  f_rm_src :: bool
  f_rollback :: bool
  f_stat_dst :: bool

datatype place_error = SrcUnmounted | DstUnmounted | MkdirDest | CompareDup | UnlinkStalled | DstExists
  | StatDest | StatSrc | CopyErr | InstallErr | UnlinkSrc

record 'db world =
  w_files :: files
  w_store :: "'db PoolMetaStore option"
  w_sysfs :: "(string \<times> string) list"
  w_degraded :: "string list"

definition filesHaveSameContent :: "bool option \<Rightarrow> fentry \<Rightarrow> fentry \<Rightarrow> bool option" where
  "filesHaveSameContent fault a b =
     (case fault of
        Some True \<Rightarrow> None
      | Some False \<Rightarrow> Some False
      | None \<Rightarrow> Some (same_chunks compare_chunk (fe_data a) (fe_data b)))"

definition os_remove :: "bool \<Rightarrow> string \<Rightarrow> files \<Rightarrow> files" where
  "os_remove fault path fs = (if fault then fs else fs(path := None))"

definition copyFileContents :: "faults \<Rightarrow> fentry \<Rightarrow> u64 \<Rightarrow> int \<Rightarrow> string \<Rightarrow> files \<Rightarrow> bool \<times> files" where
  "copyFileContents flt src newIno now dst fs =
     (let f = \<lparr>fe_ino = newIno, fe_data = fe_data src, fe_mtime = now, fe_mode = fe_mode src, fe_dir = False\<rparr> in
      if f_open_src flt then (False, fs)
      else if f_create_tmp flt \<or> fs dst \<noteq> None then (False, fs)
      else case f_copy flt of
        Some n \<Rightarrow> (False, fs(dst \<mapsto> f\<lparr>fe_data := take n (fe_data src)\<rparr>))
      | None \<Rightarrow> (\<not> f_close_tmp flt, fs(dst \<mapsto> f)))"

definition chtimes :: "bool \<Rightarrow> string \<Rightarrow> int \<Rightarrow> files \<Rightarrow> files" where
  "chtimes fault path t fs = (if fault then fs else fs(path := map_option (\<lambda>f. f\<lparr>fe_mtime := t\<rparr>) (fs path)))"

definition installPlacementCopy :: "faults \<Rightarrow> string \<Rightarrow> string \<Rightarrow> files \<Rightarrow> bool \<times> files" where
  "installPlacementCopy flt tmpPath dstPath fs =
     (if f_link flt \<or> fs dstPath \<noteq> None then (False, fs)
      else let fs1 = fs(dstPath := fs tmpPath) in
        if f_rm_tmp flt then (False, fs1) else (True, fs1(tmpPath := None)))"

text \<open>\<^verbatim>\<open>forgetLowerInode\<close>; the pool is its UUID and its tier list, if the database knows it.\<close>

definition forgetLowerInode :: "(string \<times> string list) option \<Rightarrow> string \<Rightarrow> u64 \<Rightarrow> (string \<times> string) list \<Rightarrow> (string \<times> string) list" where
  "forgetLowerInode pool tierMountPath lowerIno log =
     (case pool of
        None \<Rightarrow> log
      | Some (uuid, tierList) \<Rightarrow>
          if uuid = [] then log
          else case smoothfsTierIndex tierList tierMountPath of
            None \<Rightarrow> log
          | Some tier \<Rightarrow> log @ [(path_Join [''/sys/fs/smoothfs'', uuid, ''forget_lower''],
              itoa_nat tier @ '' '' @ itoa_nat (unat lowerIno))])"

definition targetMountReady :: "bool \<Rightarrow> MdadmManagedTargetRow \<Rightarrow> 'db world \<Rightarrow> bool \<times> 'db world" where
  "targetMountReady unmounted t w =
     (if unmounted then (False, w\<lparr>w_degraded := w_degraded w @ [TierTargetID t]\<rparr>) else (True, w))"

text \<open>The record of the moved file, and its hand-over: written for the destination, deleted for the source.\<close>

definition dest_record :: "u64 \<Rightarrow> u64 \<Rightarrow> int \<Rightarrow> get_result \<Rightarrow> Record" where
  "dest_record nsID now destRank had =
     (let rec = \<lparr>Version = RecordVersion, PinState = 0, TierIdx = word_of_int destRank, NamespaceID = nsID,
                 HeatCounter = 0, LastAccessNS = now\<rparr> in
      case had of Found r \<Rightarrow> rec\<lparr>PinState := PinState r, HeatCounter := HeatCounter r\<rparr> | _ \<Rightarrow> rec)"

definition hand_over :: "'db bolt \<Rightarrow> (bytes \<Rightarrow> u64) \<Rightarrow> u64 \<Rightarrow> u64 \<Rightarrow> get_result \<Rightarrow> u64 \<Rightarrow> int \<Rightarrow> u64 option \<Rightarrow> int \<Rightarrow>
    'db PoolMetaStore \<Rightarrow> 'db PoolMetaStore option" where
  "hand_over B h nsID now had srcIno srcRank dstIno destRank p =
     (case (case dstIno of None \<Rightarrow> Some p | Some i \<Rightarrow> PutBlocking B h p i destRank (dest_record nsID now destRank had)) of
        None \<Rightarrow> None
      | Some p1 \<Rightarrow> Some (snd (Delete B h p1 srcIno srcRank)))"

definition read_record :: "'db bolt \<Rightarrow> (bytes \<Rightarrow> u64) \<Rightarrow> u64 \<Rightarrow> int \<Rightarrow> 'db world \<Rightarrow> get_result \<times> 'db world" where
  "read_record B h ino rk w =
     (case w_store w of
        None \<Rightarrow> (Absent, w)
      | Some p \<Rightarrow> (case Get B h p ino rk of (res, p') \<Rightarrow> (res, w\<lparr>w_store := Some p'\<rparr>)))"

text \<open>What both ends of a move do once the source is gone.\<close>

definition finish_move :: "'db bolt \<Rightarrow> (bytes \<Rightarrow> u64) \<Rightarrow> faults \<Rightarrow> (string \<times> string list) option \<Rightarrow> u64 \<Rightarrow> u64 \<Rightarrow>
    get_result \<Rightarrow> string \<Rightarrow> u64 \<Rightarrow> int \<Rightarrow> string \<Rightarrow> int \<Rightarrow> 'db world \<Rightarrow> (place_error option \<times> 'db world) option" where
  "finish_move B h flt pool nsID now had srcMount srcIno srcRank dstPath destRank w =
     (let w1 = w\<lparr>w_sysfs := forgetLowerInode pool srcMount srcIno (w_sysfs w)\<rparr> in
      case w_store w1 of
        None \<Rightarrow> Some (None, w1)
      | Some p \<Rightarrow>
          map_option (\<lambda>p'. (None, w1\<lparr>w_store := Some p'\<rparr>))
            (hand_over B h nsID now had srcIno srcRank
              (if f_stat_dst flt then None else map_option fe_ino (w_files w1 dstPath)) destRank p))"

text \<open>The destination exists: complete a stalled move, or refuse.\<close>

definition stalled_move :: "'db bolt \<Rightarrow> (bytes \<Rightarrow> u64) \<Rightarrow> faults \<Rightarrow> (string \<times> string list) option \<Rightarrow> u64 \<Rightarrow> u64 \<Rightarrow>
    string \<Rightarrow> string \<Rightarrow> int \<Rightarrow> string \<Rightarrow> fentry \<Rightarrow> int \<Rightarrow> 'db world \<Rightarrow> (place_error option \<times> 'db world) option" where
  "stalled_move B h flt pool nsID now srcMount srcPath srcRank dstPath dstInfo destRank w =
     (case (if f_stat_src flt then None else w_files w srcPath) of
        None \<Rightarrow> Some (Some DstExists, w)
      | Some srcInfo \<Rightarrow>
          if fe_dir srcInfo \<or> length (fe_data dstInfo) \<noteq> length (fe_data srcInfo) then Some (Some DstExists, w)
          else case filesHaveSameContent (f_compare flt) srcInfo dstInfo of
            None \<Rightarrow> Some (Some CompareDup, w)
          | Some False \<Rightarrow> Some (Some DstExists, w)
          | Some True \<Rightarrow>
              (case read_record B h (fe_ino srcInfo) srcRank w of
                 (had, w1) \<Rightarrow>
                   if f_rm_src flt then Some (Some UnlinkStalled, w1)
                   else finish_move B h flt pool nsID now had srcMount (fe_ino srcInfo) srcRank dstPath destRank
                     (w1\<lparr>w_files := os_remove False srcPath (w_files w1)\<rparr>)))"

definition fresh_move :: "'db bolt \<Rightarrow> (bytes \<Rightarrow> u64) \<Rightarrow> faults \<Rightarrow> (string \<times> string list) option \<Rightarrow> u64 \<Rightarrow> u64 \<Rightarrow> u64 \<Rightarrow> int \<Rightarrow>
    string \<Rightarrow> string \<Rightarrow> int \<Rightarrow> string \<Rightarrow> string \<Rightarrow> int \<Rightarrow> 'db world \<Rightarrow> (place_error option \<times> 'db world) option" where
  "fresh_move B h flt pool nsID now newIno mt srcMount srcPath srcRank dstPath tmpPath destRank w =
     (case (if f_stat_src flt then None else w_files w srcPath) of
        None \<Rightarrow> Some (Some StatSrc, w)
      | Some srcInfo \<Rightarrow>
          let w1 = w\<lparr>w_files := os_remove (f_rm_stale flt) tmpPath (w_files w)\<rparr> in
          (case read_record B h (fe_ino srcInfo) srcRank w1 of
             (had, w2) \<Rightarrow>
               (case copyFileContents flt srcInfo newIno mt tmpPath (w_files w2) of
                  (False, fs) \<Rightarrow> Some (Some CopyErr, w2\<lparr>w_files := os_remove (f_cleanup flt) tmpPath fs\<rparr>)
                | (True, fs) \<Rightarrow>
                    (case installPlacementCopy flt tmpPath dstPath (chtimes (f_chtimes flt) tmpPath (fe_mtime srcInfo) fs) of
                       (False, fs2) \<Rightarrow> Some (Some InstallErr, w2\<lparr>w_files := os_remove (f_cleanup flt) tmpPath fs2\<rparr>)
                     | (True, fs2) \<Rightarrow>
                         if f_rm_src flt
                         then Some (Some UnlinkSrc, w2\<lparr>w_files := os_remove (f_rollback flt) dstPath fs2\<rparr>)
                         else finish_move B h flt pool nsID now had srcMount (fe_ino srcInfo) srcRank dstPath destRank
                           (w2\<lparr>w_files := os_remove False srcPath fs2\<rparr>)))))"

text \<open>
  \<open>newIno\<close> is the inode the destination file system gives the copy, \<open>now\<close> the clock, \<open>mt\<close> the
  modification time a new file gets.
\<close>

definition moveForPlacement :: "'db bolt \<Rightarrow> (bytes \<Rightarrow> u64) \<Rightarrow> faults \<Rightarrow> (string \<times> string list) option \<Rightarrow> string \<Rightarrow> u64 \<Rightarrow> u64 \<Rightarrow> int \<Rightarrow>
    string \<Rightarrow> MdadmManagedTargetRow \<Rightarrow> MdadmManagedTargetRow \<Rightarrow> int \<Rightarrow> int \<Rightarrow> 'db world \<Rightarrow>
    (place_error option \<times> 'db world) option" where
  "moveForPlacement B h flt pool namespaceID now newIno mt rel src dst srcRank destRank w =
     (case targetMountReady (f_src_unmounted flt) src w of
        (False, w1) \<Rightarrow> Some (Some SrcUnmounted, w1)
      | (True, _) \<Rightarrow>
          (case targetMountReady (f_dst_unmounted flt) dst w of
             (False, w1) \<Rightarrow> Some (Some DstUnmounted, w1)
           | (True, _) \<Rightarrow>
               let srcPath = path_Join [MountPath src, rel];
                   dstPath = path_Join [MountPath dst, rel];
                   tmpPath = dstPath @ ''.tierd-move'';
                   nsID = NamespaceID_of h namespaceID
               in if f_mkdir flt then Some (Some MkdirDest, w)
                  else if f_lstat_dst flt then Some (Some StatDest, w)
                  else case w_files w dstPath of
                    Some dstInfo \<Rightarrow> stalled_move B h flt pool nsID now (MountPath src) srcPath srcRank dstPath dstInfo destRank w
                  | None \<Rightarrow> fresh_move B h flt pool nsID now newIno mt (MountPath src) srcPath srcRank dstPath tmpPath destRank w))"

section \<open>Comparing contents\<close>

lemma same_chunks_eq: "0 < n \<Longrightarrow> same_chunks n xs ys \<longleftrightarrow> xs = ys"
proof (induction n xs ys rule: same_chunks.induct)
  case (1 n xs ys)
  show ?case
  proof (cases "take n xs = take n ys")
    case False
    then show ?thesis by (auto simp: same_chunks.simps [of n xs ys] Let_def)
  next
    case True
    then have len: "min (length xs) n = min (length ys) n" by (metis length_take min.commute)
    show ?thesis
    proof (cases "length xs < n")
      case short: True
      with len have "length ys < n" by (auto simp: min_def split: if_splits)
      with short True have "xs = ys" by simp
      then show ?thesis using short by (subst same_chunks.simps) (simp add: Let_def)
    next
      case False
      with len have "\<not> length ys < n" by (auto simp: min_def split: if_splits)
      with False True 1 have "same_chunks n xs ys \<longleftrightarrow> drop n xs = drop n ys"
        by (simp add: same_chunks.simps [of n xs ys] Let_def min_def)
      then show ?thesis using True by (metis append_take_drop_id)
    qed
  qed
qed

text \<open>
  C39. Comparing two files chunk by chunk, as the reconciliation of a stalled move does, ends and
  reports equality exactly when the contents are equal, whatever their lengths.
\<close>

theorem filesHaveSameContent_eq:
  "filesHaveSameContent None a b = Some (fe_data a = fe_data b)"
  using same_chunks_eq [of compare_chunk] by (simp add: filesHaveSameContent_def compare_chunk_def)

section \<open>No outcome loses the file\<close>

definition files_safe :: "string \<Rightarrow> string \<Rightarrow> string \<Rightarrow> fentry \<Rightarrow> files \<Rightarrow> place_error option \<Rightarrow> files \<Rightarrow> bool" where
  "files_safe srcPath dstPath tmpPath s fs e fs' \<longleftrightarrow>
     (e = None \<longrightarrow> fs' srcPath = None \<and> (\<exists>d. fs' dstPath = Some d \<and> fe_data d = fe_data s)) \<and>
     (e \<noteq> None \<longrightarrow> fs' srcPath = Some s) \<and>
     (\<forall>d. fs dstPath = Some d \<longrightarrow> fs' dstPath = Some d) \<and>
     (\<forall>d. fs dstPath = None \<longrightarrow> fs' dstPath = Some d \<longrightarrow> fe_data d = fe_data s) \<and>
     (\<forall>q. q \<notin> {srcPath, dstPath, tmpPath} \<longrightarrow> fs' q = fs q)"

lemma read_record_files [simp]: "w_files (snd (read_record B h i r w)) = w_files w"
  by (auto simp: read_record_def split: option.splits prod.splits)

lemma finish_move_files:
  "finish_move B h flt pool nsID now had m i r d k w = Some (e, w') \<Longrightarrow> e = None \<and> w_files w' = w_files w"
  by (auto simp: finish_move_def Let_def split: option.splits)

lemma stalled_move_safe:
  assumes "stalled_move B h flt pool nsID now m srcPath srcRank dstPath d destRank w = Some (e, w')"
    "w_files w srcPath = Some s" "w_files w dstPath = Some d" "srcPath \<noteq> dstPath"
  shows "files_safe srcPath dstPath tmpPath s (w_files w) e (w_files w')"
proof -
  have eq: "filesHaveSameContent (f_compare flt) s d = Some True \<Longrightarrow> fe_data d = fe_data s"
    using same_chunks_eq [of compare_chunk] by (auto simp: filesHaveSameContent_def compare_chunk_def split: option.splits bool.splits)
  obtain had w1 where rr: "read_record B h (fe_ino s) srcRank w = (had, w1)" by fastforce
  then have f1: "w_files w1 = w_files w" using read_record_files [of B h "fe_ino s" srcRank w] by simp
  show ?thesis
    using assms eq f1 rr
    by (auto simp: stalled_move_def files_safe_def os_remove_def dest!: finish_move_files
        split: if_splits option.splits bool.splits)
qed

lemma copyFileContents_cases:
  assumes "copyFileContents flt s i t tmp fs = (ok, fs')"
  shows "(\<forall>q. q \<noteq> tmp \<longrightarrow> fs' q = fs q) \<and> (ok \<longrightarrow> (\<exists>f. fs' tmp = Some f \<and> fe_data f = fe_data s \<and> fe_ino f = i))"
  using assms by (auto simp: copyFileContents_def Let_def split: if_splits option.splits)

lemma installPlacementCopy_cases:
  assumes "installPlacementCopy flt tmp dst fs = (ok, fs')" "dst \<noteq> tmp"
  shows "(\<forall>q. q \<noteq> tmp \<longrightarrow> q \<noteq> dst \<longrightarrow> fs' q = fs q) \<and> (ok \<longrightarrow> fs' dst = fs tmp) \<and> (fs' dst = fs dst \<or> fs' dst = fs tmp) \<and>
    (fs dst \<noteq> None \<longrightarrow> fs' dst = fs dst \<and> \<not> ok)"
  using assms by (auto simp: installPlacementCopy_def Let_def split: if_splits)

lemma chtimes_cases:
  "(\<forall>q. q \<noteq> tmp \<longrightarrow> chtimes fl tmp t fs q = fs q) \<and>
   (\<forall>f. fs tmp = Some f \<longrightarrow> (\<exists>f'. chtimes fl tmp t fs tmp = Some f' \<and> fe_data f' = fe_data f \<and> fe_ino f' = fe_ino f))"
  by (auto simp: chtimes_def)

text \<open>The stages of a fresh move, with the files after each.\<close>

lemma fresh_move_cases:
  assumes "fresh_move B h flt pool nsID now newIno mt m srcPath srcRank dstPath tmpPath destRank w = Some (e, w')"
    "w_files w srcPath = Some s" "w_files w dstPath = None" "srcPath \<noteq> dstPath" "srcPath \<noteq> tmpPath" "dstPath \<noteq> tmpPath"
  obtains (failed) "e \<noteq> None" "w_files w' srcPath = Some s"
      "\<forall>d. w_files w' dstPath = Some d \<longrightarrow> fe_data d = fe_data s"
      "\<forall>q. q \<notin> {srcPath, dstPath, tmpPath} \<longrightarrow> w_files w' q = w_files w q"
  | (moved) had w2 fs2 d where "e = None" "read_record B h (fe_ino s) srcRank (w\<lparr>w_files := os_remove (f_rm_stale flt) tmpPath (w_files w)\<rparr>) = (had, w2)"
      "finish_move B h flt pool nsID now had m (fe_ino s) srcRank dstPath destRank (w2\<lparr>w_files := os_remove False srcPath fs2\<rparr>) = Some (None, w')"
      "fs2 dstPath = Some d" "fe_data d = fe_data s" "fe_ino d = newIno"
      "w_files w' srcPath = None" "w_files w' dstPath = Some d"
      "\<forall>q. q \<notin> {srcPath, dstPath, tmpPath} \<longrightarrow> w_files w' q = w_files w q"
proof (cases "f_stat_src flt")
  case True
  then show ?thesis using assms by (intro failed) (auto simp: fresh_move_def)
next
  case False
  let ?w1 = "w\<lparr>w_files := os_remove (f_rm_stale flt) tmpPath (w_files w)\<rparr>"
  obtain had w2 where rr: "read_record B h (fe_ino s) srcRank ?w1 = (had, w2)" by fastforce
  have f2: "w_files w2 q = w_files w q" if "q \<noteq> tmpPath" for q
    using read_record_files [of B h "fe_ino s" srcRank ?w1, unfolded rr] that by (simp add: os_remove_def)
  obtain ok1 fs1 where c: "copyFileContents flt s newIno mt tmpPath (w_files w2) = (ok1, fs1)" by fastforce
  let ?fs1 = "chtimes (f_chtimes flt) tmpPath (fe_mtime s) fs1"
  obtain ok2 fs2 where i: "installPlacementCopy flt tmpPath dstPath ?fs1 = (ok2, fs2)" by fastforce
  note cc = copyFileContents_cases [OF c] and ch = chtimes_cases [of tmpPath "f_chtimes flt" "fe_mtime s" fs1]
    and ic = installPlacementCopy_cases [OF i assms(6)]
  have st: "(if f_stat_src flt then None else w_files w srcPath) = Some s" using False assms(2) by simp
  show ?thesis
  proof (cases "ok1 \<and> ok2 \<and> \<not> f_rm_src flt")
    case True
    then obtain f where f: "fs1 tmpPath = Some f" "fe_data f = fe_data s" "fe_ino f = newIno" using cc by blast
    then obtain d where d: "fs2 dstPath = Some d" "fe_data d = fe_data s" "fe_ino d = newIno" using ic ch True by fastforce
    have fm: "finish_move B h flt pool nsID now had m (fe_ino s) srcRank dstPath destRank (w2\<lparr>w_files := os_remove False srcPath fs2\<rparr>) = Some (e, w')"
      using assms(1) st rr c i True unfolding fresh_move_def by simp
    then have fin: "e = None" "w_files w' = fs2(srcPath := None)" using finish_move_files [OF fm] by (simp_all add: os_remove_def)
    show ?thesis
      by (rule moved [OF fin(1) rr, where ?fs2.0 = fs2 and ?d = d]) (use fm fin d assms(4) ic ch cc f2 in auto)
  next
    case False
    have e: "e \<noteq> None" "w_files w' = os_remove (f_cleanup flt) tmpPath fs1 \<or> w_files w' = os_remove (f_cleanup flt) tmpPath fs2 \<and> ok1 \<or>
        w_files w' = os_remove (f_rollback flt) dstPath fs2 \<and> ok1"
      using assms(1) st rr c i False unfolding fresh_move_def by (auto split: if_splits bool.splits)
    have dst: "fe_data d = fe_data s" if "w_files w' dstPath = Some d" for d
    proof -
      have "fs1 dstPath = None" using cc f2 [of dstPath] assms(3,6) by auto
      then have "fs2 dstPath = Some d \<and> ok1" using e(2) that assms(6) by (auto simp: os_remove_def split: if_splits)
      then show ?thesis using ic ch cc \<open>fs1 dstPath = None\<close> assms(6) by fastforce
    qed
    have src: "w_files w' srcPath = Some s" using e(2) assms(2,4,5) ic ch cc f2 [of srcPath] by (auto simp: os_remove_def split: if_splits)
    have other: "w_files w' q = w_files w q" if "q \<notin> {srcPath, dstPath, tmpPath}" for q
      using e(2) that ic ch cc f2 [of q] by (auto simp: os_remove_def split: if_splits)
    show ?thesis by (rule failed [OF e(1) src]) (use dst other in blast)+
  qed
qed

lemma path_tmp_neq: "d \<noteq> d @ ''.tierd-move''"
  by simp

lemma move_files_safe:
  assumes "moveForPlacement B h flt pool namespaceID now newIno mt rel src dst srcRank destRank w = Some (e, w')"
    and "srcPath = path_Join [MountPath src, rel]" "dstPath = path_Join [MountPath dst, rel]" "tmpPath = dstPath @ ''.tierd-move''"
    and "w_files w srcPath = Some s" "srcPath \<noteq> dstPath" "srcPath \<noteq> tmpPath"
  shows "files_safe srcPath dstPath tmpPath s (w_files w) e (w_files w')"
proof -
  have tmp: "dstPath \<noteq> tmpPath" by (simp add: assms(4))
  show ?thesis
  proof (cases "f_src_unmounted flt \<or> f_dst_unmounted flt \<or> f_mkdir flt \<or> f_lstat_dst flt")
    case True
    then have "e \<noteq> None \<and> w_files w' = w_files w"
      using assms(1) by (auto simp: moveForPlacement_def targetMountReady_def Let_def split: if_splits)
    then show ?thesis using assms(5) by (auto simp: files_safe_def)
  next
    case False
    then have run: "(case w_files w dstPath of
        Some dstInfo \<Rightarrow> stalled_move B h flt pool (NamespaceID_of h namespaceID) now (MountPath src) srcPath srcRank dstPath dstInfo destRank w
      | None \<Rightarrow> fresh_move B h flt pool (NamespaceID_of h namespaceID) now newIno mt (MountPath src) srcPath srcRank dstPath tmpPath destRank w) = Some (e, w')"
      using assms(1) unfolding assms(4) unfolding assms(2,3) by (simp add: moveForPlacement_def targetMountReady_def Let_def)
    show ?thesis
    proof (cases "w_files w dstPath")
      case (Some d)
      with run have "stalled_move B h flt pool (NamespaceID_of h namespaceID) now (MountPath src) srcPath srcRank dstPath d destRank w = Some (e, w')" by simp
      from stalled_move_safe [OF this assms(5) Some assms(6)] show ?thesis .
    next
      case None
      with run have "fresh_move B h flt pool (NamespaceID_of h namespaceID) now newIno mt (MountPath src) srcPath srcRank dstPath tmpPath destRank w = Some (e, w')" by simp
      from this assms(5) None assms(6,7) tmp show ?thesis
      proof (cases rule: fresh_move_cases)
        case failed
        then show ?thesis using None by (auto simp: files_safe_def)
      next
        case moved
        then show ?thesis using None by (auto simp: files_safe_def)
      qed
    qed
  qed
qed

text \<open>A move whose source does not exist changes no file.\<close>

lemma move_no_source:
  assumes "moveForPlacement B h flt pool namespaceID now newIno mt rel src dst srcRank destRank w = Some (e, w')"
    "w_files w (path_Join [MountPath src, rel]) = None"
  shows "w_files w' = w_files w \<and> e \<noteq> None"
  using assms by (auto simp: moveForPlacement_def targetMountReady_def Let_def stalled_move_def fresh_move_def
      split: if_splits option.splits)

text \<open>
  C6. Whatever calls fail, a move never loses the file and never overwrites one. On success the
  source is gone and the destination holds its contents; on any error the source is as it was. A
  file that was already at the destination is untouched; if there was none, one that appears there
  is a complete copy. No other path changes, apart from the temporary name.
\<close>

theorem move_keeps_file:
  assumes "moveForPlacement B h flt pool namespaceID now newIno mt rel src dst srcRank destRank w = Some (e, w')"
    and "srcPath = path_Join [MountPath src, rel]" "dstPath = path_Join [MountPath dst, rel]" "tmpPath = dstPath @ ''.tierd-move''"
    and "w_files w srcPath = Some s" "srcPath \<noteq> dstPath" "srcPath \<noteq> tmpPath"
  shows "(if e = None then w_files w' srcPath = None \<and> (\<exists>d. w_files w' dstPath = Some d \<and> fe_data d = fe_data s)
      else w_files w' srcPath = Some s) \<and>
    (\<forall>d. w_files w' dstPath = Some d \<longrightarrow> w_files w dstPath = Some d \<or> w_files w dstPath = None \<and> fe_data d = fe_data s) \<and>
    (w_files w dstPath \<noteq> None \<longrightarrow> w_files w' dstPath = w_files w dstPath) \<and>
    (\<forall>q. q \<notin> {srcPath, dstPath, tmpPath} \<longrightarrow> w_files w' q = w_files w q)"
  using move_files_safe [OF assms] unfolding files_safe_def by (cases "w_files w dstPath") auto

text \<open>
  The temporary name is taken without asking: a user's file of that name on the destination tier is
  removed by a move that succeeds.
\<close>

theorem tmp_name_removed:
  assumes "w_store w = None" "srcPath \<noteq> dstPath" "srcPath \<noteq> tmpPath"
    and "srcPath = path_Join [MountPath src, rel]" "dstPath = path_Join [MountPath dst, rel]" "tmpPath = dstPath @ ''.tierd-move''"
    and "w_files w srcPath = Some s" "w_files w dstPath = None" "w_files w tmpPath = Some precious"
    and "\<not> f_src_unmounted flt" "\<not> f_dst_unmounted flt" "\<not> f_mkdir flt" "\<not> f_lstat_dst flt" "\<not> f_stat_src flt"
      "\<not> f_rm_stale flt" "\<not> f_open_src flt" "\<not> f_create_tmp flt" "f_copy flt = None" "\<not> f_close_tmp flt" "\<not> f_link flt"
      "\<not> f_rm_tmp flt" "\<not> f_rm_src flt"
  shows "\<exists>w'. moveForPlacement B h flt pool namespaceID now newIno mt rel src dst srcRank destRank w = Some (None, w') \<and>
    w_files w' tmpPath = None"
  using assms(1-3,7-22) unfolding assms(6) unfolding assms(4,5)
  by (simp add: moveForPlacement_def targetMountReady_def Let_def fresh_move_def os_remove_def read_record_def
      copyFileContents_def chtimes_def installPlacementCopy_def finish_move_def)

section \<open>The record follows the file\<close>

context bolt_reliable
begin

lemma hand_over_ok:
  assumes "good_store B h p" "at_rest h p" "known_rank p destRank" "tierByRank p srcRank \<noteq> None" "srcRank \<noteq> destRank"
  shows "\<exists>p'. hand_over B h nsID now had srcIno srcRank (Some dstIno) destRank p = Some p' \<and> store_inv B p' \<and>
    disk_record B h p' = (\<lambda>r i. if r = srcRank \<and> i = srcIno then None
      else if r = destRank \<and> i = dstIno then Some (dest_record nsID now destRank had) else disk_record B h p r i)"
proof -
  let ?rec = "dest_record nsID now destRank had"
  have rec: "Version ?rec = RecordVersion" "uint (TierIdx ?rec) = destRank"
    using assms(3) by (simp_all add: dest_record_def known_rank_def Let_def uint_word_of_int split: get_result.splits)
  obtain p1 where p1: "PutBlocking B h p dstIno destRank ?rec = Some p1" "good_store B h p1" "tierByRank p1 = tierByRank p"
    "disk_record B h p1 = (\<lambda>r i. if r = destRank \<and> i = dstIno then Some ?rec else disk_record B h p r i)"
    "\<forall>r i. (r, i) \<noteq> (destRank, dstIno) \<longrightarrow> unqueued h p r i \<longrightarrow> unqueued h p1 r i"
    using PutBlocking_good_store [OF assms(1) _ rec, of dstIno] assms(3) by (auto simp: known_rank_def)
  have uq: "unqueued h p1 srcRank srcIno" using p1(5) assms(2,5) by (simp add: at_rest_def)
  obtain t where "tierByRank p1 srcRank = Some t" using assms(4) p1(3) by auto
  from Delete_ok [OF _ this uq] p1(2) obtain p2 where "Delete B h p1 srcIno srcRank = (None, p2)" "store_inv B p2"
    "disk_record B h p2 = (\<lambda>r i. if r = srcRank \<and> i = srcIno then None else disk_record B h p1 r i)"
    by (auto simp: good_store_def)
  then show ?thesis using p1(1,4) by (auto simp: hand_over_def fun_eq_iff)
qed

end

lemma good_store_rest: "good_store B h p' \<Longrightarrow> unqueued h p' = unqueued h p \<Longrightarrow> at_rest h p \<Longrightarrow> at_rest h p'"
  by (simp add: at_rest_def)


subsection \<open>Witnesses\<close>

definition no_faults :: faults where
  "no_faults = \<lparr>f_src_unmounted = False, f_dst_unmounted = False, f_mkdir = False, f_lstat_dst = False, f_stat_src = False,
      f_compare = None, f_rm_stale = False, f_open_src = False, f_create_tmp = False, f_copy = None, f_close_tmp = False,
      f_chtimes = False, f_link = False, f_rm_tmp = False, f_cleanup = False, f_rm_src = False, f_rollback = False, f_stat_dst = False\<rparr>"

definition sample_file :: fentry where
  "sample_file = \<lparr>fe_ino = 7, fe_data = [1, 2], fe_mtime = 0, fe_mode = 420, fe_dir = False\<rparr>"

definition sample_world :: "mem_db world" where
  "sample_world = \<lparr>w_files = [''/mnt/nvme/f'' \<mapsto> sample_file], w_store = Some sample_store, w_sysfs = [], w_degraded = []\<rparr>"

lemma sample_paths:
  "path_Join [MountPath (sample_target ''nvme''), ''f''] = ''/mnt/nvme/f''"
  "path_Join [MountPath (sample_target ''hdd''), ''f''] = ''/mnt/hdd/f''"
  by (simp_all add: sample_target_def path_Join_def path_Clean_def clean_parts_def clean_step_def render_path_def rooted_def)


theorem move_keeps_file_witness:
  "\<exists>w'. moveForPlacement mem_bolt zero_hash (no_faults\<lparr>f_rm_src := True, f_rollback := True\<rparr>) None ''tank'' 0 9 0 ''f''
      (sample_target ''nvme'') (sample_target ''hdd'') 1 2 sample_world = Some (Some UnlinkSrc, w') \<and>
    w_files w' ''/mnt/nvme/f'' = Some sample_file \<and> (\<forall>d. w_files w' ''/mnt/hdd/f'' = Some d \<longrightarrow> fe_data d = [1, 2])"
proof -
  obtain had p1 where get: "Get mem_bolt zero_hash sample_store 7 1 = (had, p1)" by fastforce
  have "\<exists>w'. moveForPlacement mem_bolt zero_hash (no_faults\<lparr>f_rm_src := True, f_rollback := True\<rparr>) None ''tank'' 0 9 0 ''f''
      (sample_target ''nvme'') (sample_target ''hdd'') 1 2 sample_world = Some (Some UnlinkSrc, w')"
    by (simp add: moveForPlacement_def targetMountReady_def no_faults_def sample_paths Let_def sample_world_def fresh_move_def
        os_remove_def read_record_def sample_file_def get copyFileContents_def chtimes_def installPlacementCopy_def)
  then obtain w' where w': "moveForPlacement mem_bolt zero_hash (no_faults\<lparr>f_rm_src := True, f_rollback := True\<rparr>) None ''tank'' 0 9 0 ''f''
      (sample_target ''nvme'') (sample_target ''hdd'') 1 2 sample_world = Some (Some UnlinkSrc, w')" by blast
  from move_keeps_file [OF w' sample_paths [symmetric] refl, of sample_file] w' show ?thesis
    by (auto simp: sample_world_def sample_file_def)
qed

end
