(* ===== verification/GoStrings.thy ===== *)
theory GoStrings
  imports Prelude GoPath
begin

text \<open>
  The routines of Go's \<^verbatim>\<open>strings\<close> package that the policy code uses, on ASCII strings:
  \<^verbatim>\<open>Split\<close> at a one-character separator, \<^verbatim>\<open>TrimSpace\<close> and \<^verbatim>\<open>ToLower\<close>. The last two
  also fold some non-ASCII characters in Go; those are not modelled.
\<close>

section \<open>Definitions\<close>

fun split_on :: "char \<Rightarrow> string \<Rightarrow> string list" where
  "split_on sep [] = [[]]"
| "split_on sep (c # cs) =
     (if c = sep then [] # split_on sep cs
      else case split_on sep cs of [] \<Rightarrow> [[c]] | x # xs \<Rightarrow> (c # x) # xs)"

definition is_space :: "char \<Rightarrow> bool" where
  "is_space c \<longleftrightarrow> (of_char c :: nat) \<in> {9, 10, 11, 12, 13, 32}"

definition TrimSpace :: "string \<Rightarrow> string" where
  "TrimSpace s = rev (dropWhile is_space (rev (dropWhile is_space s)))"

definition lower_char :: "char \<Rightarrow> char" where
  "lower_char c = (let n = (of_char c :: nat) in if 65 \<le> n \<and> n \<le> 90 then char_of (n + 32) else c)"

definition ToLower :: "string \<Rightarrow> string" where
  "ToLower s = map lower_char s"

section \<open>Splitting\<close>

lemma split_on_nonempty [simp]: "split_on sep s \<noteq> []"
  by (induction s) (auto split: list.splits)

lemma split_on_append: "sep \<notin> set x \<Longrightarrow> split_on sep (x @ sep # s) = x # split_on sep s"
  by (induction x) auto

lemma split_on_single: "sep \<notin> set x \<Longrightarrow> split_on sep x = [x]"
  by (induction x) auto

lemma split_on_terminated:
  "\<forall>x \<in> set xs. sep \<notin> set x \<Longrightarrow> split_on sep (concat (map (\<lambda>x. x @ [sep]) xs)) = xs @ [[]]"
  by (induction xs) (simp_all add: split_on_append)

lemma set_split_on: "set s \<subseteq> insert sep (\<Union>x \<in> set (split_on sep s). set x)"
proof (induction s)
  case (Cons c s)
  then show ?case by (cases "split_on sep s") auto
qed simp

end
