(* ===== verification/TargetCache.thy ===== *)
theory TargetCache
  imports Placement GoStrings
begin

text \<open>
  The target cache, \<^verbatim>\<open>tiering/mdadm/target_cache.go\<close>: an in-memory view of three database tables
  with secondary indexes, written back (or through) to SQLite; the operations of
  \<^verbatim>\<open>db/mdadm_managed.go\<close> and \<^verbatim>\<open>db/tiering.go\<close> it replays, with the constraints the schema puts on
  them; and the adapter's accessors that choose between cache and database.

  A table is the list of its rows. \<open>now\<close> is the formatted clock, \<open>newID\<close> the random identifier or
  \<^const>\<open>None\<close> when none can be drawn. Iterating a Go map has no fixed order: the order of the keys
  is an argument; so is the order in which a query returns its rows.
\<close>

section \<open>Definitions\<close>

subsection \<open>Rows and tables\<close>

record TierTargetRow =
  tt_ID :: string
  tt_Name :: string
  PlacementDomain :: string
  BackendKind :: string
  tt_Rank :: int
  TargetFillPct :: int
  FullThresholdPct :: int
  PolicyRevision :: int
  Health :: string
  ActivityBand :: string
  ActivityTrend :: string
  CapabilitiesJSON :: string
  BackingRef :: string
  CreatedAt :: string
  UpdatedAt :: string

record MdadmManagedNamespaceRow =
  ns_NamespaceID :: string
  ns_PoolName :: string
  ns_MountPath :: string

text \<open>\<open>db_namespaces\<close> pairs the managed namespaces with their placement domains.\<close>

record target_db =
  db_domains :: "string list"
  db_tiers :: "TierTargetRow list"
  db_namespaces :: "(string \<times> string) list"
  db_mdadm :: "MdadmManagedTargetRow list"
  db_mdadm_ns :: "MdadmManagedNamespaceRow list"

definition find_row :: "('r \<Rightarrow> 'k) \<Rightarrow> 'k \<Rightarrow> 'r list \<Rightarrow> 'r option" where
  "find_row key k rows = find (\<lambda>r. key r = k) rows"

definition put_row :: "('r \<Rightarrow> 'k) \<Rightarrow> 'r \<Rightarrow> 'r list \<Rightarrow> 'r list" where
  "put_row key r rows =
     (if find_row key (key r) rows = None then rows @ [r] else map (\<lambda>x. if key x = key r then r else x) rows)"

definition del_row :: "('r \<Rightarrow> 'k) \<Rightarrow> 'k \<Rightarrow> 'r list \<Rightarrow> 'r list" where
  "del_row key k rows = filter (\<lambda>x. key x \<noteq> k) rows"

datatype sql_error = SqlNotFound | SqlConstraint | BadPolicy | NoID

text \<open>The operations return the error, if any, and the database.\<close>

definition UpsertMdadmManagedTarget :: "MdadmManagedTargetRow \<Rightarrow> target_db \<Rightarrow> sql_error option \<times> target_db" where
  "UpsertMdadmManagedTarget row D =
     (if find_row tt_ID (TierTargetID row) (db_tiers D) = None \<or>
         list_ex (\<lambda>x. TierTargetID x \<noteq> TierTargetID row \<and> PoolName x = PoolName row \<and> TierName x = TierName row) (db_mdadm D)
      then (Some SqlConstraint, D)
      else (None, D\<lparr>db_mdadm := put_row TierTargetID row (db_mdadm D)\<rparr>))"

definition DeleteMdadmManagedTarget :: "string \<Rightarrow> target_db \<Rightarrow> sql_error option \<times> target_db" where
  "DeleteMdadmManagedTarget tierTargetID D = (None, D\<lparr>db_mdadm := del_row TierTargetID tierTargetID (db_mdadm D)\<rparr>)"

definition UpsertMdadmManagedNamespace :: "MdadmManagedNamespaceRow \<Rightarrow> target_db \<Rightarrow> sql_error option \<times> target_db" where
  "UpsertMdadmManagedNamespace row D =
     (if find_row fst (ns_NamespaceID row) (db_namespaces D) = None \<or>
         list_ex (\<lambda>x. ns_NamespaceID x \<noteq> ns_NamespaceID row \<and> ns_PoolName x = ns_PoolName row) (db_mdadm_ns D)
      then (Some SqlConstraint, D)
      else (None, D\<lparr>db_mdadm_ns := put_row ns_NamespaceID row (db_mdadm_ns D)\<rparr>))"

definition DeleteMdadmManagedNamespace :: "string \<Rightarrow> target_db \<Rightarrow> sql_error option \<times> target_db" where
  "DeleteMdadmManagedNamespace namespaceID D =
     (None, D\<lparr>db_mdadm_ns := del_row ns_NamespaceID namespaceID (db_mdadm_ns D)\<rparr>)"

definition validateFillPolicy :: "int \<Rightarrow> int \<Rightarrow> bool" where
  "validateFillPolicy fillPct thresholdPct \<longleftrightarrow>
     \<not> (fillPct < 0 \<or> fillPct > 100) \<and> \<not> (thresholdPct < 0 \<or> thresholdPct > 100) \<and> \<not> fillPct > thresholdPct"

definition ensurePlacementDomain :: "string \<Rightarrow> target_db \<Rightarrow> target_db" where
  "ensurePlacementDomain domain D =
     (if domain \<in> set (db_domains D) then D else D\<lparr>db_domains := db_domains D @ [domain]\<rparr>)"

text \<open>The delete of a domain fails while a managed namespace refers to it.\<close>

definition pruneEmptyPlacementDomain :: "string \<Rightarrow> target_db \<Rightarrow> sql_error option \<times> target_db" where
  "pruneEmptyPlacementDomain domain D =
     (if list_ex (\<lambda>t. PlacementDomain t = domain) (db_tiers D) then (None, D)
      else if list_ex (\<lambda>n. snd n = domain) (db_namespaces D) then (Some SqlConstraint, D)
      else (None, D\<lparr>db_domains := filter (\<lambda>d. d \<noteq> domain) (db_domains D)\<rparr>))"

definition CreateTierTarget :: "string \<Rightarrow> string option \<Rightarrow> TierTargetRow \<Rightarrow> target_db \<Rightarrow> sql_error option \<times> target_db" where
  "CreateTierTarget now newID t D =
     (let t1 = (if TargetFillPct t = 0 then t\<lparr>TargetFillPct := 50\<rparr> else t);
          t2 = (if FullThresholdPct t1 = 0 then t1\<lparr>FullThresholdPct := 95\<rparr> else t1)
      in if \<not> validateFillPolicy (TargetFillPct t2) (FullThresholdPct t2) then (Some BadPolicy, D)
         else if tt_ID t2 = [] \<and> newID = None then (Some NoID, D)
         else
           let t3 = t2\<lparr>tt_ID := if tt_ID t2 = [] then the newID else tt_ID t2,
                 CreatedAt := if CreatedAt t2 = [] then now else CreatedAt t2, UpdatedAt := now, PolicyRevision := 1\<rparr>;
               D1 = ensurePlacementDomain (PlacementDomain t3) D
           in if find_row tt_ID (tt_ID t3) (db_tiers D1) \<noteq> None then (Some SqlConstraint, D1)
              else (None, D1\<lparr>db_tiers := db_tiers D1 @ [t3]\<rparr>))"

definition GetTierTarget :: "string \<Rightarrow> target_db \<Rightarrow> TierTargetRow option" where
  "GetTierTarget tid D = find_row tt_ID tid (db_tiers D)"

definition UpdateTierTargetPolicy :: "string \<Rightarrow> string \<Rightarrow> int \<Rightarrow> int \<Rightarrow> target_db \<Rightarrow> sql_error option \<times> target_db" where
  "UpdateTierTargetPolicy now tid fillPct thresholdPct D =
     (if \<not> validateFillPolicy fillPct thresholdPct then (Some BadPolicy, D)
      else case GetTierTarget tid D of
        None \<Rightarrow> (Some SqlNotFound, D)
      | Some t \<Rightarrow> (None, D\<lparr>db_tiers := put_row tt_ID (t\<lparr>TargetFillPct := fillPct, FullThresholdPct := thresholdPct,
          PolicyRevision := wrap64 (PolicyRevision t + 1), UpdatedAt := now\<rparr>) (db_tiers D)\<rparr>))"

text \<open>Deleting a target deletes its row of the managed targets too.\<close>

definition DeleteTierTarget :: "string \<Rightarrow> target_db \<Rightarrow> sql_error option \<times> target_db" where
  "DeleteTierTarget tid D =
     (case GetTierTarget tid D of
        None \<Rightarrow> (Some SqlNotFound, D)
      | Some t \<Rightarrow> pruneEmptyPlacementDomain (PlacementDomain t)
          (D\<lparr>db_tiers := del_row tt_ID tid (db_tiers D), db_mdadm := del_row TierTargetID tid (db_mdadm D)\<rparr>))"

definition UpdateTierTargetActivity :: "string \<Rightarrow> string \<Rightarrow> string \<Rightarrow> string \<Rightarrow> string \<Rightarrow> target_db \<Rightarrow> sql_error option \<times> target_db" where
  "UpdateTierTargetActivity now tid health band trend D =
     (None, case GetTierTarget tid D of
        None \<Rightarrow> D
      | Some t \<Rightarrow> D\<lparr>db_tiers := put_row tt_ID (t\<lparr>Health := health, ActivityBand := band, ActivityTrend := trend,
          UpdatedAt := now\<rparr>) (db_tiers D)\<rparr>)"

subsection \<open>The cache\<close>

datatype cacheWriteMode = writeBack | writeThrough

datatype cacheOp =
    opUpsertMdadm MdadmManagedTargetRow
  | opDeleteMdadm string
  | opCreateTier TierTargetRow
  | opDeleteTier string
  | opUpdatePolicy string int int
  | opUpdateActivity string string string string
  | opUpsertMdadmNs MdadmManagedNamespaceRow
  | opDeleteMdadmNs string

record targetCache =
  tc_store :: target_db
  writeMode :: cacheWriteMode
  mdadmByID :: "string \<rightharpoonup> MdadmManagedTargetRow"
  mdadmByPoolTier :: "string \<times> string \<rightharpoonup> MdadmManagedTargetRow"
  tierByID :: "string \<rightharpoonup> TierTargetRow"
  tierByBackingRef :: "string \<times> string \<rightharpoonup> TierTargetRow"
  nsByID :: "string \<rightharpoonup> MdadmManagedNamespaceRow"
  nsByPool :: "string \<rightharpoonup> MdadmManagedNamespaceRow"
  tc_queue :: "cacheOp list"

text \<open>\<^verbatim>\<open>applyOp\<close>; an error is logged and dropped. The targets the cache creates carry their identifiers.\<close>

definition applyOp :: "string \<Rightarrow> cacheOp \<Rightarrow> target_db \<Rightarrow> target_db" where
  "applyOp now op D = snd (case op of
      opUpsertMdadm row \<Rightarrow> UpsertMdadmManagedTarget row D
    | opDeleteMdadm tid \<Rightarrow> DeleteMdadmManagedTarget tid D
    | opCreateTier t \<Rightarrow> CreateTierTarget now None t D
    | opDeleteTier tid \<Rightarrow> DeleteTierTarget tid D
    | opUpdatePolicy tid f t \<Rightarrow> UpdateTierTargetPolicy now tid f t D
    | opUpdateActivity tid h b t \<Rightarrow> UpdateTierTargetActivity now tid h b t D
    | opUpsertMdadmNs row \<Rightarrow> UpsertMdadmManagedNamespace row D
    | opDeleteMdadmNs tid \<Rightarrow> DeleteMdadmManagedNamespace tid D)"

definition tc_enqueue :: "cacheOp \<Rightarrow> targetCache \<Rightarrow> targetCache" where
  "tc_enqueue op c = c\<lparr>tc_queue := tc_queue c @ [op]\<rparr>"

definition persist :: "string \<Rightarrow> cacheOp \<Rightarrow> targetCache \<Rightarrow> targetCache" where
  "persist now op c =
     (if writeMode c = writeThrough then c\<lparr>tc_store := applyOp now op (tc_store c)\<rparr> else tc_enqueue op c)"

fun apply_batch :: "(nat \<Rightarrow> string) \<Rightarrow> cacheOp list \<Rightarrow> target_db \<Rightarrow> target_db" where
  "apply_batch clock [] D = D"
| "apply_batch clock (op # ops) D = apply_batch (\<lambda>i. clock (Suc i)) ops (applyOp (clock 0) op D)"

definition drain :: "(nat \<Rightarrow> string) \<Rightarrow> targetCache \<Rightarrow> targetCache" where
  "drain clock c =
     (if tc_queue c = [] then c
      else c\<lparr>tc_queue := [], tc_store := apply_batch clock (tc_queue c) (tc_store c)\<rparr>)"

definition resolveWriteMode :: "string option \<Rightarrow> cacheWriteMode" where
  "resolveWriteMode v =
     (case v of
        None \<Rightarrow> writeBack
      | Some s \<Rightarrow> if ToLower (TrimSpace s) \<in> {''1'', ''true'', ''yes'', ''on''} then writeThrough else writeBack)"

subsection \<open>What a write does to the view, and the whole write\<close>

definition index_tier :: "TierTargetRow \<Rightarrow> targetCache \<Rightarrow> targetCache" where
  "index_tier r c =
     (if BackingRef r \<noteq> [] then c\<lparr>tierByBackingRef := (tierByBackingRef c)((BackendKind r, BackingRef r) \<mapsto> r)\<rparr> else c)"

definition view_write :: "cacheOp \<Rightarrow> targetCache \<Rightarrow> targetCache" where
  "view_write op c = (case op of
      opUpsertMdadm row \<Rightarrow>
        c\<lparr>mdadmByID := (mdadmByID c)(TierTargetID row \<mapsto> row),
          mdadmByPoolTier := (mdadmByPoolTier c)((PoolName row, TierName row) \<mapsto> row)\<rparr>
    | opDeleteMdadm tid \<Rightarrow>
        (case mdadmByID c tid of
           None \<Rightarrow> c
         | Some r \<Rightarrow> c\<lparr>mdadmByID := (mdadmByID c)(tid := None),
             mdadmByPoolTier := (mdadmByPoolTier c)((PoolName r, TierName r) := None)\<rparr>)
    | opCreateTier row \<Rightarrow> index_tier row (c\<lparr>tierByID := (tierByID c)(tt_ID row \<mapsto> row)\<rparr>)
    | opDeleteTier tid \<Rightarrow>
        (case tierByID c tid of
           None \<Rightarrow> c
         | Some r \<Rightarrow>
             let c1 = c\<lparr>tierByID := (tierByID c)(tid := None)\<rparr> in
             if BackingRef r \<noteq> [] then c1\<lparr>tierByBackingRef := (tierByBackingRef c1)((BackendKind r, BackingRef r) := None)\<rparr> else c1)
    | opUpdatePolicy tid f t \<Rightarrow>
        (case tierByID c tid of
           None \<Rightarrow> c
         | Some r \<Rightarrow>
             let r1 = r\<lparr>TargetFillPct := f, FullThresholdPct := t\<rparr> in
             index_tier r1 (c\<lparr>tierByID := (tierByID c)(tid \<mapsto> r1)\<rparr>))
    | opUpdateActivity tid h b t \<Rightarrow>
        (case tierByID c tid of
           None \<Rightarrow> c
         | Some r \<Rightarrow>
             let r1 = r\<lparr>Health := h, ActivityBand := if b \<noteq> [] then b else ActivityBand r,
                        ActivityTrend := if t \<noteq> [] then t else ActivityTrend r\<rparr> in
             index_tier r1 (c\<lparr>tierByID := (tierByID c)(tid \<mapsto> r1)\<rparr>))
    | opUpsertMdadmNs row \<Rightarrow>
        c\<lparr>nsByID := (nsByID c)(ns_NamespaceID row \<mapsto> row), nsByPool := (nsByPool c)(ns_PoolName row \<mapsto> row)\<rparr>
    | opDeleteMdadmNs tid \<Rightarrow>
        (case nsByID c tid of
           None \<Rightarrow> c
         | Some r \<Rightarrow> c\<lparr>nsByID := (nsByID c)(tid := None), nsByPool := (nsByPool c)(ns_PoolName r := None)\<rparr>))"

definition upsertMdadmTarget :: "string \<Rightarrow> MdadmManagedTargetRow \<Rightarrow> targetCache \<Rightarrow> targetCache" where
  "upsertMdadmTarget now row c = persist now (opUpsertMdadm row) (view_write (opUpsertMdadm row) c)"

definition deleteMdadmTarget :: "string \<Rightarrow> string \<Rightarrow> targetCache \<Rightarrow> targetCache" where
  "deleteMdadmTarget now tid c = persist now (opDeleteMdadm tid) (view_write (opDeleteMdadm tid) c)"

definition tc_createTierTarget :: "string \<Rightarrow> string option \<Rightarrow> TierTargetRow \<Rightarrow> targetCache \<Rightarrow> (TierTargetRow \<times> targetCache) option" where
  "tc_createTierTarget now newID row c =
     (if tt_ID row = [] \<and> newID = None then None
      else let row1 = (if tt_ID row = [] then row\<lparr>tt_ID := the newID\<rparr> else row) in
        Some (row1, persist now (opCreateTier row1) (view_write (opCreateTier row1) c)))"

definition tc_deleteTierTarget :: "string \<Rightarrow> string \<Rightarrow> targetCache \<Rightarrow> targetCache" where
  "tc_deleteTierTarget now tid c = persist now (opDeleteTier tid) (view_write (opDeleteTier tid) c)"

definition tc_updateTierTargetPolicy :: "string \<Rightarrow> string \<Rightarrow> int \<Rightarrow> int \<Rightarrow> targetCache \<Rightarrow> targetCache" where
  "tc_updateTierTargetPolicy now tid f t c = persist now (opUpdatePolicy tid f t) (view_write (opUpdatePolicy tid f t) c)"

definition tc_updateTierTargetActivity :: "string \<Rightarrow> string \<Rightarrow> string \<Rightarrow> string \<Rightarrow> string \<Rightarrow> targetCache \<Rightarrow> targetCache" where
  "tc_updateTierTargetActivity now tid h b t c =
     persist now (opUpdateActivity tid h b t) (view_write (opUpdateActivity tid h b t) c)"

definition upsertMdadmNs :: "string \<Rightarrow> MdadmManagedNamespaceRow \<Rightarrow> targetCache \<Rightarrow> targetCache" where
  "upsertMdadmNs now row c = persist now (opUpsertMdadmNs row) (view_write (opUpsertMdadmNs row) c)"

definition deleteMdadmNs :: "string \<Rightarrow> string \<Rightarrow> targetCache \<Rightarrow> targetCache" where
  "deleteMdadmNs now tid c = persist now (opDeleteMdadmNs tid) (view_write (opDeleteMdadmNs tid) c)"

subsection \<open>Loading and reading\<close>

definition load_mdadm :: "targetCache \<Rightarrow> MdadmManagedTargetRow \<Rightarrow> targetCache" where
  "load_mdadm c r = c\<lparr>mdadmByID := (mdadmByID c)(TierTargetID r \<mapsto> r),
     mdadmByPoolTier := (mdadmByPoolTier c)((PoolName r, TierName r) \<mapsto> r)\<rparr>"

definition load_tier :: "targetCache \<Rightarrow> TierTargetRow \<Rightarrow> targetCache" where
  "load_tier c r = index_tier r (c\<lparr>tierByID := (tierByID c)(tt_ID r \<mapsto> r)\<rparr>)"

definition load_ns :: "targetCache \<Rightarrow> MdadmManagedNamespaceRow \<Rightarrow> targetCache" where
  "load_ns c r = c\<lparr>nsByID := (nsByID c)(ns_NamespaceID r \<mapsto> r), nsByPool := (nsByPool c)(ns_PoolName r \<mapsto> r)\<rparr>"

text \<open>A query returns the rows in an order, or fails.\<close>

record queries =
  q_mdadm :: "MdadmManagedTargetRow list \<Rightarrow> MdadmManagedTargetRow list option"
  q_tiers :: "TierTargetRow list \<Rightarrow> TierTargetRow list option"
  q_ns :: "MdadmManagedNamespaceRow list \<Rightarrow> MdadmManagedNamespaceRow list option"

definition reload :: "queries \<Rightarrow> targetCache \<Rightarrow> targetCache option" where
  "reload q c =
     (case q_mdadm q (db_mdadm (tc_store c)) of None \<Rightarrow> None | Some mdadms \<Rightarrow>
      (case q_tiers q (db_tiers (tc_store c)) of None \<Rightarrow> None | Some ts \<Rightarrow>
       (case q_ns q (db_mdadm_ns (tc_store c)) of None \<Rightarrow> None | Some nss \<Rightarrow>
          Some (foldl load_ns (foldl load_tier (foldl load_mdadm
            (c\<lparr>mdadmByID := Map.empty, mdadmByPoolTier := Map.empty, tierByID := Map.empty, tierByBackingRef := Map.empty,
               nsByID := Map.empty, nsByPool := Map.empty\<rparr>) mdadms) ts) nss))))"

definition newTargetCache :: "queries \<Rightarrow> string option \<Rightarrow> target_db \<Rightarrow> targetCache option" where
  "newTargetCache q mode D =
     reload q \<lparr>tc_store = D, writeMode = resolveWriteMode mode, mdadmByID = Map.empty, mdadmByPoolTier = Map.empty,
       tierByID = Map.empty, tierByBackingRef = Map.empty, nsByID = Map.empty, nsByPool = Map.empty, tc_queue = []\<rparr>"

definition listMdadmTargets :: "string list \<Rightarrow> targetCache \<Rightarrow> MdadmManagedTargetRow list" where
  "listMdadmTargets keys c = List.map_filter (mdadmByID c) keys"

definition getMdadmByPoolTier :: "string \<Rightarrow> string \<Rightarrow> targetCache \<Rightarrow> MdadmManagedTargetRow option" where
  "getMdadmByPoolTier pool tier c = mdadmByPoolTier c (pool, tier)"

definition getMdadmByID :: "string \<Rightarrow> targetCache \<Rightarrow> MdadmManagedTargetRow option" where
  "getMdadmByID tid c = mdadmByID c tid"

definition getTier :: "string \<Rightarrow> targetCache \<Rightarrow> TierTargetRow option" where
  "getTier tid c = tierByID c tid"

definition getTierByBackingRef :: "string \<Rightarrow> string \<Rightarrow> targetCache \<Rightarrow> TierTargetRow option" where
  "getTierByBackingRef ref kind c = tierByBackingRef c (kind, ref)"

definition getMdadmNs :: "string \<Rightarrow> targetCache \<Rightarrow> MdadmManagedNamespaceRow option" where
  "getMdadmNs tid c = nsByID c tid"

definition getMdadmNsByPool :: "string \<Rightarrow> targetCache \<Rightarrow> MdadmManagedNamespaceRow option" where
  "getMdadmNsByPool pool c = nsByPool c pool"

definition listMdadmNs :: "string list \<Rightarrow> targetCache \<Rightarrow> MdadmManagedNamespaceRow list" where
  "listMdadmNs keys c = List.map_filter (nsByID c) keys"

text \<open>A sequence of calls, with the drain goroutine running in between.\<close>

datatype tc_event = TcWrite string cacheOp | TcDrain "nat \<Rightarrow> string"

fun tc_step :: "tc_event \<Rightarrow> targetCache \<Rightarrow> targetCache" where
  "tc_step (TcWrite now (opUpsertMdadm row)) c = upsertMdadmTarget now row c"
| "tc_step (TcWrite now (opDeleteMdadm tid)) c = deleteMdadmTarget now tid c"
| "tc_step (TcWrite now (opCreateTier row)) c =
     (case tc_createTierTarget now None row c of None \<Rightarrow> c | Some (row', c') \<Rightarrow> c')"
| "tc_step (TcWrite now (opDeleteTier tid)) c = tc_deleteTierTarget now tid c"
| "tc_step (TcWrite now (opUpdatePolicy tid f t)) c = tc_updateTierTargetPolicy now tid f t c"
| "tc_step (TcWrite now (opUpdateActivity tid h b t)) c = tc_updateTierTargetActivity now tid h b t c"
| "tc_step (TcWrite now (opUpsertMdadmNs row)) c = upsertMdadmNs now row c"
| "tc_step (TcWrite now (opDeleteMdadmNs tid)) c = deleteMdadmNs now tid c"
| "tc_step (TcDrain clock) c = drain clock c"

text \<open>\<^verbatim>\<open>Close\<close> drains what is left; the goroutine exits after it.\<close>

definition tc_Close :: "(nat \<Rightarrow> string) \<Rightarrow> targetCache \<Rightarrow> targetCache" where
  "tc_Close clock c = drain clock c"

text \<open>A target, its database row and a database that holds it; queries that keep the table order.\<close>

definition sample_tier :: TierTargetRow where
  "sample_tier = \<lparr>tt_ID = ''t1'', tt_Name = ''nvme'', PlacementDomain = ''tank'', BackendKind = ''mdadm'', tt_Rank = 1,
     TargetFillPct = 50, FullThresholdPct = 95, PolicyRevision = 1, Health = ''healthy'', ActivityBand = ''hot'',
     ActivityTrend = ''up'', CapabilitiesJSON = ''{}'', BackingRef = ''mdadm:tank:nvme'', CreatedAt = ''a'', UpdatedAt = ''a''\<rparr>"

definition sample_row :: "string \<Rightarrow> MdadmManagedTargetRow" where
  "sample_row path = \<lparr>TierTargetID = ''t1'', PoolName = ''tank'', TierName = ''nvme'', VGName = ''vg'', LVName = ''data'',
     MountPath = path\<rparr>"

definition sample_tdb :: target_db where
  "sample_tdb = \<lparr>db_domains = [''tank''], db_tiers = [sample_tier], db_namespaces = [], db_mdadm = [], db_mdadm_ns = []\<rparr>"

definition table_order :: queries where
  "table_order = \<lparr>q_mdadm = Some, q_tiers = Some, q_ns = Some\<rparr>"

definition sample_cache :: "string option \<Rightarrow> targetCache" where
  "sample_cache mode = \<lparr>tc_store = sample_tdb, writeMode = resolveWriteMode mode, mdadmByID = Map.empty, mdadmByPoolTier = Map.empty,
     tierByID = [''t1'' \<mapsto> sample_tier], tierByBackingRef = [(''mdadm'', ''mdadm:tank:nvme'') \<mapsto> sample_tier],
     nsByID = Map.empty, nsByPool = Map.empty, tc_queue = []\<rparr>"

section \<open>Tables\<close>

lemma find_row_Some: "find_row key k rows = Some r \<Longrightarrow> r \<in> set rows \<and> key r = k"
  by (auto simp: find_row_def find_Some_iff)

lemma find_row_None: "find_row key k rows = None \<longleftrightarrow> k \<notin> key ` set rows"
  by (auto simp: find_row_def find_None_iff)

lemma find_row_distinct: "distinct (map key rows) \<Longrightarrow> find_row key k rows = Some r \<longleftrightarrow> r \<in> set rows \<and> key r = k"
  by (induction rows) (auto simp: find_row_def)

lemma find_row_append: "find_row key k (xs @ ys) = (case find_row key k xs of None \<Rightarrow> find_row key k ys | Some r \<Rightarrow> Some r)"
  by (induction xs) (auto simp: find_row_def)

lemma find_row_map_upd:
  "find_row key k (map (\<lambda>x. if key x = key r then r else x) rows) =
     (if k = key r \<and> k \<in> key ` set rows then Some r else find_row key k rows)"
  by (induction rows) (auto simp: find_row_def)

lemma find_put_row: "(\<lambda>k. find_row key k (put_row key r rows)) = (\<lambda>k. find_row key k rows)(key r \<mapsto> r)"
proof (rule ext)
  fix k
  show "find_row key k (put_row key r rows) = ((\<lambda>k. find_row key k rows)(key r \<mapsto> r)) k"
  proof (cases "find_row key (key r) rows")
    case None
    then have "put_row key r rows = rows @ [r]" by (simp add: put_row_def)
    then show ?thesis using None by (auto simp: find_row_append split: option.splits) (auto simp: find_row_def)
  next
    case (Some x)
    then have "key r \<in> key ` set rows" using find_row_None [of key "key r" rows] by auto
    then show ?thesis using Some by (auto simp: put_row_def find_row_map_upd)
  qed
qed

lemma find_put_row_at: "find_row key k (put_row key r rows) = (if k = key r then Some r else find_row key k rows)"
  using fun_cong [OF find_put_row [of key r rows], of k] by simp

lemma find_del_row: "(\<lambda>k. find_row key k (del_row key d rows)) = (\<lambda>k. find_row key k rows)(d := None)"
  by (rule ext, induction rows) (auto simp: find_row_def del_row_def)

lemma find_del_row_at: "find_row key k (del_row key d rows) = (if k = d then None else find_row key k rows)"
  using fun_cong [OF find_del_row [of key d rows], of k] by simp

lemma distinct_put_row: "distinct (map key rows) \<Longrightarrow> distinct (map key (put_row key r rows))"
proof -
  assume d: "distinct (map key rows)"
  have "map key (map (\<lambda>x. if key x = key r then r else x) rows) = map key rows" by simp
  then show ?thesis using d by (auto simp: put_row_def find_row_None simp del: map_map)
qed

lemma distinct_del_row: "distinct (map key rows) \<Longrightarrow> distinct (map key (del_row key d rows))"
  by (simp add: del_row_def distinct_map_filter)

section \<open>Secondary indexes\<close>

text \<open>An index agrees with its primary map: it holds exactly the rows, each under its key.\<close>

definition indexed :: "('r \<Rightarrow> 'k option) \<Rightarrow> ('i \<rightharpoonup> 'r) \<Rightarrow> ('k \<rightharpoonup> 'r) \<Rightarrow> bool" where
  "indexed key prim idx \<longleftrightarrow> (\<forall>k r. idx k = Some r \<longleftrightarrow> (\<exists>i. prim i = Some r \<and> key r = Some k))"

lemma indexed_upd:
  assumes "indexed key prim idx" "key r = Some k"
    "\<And>i' r'. prim i' = Some r' \<Longrightarrow> i' = i \<longleftrightarrow> key r' = Some k"
  shows "indexed key (prim(i \<mapsto> r)) (idx(k \<mapsto> r))"
  using assms unfolding indexed_def by (smt (verit) fun_upd_apply option.inject)

lemma indexed_upd_none:
  assumes "indexed key prim idx" "key r = None" "\<And>r'. prim i = Some r' \<Longrightarrow> key r' = None"
  shows "indexed key (prim(i \<mapsto> r)) idx"
proof -
  have "(\<exists>j. (prim(i \<mapsto> r)) j = Some r' \<and> key r' = Some k) \<longleftrightarrow> (\<exists>j. prim j = Some r' \<and> key r' = Some k)" for k r'
    using assms(2,3) by (metis fun_upd_apply option.distinct(1) option.inject)
  then show ?thesis using assms(1) unfolding indexed_def by simp
qed

lemma indexed_unique: "indexed key prim idx \<Longrightarrow> prim i = Some r \<Longrightarrow> prim j = Some r' \<Longrightarrow> key r = Some k \<Longrightarrow> key r' = Some k \<Longrightarrow> r = r'"
  unfolding indexed_def by (metis option.inject)

lemma indexed_del:
  assumes "indexed key prim idx" "prim i = Some r" "\<And>j. prim j = Some r \<Longrightarrow> j = i"
  shows "indexed key (prim(i := None)) (case key r of None \<Rightarrow> idx | Some k \<Rightarrow> idx(k := None))"
proof (cases "key r")
  case None
  have "(\<exists>j. (prim(i := None)) j = Some r' \<and> key r' = Some k) \<longleftrightarrow> (\<exists>j. prim j = Some r' \<and> key r' = Some k)" for k r'
    using None assms(2) by (metis fun_upd_apply option.distinct(1) option.inject)
  then show ?thesis using assms(1) None unfolding indexed_def by simp
next
  case (Some k)
  have "(idx(k := None)) k' = Some r' \<longleftrightarrow> (\<exists>j. (prim(i := None)) j = Some r' \<and> key r' = Some k')" for k' r'
  proof
    assume a: "(idx(k := None)) k' = Some r'"
    then have "k' \<noteq> k" "idx k' = Some r'" by (auto split: if_splits)
    then obtain j where j: "prim j = Some r'" "key r' = Some k'" using assms(1) unfolding indexed_def by blast
    then have "j \<noteq> i" using Some \<open>k' \<noteq> k\<close> assms(2) by auto
    with j show "\<exists>j. (prim(i := None)) j = Some r' \<and> key r' = Some k'" by auto
  next
    assume "\<exists>j. (prim(i := None)) j = Some r' \<and> key r' = Some k'"
    then obtain j where j: "j \<noteq> i" "prim j = Some r'" "key r' = Some k'" by (auto split: if_splits)
    then have "idx k' = Some r'" using assms(1) unfolding indexed_def by blast
    moreover have "k' \<noteq> k"
    proof
      assume "k' = k"
      then have "r' = r" using indexed_unique [OF assms(1) assms(2) j(2)] Some j(3) by simp
      then show False using assms(3) j by blast
    qed
    ultimately show "(idx(k := None)) k' = Some r'" by simp
  qed
  then show ?thesis unfolding indexed_def using Some by simp
qed

section \<open>The cache agrees with the database\<close>

text \<open>
  The fields of a target that the cache keeps in step; the revision counter and the time stamps are
  maintained by the database only.
\<close>

definition tier_view :: "TierTargetRow \<Rightarrow> TierTargetRow" where
  "tier_view r = r\<lparr>PolicyRevision := 0, CreatedAt := [], UpdatedAt := []\<rparr>"

definition mdadm_key :: "MdadmManagedTargetRow \<Rightarrow> (string \<times> string) option" where
  "mdadm_key r = Some (PoolName r, TierName r)"

definition tier_key :: "TierTargetRow \<Rightarrow> (string \<times> string) option" where
  "tier_key r = (if BackingRef r = [] then None else Some (BackendKind r, BackingRef r))"

definition ns_key :: "MdadmManagedNamespaceRow \<Rightarrow> string option" where
  "ns_key r = Some (ns_PoolName r)"

definition view_ok :: "targetCache \<Rightarrow> target_db \<Rightarrow> bool" where
  "view_ok c D \<longleftrightarrow>
     mdadmByID c = (\<lambda>k. find_row TierTargetID k (db_mdadm D)) \<and>
     (\<lambda>k. map_option tier_view (tierByID c k)) = (\<lambda>k. map_option tier_view (find_row tt_ID k (db_tiers D))) \<and>
     nsByID c = (\<lambda>k. find_row ns_NamespaceID k (db_mdadm_ns D)) \<and>
     indexed mdadm_key (mdadmByID c) (mdadmByPoolTier c) \<and>
     indexed tier_key (tierByID c) (tierByBackingRef c) \<and>
     indexed ns_key (nsByID c) (nsByPool c)"

definition keys_ok :: "target_db \<Rightarrow> bool" where
  "keys_ok D \<longleftrightarrow> distinct (map TierTargetID (db_mdadm D)) \<and> distinct (map tt_ID (db_tiers D)) \<and>
     distinct (map ns_NamespaceID (db_mdadm_ns D))"

text \<open>
  The writes for which cache and database do the same: the constraints of the schema hold of the
  cached rows, policies are valid and not zero on creation, and an activity update gives both
  values.
\<close>

fun write_ok :: "(string \<times> string) list \<Rightarrow> targetCache \<Rightarrow> cacheOp \<Rightarrow> bool" where
  "write_ok nss c (opUpsertMdadm row) \<longleftrightarrow> tierByID c (TierTargetID row) \<noteq> None \<and>
     (\<forall>i r. mdadmByID c i = Some r \<longrightarrow> i = TierTargetID row \<longleftrightarrow> PoolName r = PoolName row \<and> TierName r = TierName row)"
| "write_ok nss c (opDeleteMdadm tid) \<longleftrightarrow> True"
| "write_ok nss c (opCreateTier row) \<longleftrightarrow> tt_ID row \<noteq> [] \<and> tierByID c (tt_ID row) = None \<and>
     TargetFillPct row \<noteq> 0 \<and> FullThresholdPct row \<noteq> 0 \<and> validateFillPolicy (TargetFillPct row) (FullThresholdPct row) \<and>
     (\<forall>i r. tierByID c i = Some r \<longrightarrow> BackingRef row \<noteq> [] \<longrightarrow> tier_key r \<noteq> tier_key row)"
| "write_ok nss c (opDeleteTier tid) \<longleftrightarrow> mdadmByID c tid = None"
| "write_ok nss c (opUpdatePolicy tid f t) \<longleftrightarrow> validateFillPolicy f t"
| "write_ok nss c (opUpdateActivity tid h b t) \<longleftrightarrow> b \<noteq> [] \<and> t \<noteq> []"
| "write_ok nss c (opUpsertMdadmNs row) \<longleftrightarrow> find_row fst (ns_NamespaceID row) nss \<noteq> None \<and>
     (\<forall>i r. nsByID c i = Some r \<longrightarrow> i = ns_NamespaceID row \<longleftrightarrow> ns_PoolName r = ns_PoolName row)"
| "write_ok nss c (opDeleteMdadmNs tid) \<longleftrightarrow> True"

lemma tier_view_fields:
  "tier_view r = tier_view r' \<Longrightarrow> tt_ID r = tt_ID r' \<and> tier_key r = tier_key r' \<and> PlacementDomain r = PlacementDomain r'"
  by (cases r; cases r') (simp add: tier_view_def tier_key_def)

lemma view_ok_indexed:
  assumes "view_ok c D"
  shows "indexed mdadm_key (mdadmByID c) (mdadmByPoolTier c)" "indexed tier_key (tierByID c) (tierByBackingRef c)"
    "indexed ns_key (nsByID c) (nsByPool c)"
  using assms unfolding view_ok_def by blast+

lemma view_ok_ids:
  assumes "view_ok c D"
  shows "mdadmByID c i = Some r \<Longrightarrow> TierTargetID r = i" "nsByID c i = Some n \<Longrightarrow> ns_NamespaceID n = i"
    "tierByID c i = Some t \<Longrightarrow> tt_ID t = i"
proof -
  show "mdadmByID c i = Some r \<Longrightarrow> TierTargetID r = i" "nsByID c i = Some n \<Longrightarrow> ns_NamespaceID n = i"
    using assms by (auto simp: view_ok_def dest: find_row_Some)
  assume t: "tierByID c i = Some t"
  have "map_option tier_view (tierByID c i) = map_option tier_view (find_row tt_ID i (db_tiers D))"
    using assms unfolding view_ok_def by metis
  with t obtain t' where "find_row tt_ID i (db_tiers D) = Some t'" "tier_view t' = tier_view t" by (auto dest: sym)
  then show "tt_ID t = i" using tier_view_fields by (metis find_row_Some)
qed

lemma view_ok_tier:
  assumes "view_ok c D" "tierByID c i = Some t"
  obtains t' where "find_row tt_ID i (db_tiers D) = Some t'" "tier_view t' = tier_view t"
proof -
  have "map_option tier_view (tierByID c i) = map_option tier_view (find_row tt_ID i (db_tiers D))"
    using assms unfolding view_ok_def by metis
  with assms(2) that show ?thesis by (auto dest: sym)
qed

lemma view_ok_tier_None: "view_ok c D \<Longrightarrow> tierByID c i = None \<longleftrightarrow> find_row tt_ID i (db_tiers D) = None"
  unfolding view_ok_def by (metis option.map_disc_iff)

lemma index_tier_fields [simp]:
  "mdadmByID (index_tier r c) = mdadmByID c" "mdadmByPoolTier (index_tier r c) = mdadmByPoolTier c"
  "tierByID (index_tier r c) = tierByID c" "nsByID (index_tier r c) = nsByID c" "nsByPool (index_tier r c) = nsByPool c"
  "tc_store (index_tier r c) = tc_store c" "tc_queue (index_tier r c) = tc_queue c" "writeMode (index_tier r c) = writeMode c"
  by (simp_all add: index_tier_def)

text \<open>Replacing a target by one with the same backing reference.\<close>

lemma view_ok_put_tier:
  assumes v: "view_ok c D" and t: "tierByID c i = Some t"
    and r: "tier_key r = tier_key t" "tt_ID r = i" "tier_view r' = tier_view r"
  shows "view_ok (index_tier r (c\<lparr>tierByID := (tierByID c)(i \<mapsto> r)\<rparr>)) (D\<lparr>db_tiers := put_row tt_ID r' (db_tiers D)\<rparr>)"
proof -
  have id': "tt_ID r' = i" using tier_view_fields [OF r(3)] r(2) by simp
  have ind: "indexed tier_key (tierByID c) (tierByBackingRef c)" using v by (auto simp: view_ok_def)
  have "indexed tier_key ((tierByID c)(i \<mapsto> r)) (tierByBackingRef (index_tier r (c\<lparr>tierByID := (tierByID c)(i \<mapsto> r)\<rparr>)))"
  proof (cases "BackingRef r = []")
    case True
    then have "tier_key r = None" by (simp add: tier_key_def)
    then have "indexed tier_key ((tierByID c)(i \<mapsto> r)) (tierByBackingRef c)"
      using r(1) t by (intro indexed_upd_none [OF ind]) auto
    then show ?thesis using True by (simp add: index_tier_def)
  next
    case False
    then have k: "tier_key r = Some (BackendKind r, BackingRef r)" by (simp add: tier_key_def)
    have "i' = i \<longleftrightarrow> tier_key r' = Some (BackendKind r, BackingRef r)" if "tierByID c i' = Some r'" for i' r'
      using that t r(1) k indexed_unique [OF ind that t] view_ok_ids(3) [OF v] by (metis option.inject)
    from indexed_upd [OF ind k this] show ?thesis using False by (simp add: index_tier_def)
  qed
  moreover have "(\<lambda>k. map_option tier_view (((tierByID c)(i \<mapsto> r)) k)) =
      (\<lambda>k. map_option tier_view (find_row tt_ID k (put_row tt_ID r' (db_tiers D))))"
    using v r(3) by (auto simp: view_ok_def fun_eq_iff find_put_row_at id')
  ultimately show ?thesis using v by (auto simp: view_ok_def)
qed

text \<open>One write, applied to both sides.\<close>

lemmas db_op_defs = UpsertMdadmManagedTarget_def DeleteMdadmManagedTarget_def UpsertMdadmManagedNamespace_def
  DeleteMdadmManagedNamespace_def CreateTierTarget_def UpdateTierTargetPolicy_def DeleteTierTarget_def
  UpdateTierTargetActivity_def pruneEmptyPlacementDomain_def ensurePlacementDomain_def GetTierTarget_def

lemma applyOp_keys: "keys_ok D \<Longrightarrow> keys_ok (applyOp now op D)"
  by (cases op) (auto simp: applyOp_def db_op_defs keys_ok_def Let_def distinct_put_row distinct_del_row find_row_None
      split: option.splits)

lemma applyOp_namespaces [simp]: "db_namespaces (applyOp now op D) = db_namespaces D"
  by (cases op) (auto simp: applyOp_def db_op_defs Let_def split: option.splits)

lemma view_ok_upsert_mdadm:
  assumes v: "view_ok c D" "keys_ok D" and ok: "write_ok (db_namespaces D) c (opUpsertMdadm row)"
  shows "view_ok (view_write (opUpsertMdadm row) c) (applyOp now (opUpsertMdadm row) D)"
proof -
  have rows: "mdadmByID c (TierTargetID x) = Some x" if "x \<in> set (db_mdadm D)" for x
    using v that by (auto simp: view_ok_def keys_ok_def find_row_distinct)
  have "find_row tt_ID (TierTargetID row) (db_tiers D) \<noteq> None" using ok view_ok_tier_None [OF v(1)] by simp
  moreover have "\<not> list_ex (\<lambda>x. TierTargetID x \<noteq> TierTargetID row \<and> PoolName x = PoolName row \<and> TierName x = TierName row) (db_mdadm D)"
    using rows ok by (auto simp: list_ex_iff)
  ultimately have D: "applyOp now (opUpsertMdadm row) D = D\<lparr>db_mdadm := put_row TierTargetID row (db_mdadm D)\<rparr>"
    by (auto simp: applyOp_def UpsertMdadmManagedTarget_def)
  have "indexed mdadm_key ((mdadmByID c)(TierTargetID row \<mapsto> row)) ((mdadmByPoolTier c)((PoolName row, TierName row) \<mapsto> row))"
    using v(1) ok by (intro indexed_upd) (auto simp: view_ok_def mdadm_key_def)
  then show ?thesis unfolding D using v(1) by (auto simp: view_ok_def view_write_def find_put_row)
qed

lemma view_ok_upsert_ns:
  assumes v: "view_ok c D" "keys_ok D" and ok: "write_ok (db_namespaces D) c (opUpsertMdadmNs row)"
  shows "view_ok (view_write (opUpsertMdadmNs row) c) (applyOp now (opUpsertMdadmNs row) D)"
proof -
  have rows: "nsByID c (ns_NamespaceID x) = Some x" if "x \<in> set (db_mdadm_ns D)" for x
    using v that by (auto simp: view_ok_def keys_ok_def find_row_distinct)
  then have "\<not> list_ex (\<lambda>x. ns_NamespaceID x \<noteq> ns_NamespaceID row \<and> ns_PoolName x = ns_PoolName row) (db_mdadm_ns D)"
    using ok by (auto simp: list_ex_iff)
  then have D: "applyOp now (opUpsertMdadmNs row) D = D\<lparr>db_mdadm_ns := put_row ns_NamespaceID row (db_mdadm_ns D)\<rparr>"
    using ok by (auto simp: applyOp_def UpsertMdadmManagedNamespace_def)
  have "indexed ns_key ((nsByID c)(ns_NamespaceID row \<mapsto> row)) ((nsByPool c)(ns_PoolName row \<mapsto> row))"
    using v(1) ok by (intro indexed_upd) (auto simp: view_ok_def ns_key_def)
  then show ?thesis unfolding D using v(1) by (auto simp: view_ok_def view_write_def find_put_row)
qed

lemma view_ok_tables:
  assumes "view_ok c D" "(\<lambda>k. find_row TierTargetID k (db_mdadm D')) = (\<lambda>k. find_row TierTargetID k (db_mdadm D))"
    "db_tiers D' = db_tiers D" "(\<lambda>k. find_row ns_NamespaceID k (db_mdadm_ns D')) = (\<lambda>k. find_row ns_NamespaceID k (db_mdadm_ns D))"
  shows "view_ok c D'"
  using assms(1) unfolding view_ok_def assms(2-4) .

lemma view_ok_delete_mdadm:
  assumes v: "view_ok c D"
  shows "view_ok (view_write (opDeleteMdadm tid) c) (applyOp now (opDeleteMdadm tid) D)"
proof (cases "mdadmByID c tid")
  case None
  have "mdadmByID c = (\<lambda>k. find_row TierTargetID k (db_mdadm D))" using v by (simp add: view_ok_def)
  then have "find_row TierTargetID tid (db_mdadm D) = None" using None by simp
  then have eq: "(\<lambda>k. find_row TierTargetID k (db_mdadm D))(tid := None) = (\<lambda>k. find_row TierTargetID k (db_mdadm D))"
    by (intro fun_upd_idem)
  have "view_write (opDeleteMdadm tid) c = c" using None by (simp add: view_write_def)
  then show ?thesis unfolding applyOp_def DeleteMdadmManagedTarget_def
    by (simp only: cacheOp.case snd_conv) (rule view_ok_tables [OF v], simp_all add: find_del_row eq)
next
  case (Some r)
  have "indexed mdadm_key ((mdadmByID c)(tid := None)) ((mdadmByPoolTier c)((PoolName r, TierName r) := None))"
  proof -
    note ind = view_ok_indexed(1) [OF v]
    have "j = tid" if "mdadmByID c j = Some r" for j using view_ok_ids(1) [OF v that] view_ok_ids(1) [OF v Some] by simp
    from indexed_del [OF ind Some this] show ?thesis by (simp add: mdadm_key_def)
  qed
  then show ?thesis using v Some by (auto simp: view_ok_def view_write_def applyOp_def DeleteMdadmManagedTarget_def find_del_row)
qed

lemma view_ok_delete_ns:
  assumes v: "view_ok c D"
  shows "view_ok (view_write (opDeleteMdadmNs tid) c) (applyOp now (opDeleteMdadmNs tid) D)"
proof (cases "nsByID c tid")
  case None
  have "nsByID c = (\<lambda>k. find_row ns_NamespaceID k (db_mdadm_ns D))" using v by (simp add: view_ok_def)
  then have "find_row ns_NamespaceID tid (db_mdadm_ns D) = None" using None by simp
  then have eq: "(\<lambda>k. find_row ns_NamespaceID k (db_mdadm_ns D))(tid := None) = (\<lambda>k. find_row ns_NamespaceID k (db_mdadm_ns D))"
    by (intro fun_upd_idem)
  have "view_write (opDeleteMdadmNs tid) c = c" using None by (simp add: view_write_def)
  then show ?thesis unfolding applyOp_def DeleteMdadmManagedNamespace_def
    by (simp only: cacheOp.case snd_conv) (rule view_ok_tables [OF v], simp_all add: find_del_row eq)
next
  case (Some r)
  have "indexed ns_key ((nsByID c)(tid := None)) ((nsByPool c)(ns_PoolName r := None))"
  proof -
    note ind = view_ok_indexed(3) [OF v]
    have "j = tid" if "nsByID c j = Some r" for j using view_ok_ids(2) [OF v that] view_ok_ids(2) [OF v Some] by simp
    from indexed_del [OF ind Some this] show ?thesis by (simp add: ns_key_def)
  qed
  then show ?thesis using v Some by (auto simp: view_ok_def view_write_def applyOp_def DeleteMdadmManagedNamespace_def find_del_row)
qed

lemma view_ok_create_tier:
  assumes v: "view_ok c D" and ok: "write_ok (db_namespaces D) c (opCreateTier row)"
  shows "view_ok (view_write (opCreateTier row) c) (applyOp now (opCreateTier row) D)"
proof -
  define row' where "row' = row\<lparr>CreatedAt := if CreatedAt row = [] then now else CreatedAt row, UpdatedAt := now, PolicyRevision := 1\<rparr>"
  have row': "tier_view row' = tier_view row" "tt_ID row' = tt_ID row" by (simp_all add: row'_def tier_view_def)
  have fresh: "find_row tt_ID (tt_ID row) (db_tiers D) = None" "tierByID c (tt_ID row) = None"
    using ok view_ok_tier_None [OF v] by simp_all
  have D: "applyOp now (opCreateTier row) D =
      (ensurePlacementDomain (PlacementDomain row) D)\<lparr>db_tiers := put_row tt_ID row' (db_tiers D)\<rparr>"
    using ok fresh row'(2)
    by (simp add: applyOp_def CreateTierTarget_def Let_def ensurePlacementDomain_def put_row_def row'_def)
  have ind: "indexed tier_key (tierByID c) (tierByBackingRef c)" using v by (auto simp: view_ok_def)
  have "indexed tier_key ((tierByID c)(tt_ID row \<mapsto> row))
      (tierByBackingRef (index_tier row (c\<lparr>tierByID := (tierByID c)(tt_ID row \<mapsto> row)\<rparr>)))"
  proof (cases "BackingRef row = []")
    case True
    then have "indexed tier_key ((tierByID c)(tt_ID row \<mapsto> row)) (tierByBackingRef c)"
      using fresh by (intro indexed_upd_none [OF ind]) (auto simp: tier_key_def)
    then show ?thesis using True by (simp add: index_tier_def)
  next
    case False
    then have "tier_key row = Some (BackendKind row, BackingRef row)" by (simp add: tier_key_def)
    then have "indexed tier_key ((tierByID c)(tt_ID row \<mapsto> row))
        ((tierByBackingRef c)((BackendKind row, BackingRef row) \<mapsto> row))"
      using ok False fresh by (intro indexed_upd [OF ind]) fastforce+
    then show ?thesis using False by (simp add: index_tier_def)
  qed
  moreover have "(\<lambda>k. map_option tier_view (((tierByID c)(tt_ID row \<mapsto> row)) k)) =
      (\<lambda>k. map_option tier_view (find_row tt_ID k (put_row tt_ID row' (db_tiers D))))"
    using v row' by (auto simp: view_ok_def fun_eq_iff find_put_row_at)
  ultimately show ?thesis
    unfolding D using v by (auto simp: view_ok_def view_write_def ensurePlacementDomain_def)
qed

lemma view_ok_delete_tier:
  assumes v: "view_ok c D" and ok: "write_ok (db_namespaces D) c (opDeleteTier tid)"
  shows "view_ok (view_write (opDeleteTier tid) c) (applyOp now (opDeleteTier tid) D)"
proof (cases "tierByID c tid")
  case None
  with view_ok_tier_None [OF v, of tid] have "find_row tt_ID tid (db_tiers D) = None" by simp
  then show ?thesis using v None by (simp add: view_write_def applyOp_def DeleteTierTarget_def GetTierTarget_def)
next
  case (Some r)
  then obtain r' where r': "find_row tt_ID tid (db_tiers D) = Some r'" using view_ok_tier [OF v] by blast
  have D: "db_tiers (applyOp now (opDeleteTier tid) D) = del_row tt_ID tid (db_tiers D)"
    "db_mdadm (applyOp now (opDeleteTier tid) D) = del_row TierTargetID tid (db_mdadm D)"
    "db_mdadm_ns (applyOp now (opDeleteTier tid) D) = db_mdadm_ns D"
    using r' by (simp_all add: applyOp_def DeleteTierTarget_def GetTierTarget_def pruneEmptyPlacementDomain_def)
  have m: "mdadmByID c = (mdadmByID c)(tid := None)" using ok by auto
  have "indexed tier_key ((tierByID c)(tid := None))
      (case tier_key r of None \<Rightarrow> tierByBackingRef c | Some k \<Rightarrow> (tierByBackingRef c)(k := None))"
    using v Some view_ok_ids(3) [OF v] by (intro indexed_del) (auto simp: view_ok_def)
  moreover have "view_write (opDeleteTier tid) c = c\<lparr>tierByID := (tierByID c)(tid := None),
      tierByBackingRef := (case tier_key r of None \<Rightarrow> tierByBackingRef c | Some k \<Rightarrow> (tierByBackingRef c)(k := None))\<rparr>"
    using Some by (simp add: view_write_def Let_def tier_key_def)
  moreover have "(\<lambda>k. map_option tier_view (((tierByID c)(tid := None)) k)) =
      (\<lambda>k. map_option tier_view (find_row tt_ID k (del_row tt_ID tid (db_tiers D))))"
    using v by (auto simp: view_ok_def fun_eq_iff find_del_row_at)
  ultimately show ?thesis using v m by (auto simp: view_ok_def D find_del_row)
qed

lemma view_ok_policy:
  assumes v: "view_ok c D" and ok: "write_ok (db_namespaces D) c (opUpdatePolicy tid f t)"
  shows "view_ok (view_write (opUpdatePolicy tid f t) c) (applyOp now (opUpdatePolicy tid f t) D)"
proof (cases "tierByID c tid")
  case None
  with view_ok_tier_None [OF v, of tid] have "find_row tt_ID tid (db_tiers D) = None" by simp
  then show ?thesis using v None ok
    by (simp add: view_write_def applyOp_def UpdateTierTargetPolicy_def GetTierTarget_def)
next
  case (Some r)
  then obtain r' where r': "find_row tt_ID tid (db_tiers D) = Some r'" "tier_view r' = tier_view r" using view_ok_tier [OF v] by blast
  from view_ok_put_tier [OF v Some, of "r\<lparr>TargetFillPct := f, FullThresholdPct := t\<rparr>"
      "r'\<lparr>TargetFillPct := f, FullThresholdPct := t, PolicyRevision := wrap64 (PolicyRevision r' + 1), UpdatedAt := now\<rparr>"]
  show ?thesis using r' Some ok view_ok_ids(3) [OF v Some]
    by (cases r; cases r') (simp add: view_write_def Let_def applyOp_def UpdateTierTargetPolicy_def GetTierTarget_def
        tier_key_def tier_view_def)
qed

lemma view_ok_activity:
  assumes v: "view_ok c D" and ok: "write_ok (db_namespaces D) c (opUpdateActivity tid h b t)"
  shows "view_ok (view_write (opUpdateActivity tid h b t) c) (applyOp now (opUpdateActivity tid h b t) D)"
proof (cases "tierByID c tid")
  case None
  with view_ok_tier_None [OF v, of tid] have "find_row tt_ID tid (db_tiers D) = None" by simp
  then show ?thesis using v None
    by (simp add: view_write_def applyOp_def UpdateTierTargetActivity_def GetTierTarget_def)
next
  case (Some r)
  then obtain r' where r': "find_row tt_ID tid (db_tiers D) = Some r'" "tier_view r' = tier_view r" using view_ok_tier [OF v] by blast
  from view_ok_put_tier [OF v Some, of "r\<lparr>Health := h, ActivityBand := b, ActivityTrend := t\<rparr>"
      "r'\<lparr>Health := h, ActivityBand := b, ActivityTrend := t, UpdatedAt := now\<rparr>"]
  show ?thesis using r' Some ok view_ok_ids(3) [OF v Some]
    by (cases r; cases r') (simp add: view_write_def Let_def applyOp_def UpdateTierTargetActivity_def GetTierTarget_def
        tier_key_def tier_view_def)
qed

lemma view_ok_write:
  assumes "view_ok c D" "keys_ok D" "write_ok (db_namespaces D) c op"
  shows "view_ok (view_write op c) (applyOp now op D)"
proof (cases op)
  case (opUpsertMdadm row)
  with assms show ?thesis by (auto intro!: view_ok_upsert_mdadm simp del: write_ok.simps)
next
  case (opDeleteMdadm tid)
  with assms show ?thesis by (auto intro!: view_ok_delete_mdadm)
next
  case (opCreateTier row)
  with assms show ?thesis by (auto intro!: view_ok_create_tier simp del: write_ok.simps)
next
  case (opDeleteTier tid)
  with assms show ?thesis by (auto intro!: view_ok_delete_tier simp del: write_ok.simps)
next
  case (opUpdatePolicy tid f t)
  with assms show ?thesis by (auto intro!: view_ok_policy simp del: write_ok.simps)
next
  case (opUpdateActivity tid h b t)
  with assms show ?thesis by (auto intro!: view_ok_activity simp del: write_ok.simps)
next
  case (opUpsertMdadmNs row)
  with assms show ?thesis by (auto intro!: view_ok_upsert_ns simp del: write_ok.simps)
next
  case (opDeleteMdadmNs tid)
  with assms show ?thesis by (auto intro!: view_ok_delete_ns)
qed

section \<open>Sequences of writes and drains\<close>

definition tc_inv :: "targetCache \<Rightarrow> bool" where
  "tc_inv c \<longleftrightarrow> (\<forall>clock. view_ok c (apply_batch clock (tc_queue c) (tc_store c))) \<and> keys_ok (tc_store c) \<and>
     (writeMode c = writeThrough \<longrightarrow> tc_queue c = [])"

fun events_ok :: "tc_event list \<Rightarrow> targetCache \<Rightarrow> bool" where
  "events_ok [] c \<longleftrightarrow> True"
| "events_ok (e # es) c \<longleftrightarrow>
     (case e of TcWrite now op \<Rightarrow> write_ok (db_namespaces (tc_store c)) c op | TcDrain clock \<Rightarrow> True) \<and> events_ok es (tc_step e c)"

lemma apply_batch_append:
  "apply_batch clock (xs @ ys) D = apply_batch (\<lambda>i. clock (length xs + i)) ys (apply_batch clock xs D)"
  by (induction xs arbitrary: clock D) simp_all

lemma apply_batch_keys: "keys_ok D \<Longrightarrow> keys_ok (apply_batch clock ops D)"
  by (induction ops arbitrary: clock D) (simp_all add: applyOp_keys)

lemma apply_batch_namespaces [simp]: "db_namespaces (apply_batch clock ops D) = db_namespaces D"
  by (induction ops arbitrary: clock D) simp_all

lemma view_write_other [simp]:
  "tc_store (view_write op c) = tc_store c" "tc_queue (view_write op c) = tc_queue c" "writeMode (view_write op c) = writeMode c"
  by (cases op; simp add: view_write_def Let_def split: option.splits)+

lemma view_ok_cong:
  "view_ok (c\<lparr>tc_store := D'\<rparr>) D = view_ok c D" "view_ok (c\<lparr>tc_queue := xs\<rparr>) D = view_ok c D"
  by (simp_all add: view_ok_def)

lemma tc_step_write: "write_ok nss c op \<Longrightarrow> tc_step (TcWrite now op) c = persist now op (view_write op c)"
  by (cases op) (simp_all add: upsertMdadmTarget_def deleteMdadmTarget_def tc_createTierTarget_def tc_deleteTierTarget_def
      tc_updateTierTargetPolicy_def tc_updateTierTargetActivity_def upsertMdadmNs_def deleteMdadmNs_def)

lemma tc_inv_write:
  assumes "tc_inv c" "write_ok (db_namespaces (tc_store c)) c op"
  shows "tc_inv (tc_step (TcWrite now op) c)"
proof (cases "writeMode c = writeThrough")
  case True
  then have q: "tc_queue c = []" using assms(1) by (simp add: tc_inv_def)
  then have "view_ok c (tc_store c)" using assms(1) by (simp add: tc_inv_def)
  then have "view_ok (view_write op c) (applyOp now op (tc_store c))"
    using assms by (intro view_ok_write) (auto simp: tc_inv_def)
  then show ?thesis using True q assms
    by (simp add: tc_step_write [OF assms(2)] persist_def tc_inv_def view_ok_cong applyOp_keys)
next
  case False
  have "view_ok (view_write op c) (apply_batch clock (tc_queue c @ [op]) (tc_store c))" for clock
    using assms unfolding apply_batch_append by (auto simp: tc_inv_def apply_batch_keys intro!: view_ok_write)
  then show ?thesis using False assms
    by (simp add: tc_step_write [OF assms(2)] persist_def tc_enqueue_def tc_inv_def view_ok_cong)
qed

lemma tc_inv_drain: "tc_inv c \<Longrightarrow> tc_inv (drain clock c)"
  by (auto simp: tc_inv_def drain_def view_ok_def apply_batch_keys)

lemma tc_inv_run: "tc_inv c \<Longrightarrow> events_ok es c \<Longrightarrow> tc_inv (fold tc_step es c)"
proof (induction es arbitrary: c)
  case (Cons e es)
  then have "tc_inv (tc_step e c)"
    by (cases e) (auto simp: tc_inv_drain simp del: write_ok.simps intro!: tc_inv_write)
  with Cons show ?case by simp
qed simp

section \<open>Reloading\<close>

definition idx_load :: "('r \<Rightarrow> 'k option) \<Rightarrow> ('k \<rightharpoonup> 'r) \<Rightarrow> 'r \<Rightarrow> ('k \<rightharpoonup> 'r)" where
  "idx_load key m r = (case key r of None \<Rightarrow> m | Some k \<Rightarrow> m(k \<mapsto> r))"

definition unique_by :: "('r \<Rightarrow> 'k option) \<Rightarrow> 'r list \<Rightarrow> bool" where
  "unique_by key rows \<longleftrightarrow> (\<forall>r \<in> set rows. \<forall>r' \<in> set rows. \<forall>k. key r = Some k \<longrightarrow> key r' = Some k \<longrightarrow> r = r')"

lemma idx_load_rows:
  "unique_by key rows \<Longrightarrow> foldl (idx_load key) Map.empty rows k = Some r \<longleftrightarrow> r \<in> set rows \<and> key r = Some k"
proof (induction rows arbitrary: k r rule: rev_induct)
  case (snoc x rows)
  have u: "unique_by key rows" using snoc.prems by (simp add: unique_by_def)
  show ?case
  proof (cases "key x = Some k")
    case True
    then have "r = x" if "r \<in> set rows" "key r = Some k" using snoc.prems that by (auto simp: unique_by_def)
    with True show ?thesis by (auto simp: idx_load_def)
  next
    case False
    then show ?thesis using snoc.IH [OF u] by (auto simp: idx_load_def split: option.splits)
  qed
qed simp

lemma unique_by_id: "distinct (map key rows) \<Longrightarrow> unique_by (\<lambda>r. Some (key r)) rows"
  by (auto simp: unique_by_def distinct_map inj_on_def)

lemma unique_by_set: "set xs = set ys \<Longrightarrow> unique_by key xs = unique_by key ys"
  by (simp add: unique_by_def)

lemma load_mdadm_fields:
  "mdadmByID (foldl load_mdadm c rows) = foldl (idx_load (\<lambda>r. Some (TierTargetID r))) (mdadmByID c) rows"
  "mdadmByPoolTier (foldl load_mdadm c rows) = foldl (idx_load mdadm_key) (mdadmByPoolTier c) rows"
  "tierByID (foldl load_mdadm c rows) = tierByID c" "tierByBackingRef (foldl load_mdadm c rows) = tierByBackingRef c"
  "nsByID (foldl load_mdadm c rows) = nsByID c" "nsByPool (foldl load_mdadm c rows) = nsByPool c"
  "tc_store (foldl load_mdadm c rows) = tc_store c" "tc_queue (foldl load_mdadm c rows) = tc_queue c"
  "writeMode (foldl load_mdadm c rows) = writeMode c"
  by (induction rows arbitrary: c) (simp_all add: load_mdadm_def idx_load_def mdadm_key_def)

lemma load_ns_fields:
  "nsByID (foldl load_ns c rows) = foldl (idx_load (\<lambda>r. Some (ns_NamespaceID r))) (nsByID c) rows"
  "nsByPool (foldl load_ns c rows) = foldl (idx_load ns_key) (nsByPool c) rows"
  "tierByID (foldl load_ns c rows) = tierByID c" "tierByBackingRef (foldl load_ns c rows) = tierByBackingRef c"
  "mdadmByID (foldl load_ns c rows) = mdadmByID c" "mdadmByPoolTier (foldl load_ns c rows) = mdadmByPoolTier c"
  "tc_store (foldl load_ns c rows) = tc_store c" "tc_queue (foldl load_ns c rows) = tc_queue c"
  "writeMode (foldl load_ns c rows) = writeMode c"
  by (induction rows arbitrary: c) (simp_all add: load_ns_def idx_load_def ns_key_def)

lemma load_tier_fields:
  "tierByID (foldl load_tier c rows) = foldl (idx_load (\<lambda>r. Some (tt_ID r))) (tierByID c) rows"
  "tierByBackingRef (foldl load_tier c rows) = foldl (idx_load tier_key) (tierByBackingRef c) rows"
  "nsByID (foldl load_tier c rows) = nsByID c" "nsByPool (foldl load_tier c rows) = nsByPool c"
  "mdadmByID (foldl load_tier c rows) = mdadmByID c" "mdadmByPoolTier (foldl load_tier c rows) = mdadmByPoolTier c"
  "tc_store (foldl load_tier c rows) = tc_store c" "tc_queue (foldl load_tier c rows) = tc_queue c"
  "writeMode (foldl load_tier c rows) = writeMode c"
  by (induction rows arbitrary: c) (simp_all add: load_tier_def idx_load_def tier_key_def index_tier_def)

text \<open>The queries return every row once.\<close>

definition lawful_queries :: "queries \<Rightarrow> bool" where
  "lawful_queries q \<longleftrightarrow> (\<forall>rows. \<exists>xs. q_mdadm q rows = Some xs \<and> mset xs = mset rows) \<and>
     (\<forall>rows. \<exists>xs. q_tiers q rows = Some xs \<and> mset xs = mset rows) \<and>
     (\<forall>rows. \<exists>xs. q_ns q rows = Some xs \<and> mset xs = mset rows)"

definition unique_keys :: "target_db \<Rightarrow> bool" where
  "unique_keys D \<longleftrightarrow> unique_by mdadm_key (db_mdadm D) \<and> unique_by tier_key (db_tiers D) \<and> unique_by ns_key (db_mdadm_ns D)"

lemma option_eqI: "(\<And>r. a = Some r \<longleftrightarrow> b = Some r) \<Longrightarrow> a = b"
  by (metis not_None_eq)

lemma idx_load_table:
  assumes "distinct (map key rows)" "mset xs = mset rows"
  shows "foldl (idx_load (\<lambda>r. Some (key r))) (\<lambda>_. None) xs = (\<lambda>k. find_row key k rows)"
proof (rule ext)
  fix k
  have s: "set xs = set rows" using assms(2) by (metis set_mset_mset)
  then have "unique_by (\<lambda>r. Some (key r)) xs" using unique_by_id [OF assms(1)] unique_by_set by metis
  then show "foldl (idx_load (\<lambda>r. Some (key r))) Map.empty xs k = find_row key k rows"
    using idx_load_rows [of "\<lambda>r. Some (key r)" xs k] find_row_distinct [OF assms(1), of k] s
    by (intro option_eqI) simp
qed

lemma idx_load_indexed:
  assumes "distinct (map key rows)" "mset xs = mset rows" "unique_by ikey rows"
  shows "indexed ikey (\<lambda>k. find_row key k rows) (foldl (idx_load ikey) (\<lambda>_. None) xs)"
proof -
  have s: "set xs = set rows" using assms(2) by (metis set_mset_mset)
  then have "unique_by ikey xs" using assms(3) unique_by_set by metis
  then show ?thesis
    unfolding indexed_def by (auto simp: idx_load_rows s find_row_distinct [OF assms(1)])
qed

lemma reload_view_ok:
  assumes "lawful_queries q" "keys_ok (tc_store c)" "unique_keys (tc_store c)"
  obtains c' where "reload q c = Some c'" "view_ok c' (tc_store c)" "tc_store c' = tc_store c" "tc_queue c' = tc_queue c"
    "writeMode c' = writeMode c"
proof -
  obtain ms ts ns where q: "q_mdadm q (db_mdadm (tc_store c)) = Some ms" "mset ms = mset (db_mdadm (tc_store c))"
    "q_tiers q (db_tiers (tc_store c)) = Some ts" "mset ts = mset (db_tiers (tc_store c))"
    "q_ns q (db_mdadm_ns (tc_store c)) = Some ns" "mset ns = mset (db_mdadm_ns (tc_store c))"
    using assms(1) unfolding lawful_queries_def by metis
  note d = assms(2) [unfolded keys_ok_def] and u = assms(3) [unfolded unique_keys_def]
  note tabs = idx_load_table [OF conjunct1 [OF d] q(2)] idx_load_table [OF conjunct1 [OF conjunct2 [OF d]] q(4)]
    idx_load_table [OF conjunct2 [OF conjunct2 [OF d]] q(6)]
  note inds = idx_load_indexed [OF conjunct1 [OF d] q(2) conjunct1 [OF u]]
    idx_load_indexed [OF conjunct1 [OF conjunct2 [OF d]] q(4) conjunct1 [OF conjunct2 [OF u]]]
    idx_load_indexed [OF conjunct2 [OF conjunct2 [OF d]] q(6) conjunct2 [OF conjunct2 [OF u]]]
  show ?thesis
    by (rule that [of "foldl load_ns (foldl load_tier (foldl load_mdadm
        (c\<lparr>mdadmByID := Map.empty, mdadmByPoolTier := Map.empty, tierByID := Map.empty, tierByBackingRef := Map.empty,
           nsByID := Map.empty, nsByPool := Map.empty\<rparr>) ms) ts) ns"]) (simp_all add: q reload_def view_ok_def load_mdadm_fields load_tier_fields load_ns_fields
      tabs inds)
qed

lemma view_ok_unique:
  assumes "view_ok c D" "keys_ok D"
  shows "unique_keys D"
proof -
  have m: "mdadmByID c (TierTargetID r) = Some r" if "r \<in> set (db_mdadm D)" for r
    using assms that by (auto simp: view_ok_def keys_ok_def find_row_distinct)
  have n: "nsByID c (ns_NamespaceID r) = Some r" if "r \<in> set (db_mdadm_ns D)" for r
    using assms that by (auto simp: view_ok_def keys_ok_def find_row_distinct)
  have t: "\<exists>t. tierByID c (tt_ID r) = Some t \<and> tier_view t = tier_view r" if "r \<in> set (db_tiers D)" for r
  proof -
    have "find_row tt_ID (tt_ID r) (db_tiers D) = Some r" using assms(2) that by (simp add: keys_ok_def find_row_distinct)
    moreover have "map_option tier_view (tierByID c (tt_ID r)) = map_option tier_view (find_row tt_ID (tt_ID r) (db_tiers D))"
      using assms(1) unfolding view_ok_def by metis
    ultimately show ?thesis by auto
  qed
  have "unique_by tier_key (db_tiers D)" unfolding unique_by_def
  proof (intro ballI allI impI)
    fix r r' k
    assume r: "r \<in> set (db_tiers D)" "tier_key r = Some k" and r': "r' \<in> set (db_tiers D)" "tier_key r' = Some k"
    obtain a where a: "tierByID c (tt_ID r) = Some a" "tier_view a = tier_view r" using t [OF r(1)] by blast
    obtain b where b: "tierByID c (tt_ID r') = Some b" "tier_view b = tier_view r'" using t [OF r'(1)] by blast
    note ind = view_ok_indexed(2) [OF assms(1)]
    have "tier_key a = Some k" "tier_key b = Some k"
      using tier_view_fields [OF a(2)] tier_view_fields [OF b(2)] r(2) r'(2) by simp_all
    then have "a = b" by (rule indexed_unique [OF ind a(1) b(1)])
    then have "tt_ID r = tt_ID r'" using tier_view_fields [OF a(2)] tier_view_fields [OF b(2)] by simp
    moreover have "unique_by (\<lambda>r. Some (tt_ID r)) (db_tiers D)" using assms(2) by (intro unique_by_id) (simp add: keys_ok_def)
    ultimately show "r = r'" using r(1) r'(1) unfolding unique_by_def by simp
  qed
  moreover have "unique_by mdadm_key (db_mdadm D)"
    unfolding unique_by_def using indexed_unique [OF view_ok_indexed(1) [OF assms(1)] m m] by simp
  moreover have "unique_by ns_key (db_mdadm_ns D)"
    unfolding unique_by_def using indexed_unique [OF view_ok_indexed(3) [OF assms(1)] n n] by simp
  ultimately show ?thesis by (simp add: unique_keys_def)
qed

section \<open>Reading the cache is reading the database\<close>

definition same_reads :: "targetCache \<Rightarrow> targetCache \<Rightarrow> bool" where
  "same_reads c c' \<longleftrightarrow>
     (\<forall>i. getMdadmByID i c = getMdadmByID i c') \<and> (\<forall>p t. getMdadmByPoolTier p t c = getMdadmByPoolTier p t c') \<and>
     (\<forall>i. map_option tier_view (getTier i c) = map_option tier_view (getTier i c')) \<and>
     (\<forall>k b. map_option tier_view (getTierByBackingRef b k c) = map_option tier_view (getTierByBackingRef b k c')) \<and>
     (\<forall>i. getMdadmNs i c = getMdadmNs i c') \<and> (\<forall>p. getMdadmNsByPool p c = getMdadmNsByPool p c')"

lemma indexed_same: "indexed key m a \<Longrightarrow> indexed key m b \<Longrightarrow> a = b"
  unfolding indexed_def by (intro ext option_eqI) simp

lemma view_ok_backing:
  assumes v: "view_ok c D" "view_ok c' D" and a: "tierByBackingRef c k = Some a"
  shows "\<exists>b. tierByBackingRef c' k = Some b \<and> tier_view b = tier_view a"
proof -
  obtain i where i: "tierByID c i = Some a" "tier_key a = Some k"
    using view_ok_indexed(2) [OF v(1)] a unfolding indexed_def by blast
  obtain d where d: "find_row tt_ID i (db_tiers D) = Some d" "tier_view d = tier_view a" using view_ok_tier [OF v(1) i(1)] by blast
  have "tierByID c' i \<noteq> None" using d view_ok_tier_None [OF v(2)] by simp
  then obtain b where b: "tierByID c' i = Some b" by auto
  obtain d' where "find_row tt_ID i (db_tiers D) = Some d'" "tier_view d' = tier_view b" using view_ok_tier [OF v(2) b] by blast
  then have "tier_view b = tier_view a" using d by simp
  moreover from this have "tier_key b = Some k" using tier_view_fields i(2) by metis
  then have "tierByBackingRef c' k = Some b" using view_ok_indexed(2) [OF v(2)] b unfolding indexed_def by blast
  ultimately show ?thesis by blast
qed

lemma view_ok_same_reads:
  assumes v: "view_ok c D" "view_ok c' D"
  shows "same_reads c c'"
proof -
  have m: "mdadmByID c = mdadmByID c'" and n: "nsByID c = nsByID c'" using v unfolding view_ok_def by simp_all
  have "mdadmByPoolTier c = mdadmByPoolTier c'"
    using view_ok_indexed(1) [OF v(1)] view_ok_indexed(1) [OF v(2)] m indexed_same by metis
  moreover have "nsByPool c = nsByPool c'"
    using view_ok_indexed(3) [OF v(1)] view_ok_indexed(3) [OF v(2)] n indexed_same by metis
  moreover have "map_option tier_view (tierByBackingRef c k) = map_option tier_view (tierByBackingRef c' k)" for k
    using view_ok_backing [OF v, of k] view_ok_backing [OF v(2,1), of k]
    by (cases "tierByBackingRef c k"; cases "tierByBackingRef c' k") auto
  moreover have "map_option tier_view (tierByID c i) = map_option tier_view (tierByID c' i)" for i
    using v unfolding view_ok_def by metis
  ultimately show ?thesis using m n
    by (simp add: same_reads_def getMdadmByID_def getMdadmByPoolTier_def getTier_def getTierByBackingRef_def getMdadmNs_def
        getMdadmNsByPool_def)
qed

lemma new_cache_inv:
  assumes "lawful_queries q" "keys_ok D" "unique_keys D" "newTargetCache q mode D = Some c"
  shows "tc_inv c"
proof -
  let ?c0 = "\<lparr>tc_store = D, writeMode = resolveWriteMode mode, mdadmByID = Map.empty, mdadmByPoolTier = Map.empty,
       tierByID = Map.empty, tierByBackingRef = Map.empty, nsByID = Map.empty, nsByPool = Map.empty, tc_queue = []\<rparr>"
  obtain c' where "reload q ?c0 = Some c'" "view_ok c' (tc_store ?c0)" "tc_store c' = tc_store ?c0" "tc_queue c' = tc_queue ?c0"
    using reload_view_ok [OF assms(1), of ?c0] assms(2,3) by auto
  then show ?thesis using assms(2,4) by (simp add: tc_inv_def newTargetCache_def)
qed

lemma drained_store: "tc_store (drain clock c) = apply_batch clock (tc_queue c) (tc_store c)"
  by (simp add: drain_def)

text \<open>
  C9. The target cache refines the database: started on a consistent database, after any sequence of
  acceptable writes interleaved with drains, in either write mode, closing the cache and reloading
  it from the tables gives, for every read, the answer the cache gave without the database (up to
  the revision counter and the time stamps, which only the database keeps).
\<close>

theorem target_cache_refines:
  assumes "lawful_queries q" "keys_ok D" "unique_keys D" "newTargetCache q mode D = Some c0" "events_ok evs c0"
  shows "\<exists>c'. reload q (tc_Close clock (fold tc_step evs c0)) = Some c' \<and> same_reads (fold tc_step evs c0) c' \<and> tc_queue c' = []"
proof -
  define c where "c = fold tc_step evs c0"
  have inv: "tc_inv c" unfolding c_def using new_cache_inv [OF assms(1-4)] assms(5) by (rule tc_inv_run)
  let ?d = "drain clock c"
  have v: "view_ok c (tc_store ?d)" and k: "keys_ok (tc_store ?d)"
    using inv by (simp_all add: drained_store tc_inv_def apply_batch_keys)
  have u: "unique_keys (tc_store ?d)" using view_ok_unique [OF v k] .
  obtain c' where c': "reload q ?d = Some c'" "view_ok c' (tc_store ?d)" "tc_queue c' = tc_queue ?d"
    using reload_view_ok [OF assms(1) k u] by metis
  have "tc_queue ?d = []" by (simp add: drain_def)
  with c' view_ok_same_reads [OF v c'(2)] show ?thesis by (simp add: tc_Close_def c_def)
qed

section \<open>Where they part\<close>

text \<open>
  C33. An activity update without band and trend keeps the cached values, as its comment says, but
  erases them in the database: the table row ends up with an empty band and trend.
\<close>

theorem activity_update_erases:
  assumes "tc_inv c" "tierByID c tid = Some r"
  shows "\<exists>r1 r2. getTier tid (drain clock (tc_updateTierTargetActivity now tid health [] [] c)) = Some r1 \<and>
    ActivityBand r1 = ActivityBand r \<and> ActivityTrend r1 = ActivityTrend r \<and>
    GetTierTarget tid (tc_store (drain clock (tc_updateTierTargetActivity now tid health [] [] c))) = Some r2 \<and>
    ActivityBand r2 = [] \<and> ActivityTrend r2 = []"
proof -
  let ?op = "opUpdateActivity tid health [] []"
  let ?c1 = "tc_updateTierTargetActivity now tid health [] [] c"
  have "tierByID (view_write ?op c) tid = Some (r\<lparr>Health := health\<rparr>)"
    using assms(2) by (simp add: view_write_def Let_def)
  then have "getTier tid (drain clock ?c1) = Some (r\<lparr>Health := health\<rparr>)"
    by (simp add: getTier_def drain_def tc_updateTierTargetActivity_def persist_def tc_enqueue_def)
  moreover obtain D clk where D: "tc_store (drain clock ?c1) = applyOp clk ?op D" "view_ok c D"
  proof (cases "writeMode c = writeThrough")
    case True
    then have "tc_queue c = []" using assms(1) by (simp add: tc_inv_def)
    with True assms(1) show ?thesis
      by (intro that [of now "tc_store c"]) (simp_all add: drain_def tc_updateTierTargetActivity_def persist_def tc_inv_def)
  next
    case False
    then show ?thesis using assms(1)
      by (intro that [of "clock (length (tc_queue c))" "apply_batch clock (tc_queue c) (tc_store c)"])
        (simp_all add: drain_def tc_updateTierTargetActivity_def persist_def tc_enqueue_def apply_batch_append tc_inv_def)
  qed
  moreover obtain d where "find_row tt_ID tid (db_tiers D) = Some d" using view_ok_tier [OF D(2) assms(2)] by blast
  then have "GetTierTarget tid (applyOp clk ?op D) =
      Some (d\<lparr>Health := health, ActivityBand := [], ActivityTrend := [], UpdatedAt := clk\<rparr>)"
    using find_row_Some [of tt_ID tid "db_tiers D" d]
    by (simp add: applyOp_def UpdateTierTargetActivity_def GetTierTarget_def find_put_row_at)
  ultimately show ?thesis by simp
qed

text \<open>
  C34. A write updates the view and then, outside the lock, hands its operation on. When two writers
  of one target pass each other in between, the cache keeps the row of one and the database the row
  of the other, for good.
\<close>

theorem racing_writers_diverge:
  assumes "tc_inv c" "writeMode c = writeBack" "write_ok (db_namespaces (tc_store c)) c (opUpsertMdadm row1)"
    "TierTargetID row2 = TierTargetID row1" "PoolName row2 = PoolName row1" "TierName row2 = TierName row1"
  shows "let c1 = view_write (opUpsertMdadm row2) (view_write (opUpsertMdadm row1) c);
             c2 = drain clock (persist t1 (opUpsertMdadm row1) (persist t2 (opUpsertMdadm row2) c1))
         in getMdadmByID (TierTargetID row1) c2 = Some row2 \<and>
            find_row TierTargetID (TierTargetID row1) (db_mdadm (tc_store c2)) = Some row1 \<and> tc_queue c2 = []"
proof -
  define D where "D = apply_batch clock (tc_queue c) (tc_store c)"
  define n where "n = length (tc_queue c)"
  let ?o1 = "opUpsertMdadm row1" and ?o2 = "opUpsertMdadm row2"
  have D: "view_ok c D" "keys_ok D" "db_namespaces D = db_namespaces (tc_store c)"
    using assms(1) by (simp_all add: D_def tc_inv_def apply_batch_keys)
  have "write_ok (db_namespaces D) c ?o2" using assms(3-6) D(3) by simp
  then have v2: "view_ok (view_write ?o2 c) (applyOp (clock n) ?o2 D)" using D by (intro view_ok_write)
  have "write_ok (db_namespaces D) (view_write ?o2 c) ?o1"
    using assms(3-6) D(3) by (auto simp: view_write_def split: if_splits)
  then have "view_ok (view_write ?o1 (view_write ?o2 c)) (applyOp (clock (Suc n)) ?o1 (applyOp (clock n) ?o2 D))"
    using v2 D by (auto simp: applyOp_keys simp del: write_ok.simps intro: view_ok_write [of "view_write ?o2 c"])
  moreover have "mdadmByID (view_write ?o1 (view_write ?o2 c)) (TierTargetID row1) = Some row1" by (simp add: view_write_def)
  ultimately have "find_row TierTargetID (TierTargetID row1) (db_mdadm (applyOp (clock (Suc n)) ?o1 (applyOp (clock n) ?o2 D))) = Some row1"
    unfolding view_ok_def by metis
  then show ?thesis using assms(2,4)
    by (simp add: Let_def persist_def tc_enqueue_def drain_def apply_batch_append D_def n_def getMdadmByID_def)
      (simp add: view_write_def)
qed

lemma sample_facts:
  "lawful_queries table_order" "keys_ok sample_tdb" "unique_keys sample_tdb"
  "newTargetCache table_order mode sample_tdb = Some (sample_cache mode)"
  by (simp_all add: lawful_queries_def table_order_def keys_ok_def unique_keys_def unique_by_def sample_tdb_def sample_tier_def
      newTargetCache_def reload_def sample_cache_def load_tier_def index_tier_def)

lemmas sample_inv = new_cache_inv [OF sample_facts]

theorem target_cache_refines_witness:
  "\<exists>c'. reload table_order (tc_Close (\<lambda>_. ''b'') (fold tc_step
      [TcWrite ''b'' (opUpsertMdadm (sample_row ''/mnt/a'')), TcWrite ''b'' (opUpdatePolicy ''t1'' 30 60)] (sample_cache None))) = Some c' \<and>
    tc_queue c' = []"
proof -
  have "events_ok [TcWrite ''b'' (opUpsertMdadm (sample_row ''/mnt/a'')), TcWrite ''b'' (opUpdatePolicy ''t1'' 30 60)] (sample_cache None)"
    by (simp add: sample_cache_def sample_row_def validateFillPolicy_def)
  from target_cache_refines [OF sample_facts this] show ?thesis by blast
qed

theorem activity_update_erases_witness:
  "\<exists>r2. GetTierTarget ''t1'' (tc_store (drain (\<lambda>_. ''b'') (tc_updateTierTargetActivity ''b'' ''t1'' ''degraded'' [] [] (sample_cache None)))) = Some r2 \<and>
    ActivityBand r2 = [] \<and> ActivityBand sample_tier \<noteq> []"
  using activity_update_erases [OF sample_inv, of None "''t1''" sample_tier "\<lambda>_. ''b''" "''b''" "''degraded''"]
  by (auto simp: sample_cache_def sample_tier_def)

theorem racing_writers_diverge_witness:
  "\<exists>c2. getMdadmByID ''t1'' c2 = Some (sample_row ''/mnt/b'') \<and>
     find_row TierTargetID ''t1'' (db_mdadm (tc_store c2)) = Some (sample_row ''/mnt/a'')"
proof -
  have "write_ok (db_namespaces (tc_store (sample_cache None))) (sample_cache None) (opUpsertMdadm (sample_row ''/mnt/a''))"
    by (simp add: sample_cache_def sample_row_def)
  moreover have "writeMode (sample_cache None) = writeBack" by (simp add: sample_cache_def resolveWriteMode_def)
  ultimately show ?thesis
    using racing_writers_diverge [OF sample_inv, of None "sample_row ''/mnt/a''" "sample_row ''/mnt/b''"]
    unfolding Let_def by (fastforce simp: sample_row_def)
qed

text \<open>
  A target created with a fill of zero is cached as such, while the database stores the default of
  fifty percent.
\<close>

theorem zero_fill_diverges:
  assumes "tt_ID row \<noteq> []" "tierByID c (tt_ID row) = None" "TargetFillPct row = 0" "FullThresholdPct row = 95"
    "tc_inv c" "writeMode c = writeThrough"
  shows "\<exists>c' r1 r2. tc_createTierTarget now None row c = Some (row, c') \<and> getTier (tt_ID row) c' = Some r1 \<and> TargetFillPct r1 = 0 \<and>
    GetTierTarget (tt_ID row) (tc_store c') = Some r2 \<and> TargetFillPct r2 = 50"
proof -
  have "view_ok c (tc_store c)" using assms(5,6) unfolding tc_inv_def by (metis apply_batch.simps(1))
  then have f: "find_row tt_ID (tt_ID row) (db_tiers (tc_store c)) = None" using assms(2) view_ok_tier_None by metis
  then have "find_row tt_ID (tt_ID row) (db_tiers (ensurePlacementDomain x (tc_store c))) = None" for x
    by (simp add: ensurePlacementDomain_def)
  with assms show ?thesis
    by (simp add: tc_createTierTarget_def persist_def view_write_def getTier_def GetTierTarget_def applyOp_def CreateTierTarget_def
        validateFillPolicy_def Let_def find_row_append) (simp add: find_row_def)
qed

end
