(* ===== verification/AdapterTargets.thy ===== *)
theory AdapterTargets
  imports TargetCache
begin

text \<open>
  The accessors of the mdadm adapter (\<^verbatim>\<open>tiering/mdadm/adapter.go\<close>) to its target tables: through the
  target cache, or straight to the database when the cache could not be loaded; the names by which
  targets and namespaces are referred to; and the ranked targets of a pool the planner works on.
\<close>

section \<open>Definitions\<close>

definition mdadm_kind :: string where
  "mdadm_kind = ''mdadm''"

definition backingRefTarget :: "string \<Rightarrow> string \<Rightarrow> string" where
  "backingRefTarget poolName slotName = ''mdadm:'' @ poolName @ '':'' @ slotName"

definition backingRefNamespace :: "string \<Rightarrow> string \<Rightarrow> string" where
  "backingRefNamespace vgName lvName = ''mdadm:'' @ vgName @ ''/'' @ lvName"

definition backingRefManagedNamespace :: "string \<Rightarrow> string" where
  "backingRefManagedNamespace poolName = ''mdadm:ns:'' @ poolName"

text \<open>\<^verbatim>\<open>strings.SplitN(inner, ":", 2)\<close>: at most two parts, cut at the first colon.\<close>

definition parseBackingRefTarget :: "string \<Rightarrow> (string \<times> string) option" where
  "parseBackingRefTarget ref =
     (if take 6 ref \<noteq> ''mdadm:'' then None
      else let inner = drop 6 ref; a = takeWhile (\<lambda>c. c \<noteq> CHR '':'') inner; rest = dropWhile (\<lambda>c. c \<noteq> CHR '':'') inner in
        if rest = [] \<or> a = [] \<or> tl rest = [] then None else Some (a, tl rest))"

definition slotHealthToUnified :: "string \<Rightarrow> string" where
  "slotHealthToUnified slotState =
     (if slotState = ''assigned'' then ''healthy''
      else if slotState = ''degraded'' then ''degraded''
      else if slotState = ''missing'' then ''degraded''
      else ''unknown'')"

datatype target_access = Cached targetCache | Direct target_db

definition NewAdapter :: "queries \<Rightarrow> string option \<Rightarrow> target_db \<Rightarrow> target_access" where
  "NewAdapter q mode D = (case newTargetCache q mode D of None \<Rightarrow> Direct D | Some c \<Rightarrow> Cached c)"

fun listManagedTargets :: "queries \<Rightarrow> string list \<Rightarrow> target_access \<Rightarrow> MdadmManagedTargetRow list option" where
  "listManagedTargets q keys (Cached c) = Some (listMdadmTargets keys c)"
| "listManagedTargets q keys (Direct D) = q_mdadm q (db_mdadm D)"

fun getTierTargetByBackingRef :: "string \<Rightarrow> string \<Rightarrow> target_access \<Rightarrow> TierTargetRow option" where
  "getTierTargetByBackingRef ref kind (Cached c) = getTierByBackingRef ref kind c"
| "getTierTargetByBackingRef ref kind (Direct D) = find (\<lambda>t. BackingRef t = ref \<and> BackendKind t = kind) (db_tiers D)"

fun upsertManagedTarget :: "string \<Rightarrow> MdadmManagedTargetRow \<Rightarrow> target_access \<Rightarrow> sql_error option \<times> target_access" where
  "upsertManagedTarget now row (Cached c) = (None, Cached (upsertMdadmTarget now row c))"
| "upsertManagedTarget now row (Direct D) = map_prod (\<lambda>e. e) Direct (UpsertMdadmManagedTarget row D)"

fun deleteManagedTarget :: "string \<Rightarrow> string \<Rightarrow> target_access \<Rightarrow> sql_error option \<times> target_access" where
  "deleteManagedTarget now tid (Cached c) = (None, Cached (deleteMdadmTarget now tid c))"
| "deleteManagedTarget now tid (Direct D) = map_prod (\<lambda>e. e) Direct (DeleteMdadmManagedTarget tid D)"

fun createTierTarget :: "string \<Rightarrow> string option \<Rightarrow> TierTargetRow \<Rightarrow> target_access \<Rightarrow> sql_error option \<times> target_access" where
  "createTierTarget now newID row (Cached c) =
     (case tc_createTierTarget now newID row c of None \<Rightarrow> (Some NoID, Cached c) | Some (_, c') \<Rightarrow> (None, Cached c'))"
| "createTierTarget now newID row (Direct D) = map_prod (\<lambda>e. e) Direct (CreateTierTarget now newID row D)"

fun deleteTierTarget :: "string \<Rightarrow> string \<Rightarrow> target_access \<Rightarrow> sql_error option \<times> target_access" where
  "deleteTierTarget now tid (Cached c) = (None, Cached (tc_deleteTierTarget now tid c))"
| "deleteTierTarget now tid (Direct D) = map_prod (\<lambda>e. e) Direct (DeleteTierTarget tid D)"

fun updateTierTargetActivity :: "string \<Rightarrow> string \<Rightarrow> string \<Rightarrow> string \<Rightarrow> string \<Rightarrow> target_access \<Rightarrow> sql_error option \<times> target_access" where
  "updateTierTargetActivity now tid h b t (Cached c) = (None, Cached (tc_updateTierTargetActivity now tid h b t c))"
| "updateTierTargetActivity now tid h b t (Direct D) = map_prod (\<lambda>e. e) Direct (UpdateTierTargetActivity now tid h b t D)"

fun updateTierTargetPolicy :: "string \<Rightarrow> string \<Rightarrow> int \<Rightarrow> int \<Rightarrow> target_access \<Rightarrow> sql_error option \<times> target_access" where
  "updateTierTargetPolicy now tid f t (Cached c) = (None, Cached (tc_updateTierTargetPolicy now tid f t c))"
| "updateTierTargetPolicy now tid f t (Direct D) = map_prod (\<lambda>e. e) Direct (UpdateTierTargetPolicy now tid f t D)"

fun getManagedNamespace :: "string \<Rightarrow> target_access \<Rightarrow> MdadmManagedNamespaceRow option" where
  "getManagedNamespace nid (Cached c) = getMdadmNs nid c"
| "getManagedNamespace nid (Direct D) = find_row ns_NamespaceID nid (db_mdadm_ns D)"

fun getManagedNamespaceByPool :: "string \<Rightarrow> target_access \<Rightarrow> MdadmManagedNamespaceRow option" where
  "getManagedNamespaceByPool pool (Cached c) = getMdadmNsByPool pool c"
| "getManagedNamespaceByPool pool (Direct D) = find_row ns_PoolName pool (db_mdadm_ns D)"

fun listManagedNamespaces :: "queries \<Rightarrow> string list \<Rightarrow> target_access \<Rightarrow> MdadmManagedNamespaceRow list option" where
  "listManagedNamespaces q keys (Cached c) = Some (listMdadmNs keys c)"
| "listManagedNamespaces q keys (Direct D) = q_ns q (db_mdadm_ns D)"

fun upsertManagedNamespace :: "string \<Rightarrow> MdadmManagedNamespaceRow \<Rightarrow> target_access \<Rightarrow> sql_error option \<times> target_access" where
  "upsertManagedNamespace now row (Cached c) = (None, Cached (upsertMdadmNs now row c))"
| "upsertManagedNamespace now row (Direct D) = map_prod (\<lambda>e. e) Direct (UpsertMdadmManagedNamespace row D)"

fun deleteManagedNamespace :: "string \<Rightarrow> string \<Rightarrow> target_access \<Rightarrow> sql_error option \<times> target_access" where
  "deleteManagedNamespace now nid (Cached c) = (None, Cached (deleteMdadmNs now nid c))"
| "deleteManagedNamespace now nid (Direct D) = map_prod (\<lambda>e. e) Direct (DeleteMdadmManagedNamespace nid D)"

text \<open>\<^verbatim>\<open>poolRankedTargets\<close>: the pool's targets that have a tier target, by rank.\<close>

definition rank_target :: "target_access \<Rightarrow> string \<Rightarrow> MdadmManagedTargetRow \<Rightarrow> rankedPoolTarget option" where
  "rank_target acc poolName t =
     (if PoolName t \<noteq> poolName then None
      else map_option (\<lambda>tt. \<lparr>rt_rank = tt_Rank tt, rt_target = t, targetFillPct = TargetFillPct tt,
          fullThresholdPct = FullThresholdPct tt\<rparr>)
        (getTierTargetByBackingRef (backingRefTarget (PoolName t) (TierName t)) mdadm_kind acc))"

definition poolRankedTargets :: "rankedPoolTarget sorter \<Rightarrow> queries \<Rightarrow> string list \<Rightarrow> target_access \<Rightarrow> string \<Rightarrow> rankedPoolTarget list" where
  "poolRankedTargets srt q keys acc poolName =
     (case listManagedTargets q keys acc of
        None \<Rightarrow> []
      | Some targets \<Rightarrow> srt (\<lambda>a b. rt_rank a < rt_rank b) (List.map_filter (rank_target acc poolName) targets))"

section \<open>References\<close>

lemma takeWhile_colon: "CHR '':'' \<notin> set p \<Longrightarrow> takeWhile (\<lambda>c. c \<noteq> CHR '':'') (p @ CHR '':'' # s) = p"
  by (induction p) auto

lemma dropWhile_colon: "CHR '':'' \<notin> set p \<Longrightarrow> dropWhile (\<lambda>c. c \<noteq> CHR '':'') (p @ CHR '':'' # s) = CHR '':'' # s"
  by (induction p) auto

text \<open>A reference names its pool and slot as long as the pool name has no colon.\<close>

lemma parse_backingRefTarget:
  "p \<noteq> [] \<Longrightarrow> s \<noteq> [] \<Longrightarrow> CHR '':'' \<notin> set p \<Longrightarrow> parseBackingRefTarget (backingRefTarget p s) = Some (p, s)"
  by (simp add: parseBackingRefTarget_def backingRefTarget_def takeWhile_colon dropWhile_colon)

section \<open>Ranked targets\<close>

lemma rank_weak_order: "weak_order (\<lambda>a b. rt_rank a < rt_rank b)"
  by (auto simp: weak_order_def)

lemma poolRankedTargets_sorted:
  assumes "go_sort srt"
  shows "sorted (map rt_rank (poolRankedTargets srt q keys acc pool))"
proof -
  have "sorted_wrt (\<lambda>x y. \<not> rt_rank y < rt_rank x) (srt (\<lambda>a b. rt_rank a < rt_rank b) xs)" for xs
    using go_sort.srt_sorted [OF assms rank_weak_order] .
  then show ?thesis
    by (simp add: poolRankedTargets_def sorted_map not_less split: option.splits)
qed

lemma poolRankedTargets_rows:
  assumes "go_sort srt" "rt \<in> set (poolRankedTargets srt q keys acc pool)"
  shows "PoolName (rt_target rt) = pool \<and> (\<exists>ts. listManagedTargets q keys acc = Some ts \<and> rt_target rt \<in> set ts)"
  using assms(2)
  by (cases "listManagedTargets q keys acc") (auto simp: poolRankedTargets_def go_sort.srt_set [OF assms(1)] set_map_filter rank_target_def
      split: if_splits)

end
