(* ===== verification/Spindown.thy ===== *)
theory Spindown
  imports GoStrings Complex_Main
begin

text \<open>
  The spindown policy, \<^verbatim>\<open>tierd/internal/spindown\<close>: when background maintenance of a pool may
  touch its disks (\<^verbatim>\<open>policy.go\<close>), and how long the disks were seen in standby (\<^verbatim>\<open>observe.go\<close>);
  with the configuration table of \<^verbatim>\<open>db/config.go\<close> both settings live in.

  Instants are nanoseconds since a local midnight that starts a Monday, in a time zone whose offset
  is constant and a whole number of minutes. Timestamps that the code formats for output stay
  instants. JSON encoding is a parameter.
\<close>

section \<open>Definitions\<close>

subsection \<open>The configuration table\<close>

datatype db_error = ErrNotFound | ErrQuery

record config_db =
  cfg_rows :: "string \<rightharpoonup> string"
  cfg_read_fails :: "string \<Rightarrow> bool"
  cfg_write_fails :: "string \<Rightarrow> bool"

datatype policy_error = DbError | BadBool | BadJson | BadDay | BadStart | BadEnd | SameStartEnd

definition GetConfig :: "config_db \<Rightarrow> string \<Rightarrow> string \<times> db_error option" where
  "GetConfig s key =
     (if cfg_read_fails s key then ([], Some ErrQuery)
      else case cfg_rows s key of None \<Rightarrow> ([], Some ErrNotFound) | Some val \<Rightarrow> (val, None))"

definition SetConfig :: "config_db \<Rightarrow> string \<Rightarrow> string \<Rightarrow> db_error option \<times> config_db" where
  "SetConfig s key val =
     (if cfg_write_fails s key then (Some ErrQuery, s) else (None, s\<lparr>cfg_rows := (cfg_rows s)(key \<mapsto> val)\<rparr>))"

definition GetBoolConfig :: "config_db \<Rightarrow> string \<Rightarrow> bool \<Rightarrow> policy_error + bool" where
  "GetBoolConfig s key def =
     (case GetConfig s key of
        (_, Some ErrNotFound) \<Rightarrow> Inr def
      | (_, Some ErrQuery) \<Rightarrow> Inl DbError
      | (val, None) \<Rightarrow>
          if val \<in> {''1'', ''true'', ''yes'', ''on''} then Inr True
          else if val \<in> {''0'', ''false'', ''no'', ''off''} then Inr False
          else Inl BadBool)"

definition SetBoolConfig :: "config_db \<Rightarrow> string \<Rightarrow> bool \<Rightarrow> db_error option \<times> config_db" where
  "SetBoolConfig s key val = (if val then SetConfig s key ''1'' else SetConfig s key ''0'')"

subsection \<open>Keys\<close>

definition scopedKey :: "string \<Rightarrow> string \<Rightarrow> string \<Rightarrow> string" where
  "scopedKey scope name suffix = scope @ ''.spindown.'' @ name @ ''.'' @ suffix"

definition PoolEnabledKey :: "string \<Rightarrow> string" where
  "PoolEnabledKey poolName = scopedKey ''pool'' poolName ''enabled''"

definition PoolWindowsKey :: "string \<Rightarrow> string" where
  "PoolWindowsKey poolName = scopedKey ''pool'' poolName ''active_windows''"

definition PoolTargetBalanceStatusKey :: "string \<Rightarrow> string" where
  "PoolTargetBalanceStatusKey poolName = scopedKey ''pool'' poolName ''target_balance''"

definition ZFSEnabledKey :: "string \<Rightarrow> string" where
  "ZFSEnabledKey poolName = scopedKey ''zfs'' poolName ''enabled''"

definition ZFSWindowsKey :: "string \<Rightarrow> string" where
  "ZFSWindowsKey poolName = scopedKey ''zfs'' poolName ''active_windows''"

definition Enabled :: "config_db \<Rightarrow> string \<Rightarrow> policy_error + bool" where
  "Enabled s key = GetBoolConfig s key False"

subsection \<open>Windows\<close>

record ActiveWindow =
  Days :: "string list"
  Start :: string
  End :: string

record Decision =
  Allowed :: bool
  ActiveNow :: bool
  NextActiveAt :: "int option"
  Reason :: string

definition minute_ns :: int where "minute_ns = 60000000000"

definition week_days :: "string list" where
  "week_days = [''mon'', ''tue'', ''wed'', ''thu'', ''fri'', ''sat'', ''sun'']"

definition parseClock :: "string \<Rightarrow> int option" where
  "parseClock s =
     (case split_on CHR '':'' s of
        [h, m] \<Rightarrow>
          (case Atoi h of
             None \<Rightarrow> None
           | Some hour \<Rightarrow>
               if hour < 0 \<or> hour > 23 then None
               else case Atoi m of
                 None \<Rightarrow> None
               | Some minute \<Rightarrow> if minute < 0 \<or> minute > 59 then None else Some (hour * 60 + minute))
      | _ \<Rightarrow> None)"

text \<open>The days one entry stands for.\<close>

definition expand_day :: "string \<Rightarrow> string list option" where
  "expand_day day =
     (let d = ToLower (TrimSpace day) in
      if d \<in> {''daily'', ''all''} then Some week_days
      else if d = ''weekdays'' then Some [''mon'', ''tue'', ''wed'', ''thu'', ''fri'']
      else if d = ''weekends'' then Some [''sat'', ''sun'']
      else if d \<in> {''mon'', ''monday''} then Some [''mon'']
      else if d \<in> {''tue'', ''tuesday''} then Some [''tue'']
      else if d \<in> {''wed'', ''wednesday''} then Some [''wed'']
      else if d \<in> {''thu'', ''thursday''} then Some [''thu'']
      else if d \<in> {''fri'', ''friday''} then Some [''fri'']
      else if d \<in> {''sat'', ''saturday''} then Some [''sat'']
      else if d \<in> {''sun'', ''sunday''} then Some [''sun'']
      else None)"

fun expand_days :: "string list \<Rightarrow> string set \<Rightarrow> string set option" where
  "expand_days [] expanded = Some expanded"
| "expand_days (day # days) expanded =
     (case expand_day day of None \<Rightarrow> None | Some ds \<Rightarrow> expand_days days (expanded \<union> set ds))"

definition normalizeDays :: "string list \<Rightarrow> string list option" where
  "normalizeDays days =
     (if days = [] then Some week_days
      else map_option (\<lambda>expanded. filter (\<lambda>d. d \<in> expanded) week_days) (expand_days days {}))"

definition normalize_window :: "ActiveWindow \<Rightarrow> policy_error + ActiveWindow" where
  "normalize_window w =
     (case normalizeDays (Days w) of
        None \<Rightarrow> Inl BadDay
      | Some days \<Rightarrow>
          if parseClock (Start w) = None then Inl BadStart
          else if parseClock (End w) = None then Inl BadEnd
          else if Start w = End w then Inl SameStartEnd
          else Inr \<lparr>Days = days, Start = Start w, End = End w\<rparr>)"

fun NormalizeWindows :: "ActiveWindow list \<Rightarrow> policy_error + ActiveWindow list" where
  "NormalizeWindows [] = Inr []"
| "NormalizeWindows (w # ws) =
     (case normalize_window w of
        Inl e \<Rightarrow> Inl e
      | Inr w' \<Rightarrow> (case NormalizeWindows ws of Inl e \<Rightarrow> Inl e | Inr ws' \<Rightarrow> Inr (w' # ws')))"

definition hasDay :: "string list \<Rightarrow> string \<Rightarrow> bool" where
  "hasDay days day = list_ex (\<lambda>d. d = day) days"

text \<open>The minute of the day and the name of the day of an instant.\<close>

definition minute_of_day :: "int \<Rightarrow> int" where
  "minute_of_day t = (t div minute_ns) mod 1440"

definition day_name :: "int \<Rightarrow> string" where
  "day_name t = week_days ! nat ((t div minute_ns div 1440) mod 7)"

definition clock_or_0 :: "string \<Rightarrow> int" where
  "clock_or_0 s = (case parseClock s of None \<Rightarrow> 0 | Some m \<Rightarrow> m)"

definition windowContains :: "ActiveWindow \<Rightarrow> int \<Rightarrow> bool" where
  "windowContains w now =
     (let start = clock_or_0 (Start w);
          end = clock_or_0 (End w);
          nowMinute = minute_of_day now;
          today = day_name now;
          yesterday = day_name (now - 1440 * minute_ns);
          overnight = end \<le> start
      in if \<not> overnight then hasDay (Days w) today \<and> nowMinute \<ge> start \<and> nowMinute < end
         else (hasDay (Days w) today \<and> nowMinute \<ge> start) \<or> (hasDay (Days w) yesterday \<and> nowMinute < end))"

definition IsActive :: "ActiveWindow list \<Rightarrow> int \<Rightarrow> bool" where
  "IsActive windows now = list_ex (\<lambda>w. windowContains w now) windows"

text \<open>The search loop of \<^verbatim>\<open>NextActive\<close>: the first active candidate of \<open>n\<close> consecutive minutes.\<close>

fun first_active :: "ActiveWindow list \<Rightarrow> int \<Rightarrow> nat \<Rightarrow> int option" where
  "first_active windows candidate 0 = None"
| "first_active windows candidate (Suc n) =
     (if IsActive windows candidate then Some candidate else first_active windows (candidate + minute_ns) n)"

definition NextActive :: "ActiveWindow list \<Rightarrow> int \<Rightarrow> int option" where
  "NextActive windows now =
     (if IsActive windows now then Some now
      else first_active windows (now - now mod minute_ns + minute_ns) (8 * 24 * 60))"

text \<open>A window from one in the morning until two on Mondays, and a codec that separates the fields.\<close>

definition monday_night :: ActiveWindow where
  "monday_night = \<lparr>Days = [''Monday''], Start = ''01:00'', End = ''02:00''\<rparr>"

subsection \<open>Loading, storing and deciding\<close>

record 'a json =
  marshal :: "'a \<Rightarrow> string"
  unmarshal :: "string \<Rightarrow> 'a option"

definition LoadWindows :: "ActiveWindow list json \<Rightarrow> config_db \<Rightarrow> string \<Rightarrow> policy_error + ActiveWindow list" where
  "LoadWindows J s key =
     (case GetConfig s key of (val, err) \<Rightarrow>
        if err = Some ErrNotFound \<or> TrimSpace val = [] then Inr []
        else if err \<noteq> None then Inl DbError
        else case unmarshal J val of None \<Rightarrow> Inl BadJson | Some windows \<Rightarrow> NormalizeWindows windows)"

definition StoreWindows :: "ActiveWindow list json \<Rightarrow> config_db \<Rightarrow> string \<Rightarrow> ActiveWindow list \<Rightarrow>
    (policy_error + ActiveWindow list) \<times> config_db" where
  "StoreWindows J s key windows =
     (case NormalizeWindows windows of
        Inl e \<Rightarrow> (Inl e, s)
      | Inr normalized \<Rightarrow>
          (case SetConfig s key (marshal J normalized) of
             (Some _, s') \<Rightarrow> (Inl DbError, s')
           | (None, s') \<Rightarrow> (Inr normalized, s')))"

definition text_window :: "ActiveWindow \<Rightarrow> string" where
  "text_window w = concat (map (\<lambda>f. f @ [CHR '','']) (Start w # End w # Days w))"

definition read_window :: "string \<Rightarrow> ActiveWindow option" where
  "read_window s = (case butlast (split_on CHR '','' s) of
     st # en # ds \<Rightarrow> Some \<lparr>Days = ds, Start = st, End = en\<rparr> | _ \<Rightarrow> None)"

definition text_json :: "ActiveWindow list json" where
  "text_json = \<lparr>marshal = (\<lambda>ws. CHR ''['' # concat (map (\<lambda>w. text_window w @ [CHR '';'']) ws)),
     unmarshal = (\<lambda>s. those (map read_window (butlast (split_on CHR '';'' (tl s)))))\<rparr>"

record TargetBalanceStatus =
  tb_Active :: bool
  StartedAt :: "int option"
  FinishedAt :: "int option"
  CheckedAt :: "int option"
  CandidateCount :: int
  PlannedMoves :: int
  PendingMoves :: int
  Moved :: int
  Skipped :: int
  CandidateExhausted :: bool
  tb_Reason :: string

definition zero_balance :: TargetBalanceStatus where
  "zero_balance = \<lparr>tb_Active = False, StartedAt = None, FinishedAt = None, CheckedAt = None, CandidateCount = 0,
     PlannedMoves = 0, PendingMoves = 0, Moved = 0, Skipped = 0, CandidateExhausted = False, tb_Reason = []\<rparr>"

definition LoadTargetBalanceStatus :: "TargetBalanceStatus json \<Rightarrow> config_db \<Rightarrow> string \<Rightarrow> policy_error + TargetBalanceStatus" where
  "LoadTargetBalanceStatus J s poolName =
     (case GetConfig s (PoolTargetBalanceStatusKey poolName) of (val, err) \<Rightarrow>
        if err = Some ErrNotFound \<or> TrimSpace val = [] then Inr zero_balance
        else if err \<noteq> None then Inl DbError
        else case unmarshal J val of None \<Rightarrow> Inl BadJson | Some status \<Rightarrow> Inr status)"

definition StoreTargetBalanceStatus :: "TargetBalanceStatus json \<Rightarrow> config_db \<Rightarrow> string \<Rightarrow> TargetBalanceStatus \<Rightarrow>
    db_error option \<times> config_db" where
  "StoreTargetBalanceStatus J s poolName status =
     SetConfig s (PoolTargetBalanceStatusKey poolName) (marshal J status)"

definition empty_config :: config_db where
  "empty_config = \<lparr>cfg_rows = (\<lambda>_. None), cfg_read_fails = (\<lambda>_. False), cfg_write_fails = (\<lambda>_. False)\<rparr>"

definition DecisionFor :: "ActiveWindow list json \<Rightarrow> config_db \<Rightarrow> string \<Rightarrow> string \<Rightarrow> int \<Rightarrow>
    policy_error + Decision \<times> ActiveWindow list" where
  "DecisionFor J s enabledKey windowsKey now =
     (case Enabled s enabledKey of
        Inl e \<Rightarrow> Inl e
      | Inr enabled \<Rightarrow>
          (case LoadWindows J s windowsKey of
             Inl e \<Rightarrow> Inl e
           | Inr windows \<Rightarrow>
               if \<not> enabled \<or> windows = []
               then Inr (\<lparr>Allowed = True, ActiveNow = enabled \<and> windows = [], NextActiveAt = None, Reason = []\<rparr>, windows)
               else let active = IsActive windows now in
                 Inr (\<lparr>Allowed = active, ActiveNow = active,
                       NextActiveAt = (if \<not> active then NextActive windows now else None),
                       Reason = ''outside configured spindown active window''\<rparr>, windows)))"

subsection \<open>Observing power states\<close>

definition maxRecentEvents :: nat where "maxRecentEvents = 20"

record WakeEvent =
  At :: int
  FromState :: string
  ToState :: string
  we_Reason :: string

record PowerSummary =
  ObservedSince :: int
  LastObservedAt :: int
  LastWakeAt :: "int option"
  LastWakeReason :: string
  TimeInStandbyPct :: rat
  ObservedStandbySeconds :: int
  RecentWakeEvents :: "WakeEvent list"

record observedDisk =
  since :: int
  lastAt :: int
  lastState :: string
  standbyDuration :: int
  lastWakeAt :: "int option"
  lastWakeReason :: string
  events :: "WakeEvent list"

type_synonym PowerObserver = "string \<rightharpoonup> observedDisk"

definition NewPowerObserver :: PowerObserver where
  "NewPowerObserver = (\<lambda>_. None)"

definition standbyLike :: "string \<Rightarrow> bool" where
  "standbyLike state \<longleftrightarrow> state = ''standby'' \<or> state = ''sleeping''"

text \<open>\<^verbatim>\<open>time.Time.Sub\<close> saturates at the range of an int64.\<close>

definition time_Sub :: "int \<Rightarrow> int \<Rightarrow> int" where
  "time_Sub t u = max (- (2 ^ 63)) (min (2 ^ 63 - 1) (t - u))"

definition add_standby :: "int \<Rightarrow> observedDisk \<Rightarrow> int" where
  "add_standby now d =
     (if standbyLike (lastState d) \<and> now > lastAt d
      then wrap64 (standbyDuration d + time_Sub now (lastAt d)) else standbyDuration d)"

definition push_event :: "WakeEvent \<Rightarrow> WakeEvent list \<Rightarrow> WakeEvent list" where
  "push_event e es = (let es' = es @ [e] in if length es' > maxRecentEvents then drop (length es' - maxRecentEvents) es' else es')"

text \<open>The percentage is exact here; the code rounds it to a float64.\<close>

definition power_summary :: "observedDisk \<Rightarrow> int \<Rightarrow> PowerSummary" where
  "power_summary d now =
     (let standby = add_standby now d;
          total = time_Sub now (since d)
      in \<lparr>ObservedSince = since d, LastObservedAt = lastAt d,
          LastWakeAt = lastWakeAt d,
          LastWakeReason = (case lastWakeAt d of None \<Rightarrow> [] | Some _ \<Rightarrow> lastWakeReason d),
          TimeInStandbyPct = (if total > 0 then of_int standby * 100 / of_int total else 0),
          ObservedStandbySeconds = standby sdiv 1000000000,
          RecentWakeEvents = events d\<rparr>)"

definition new_disk :: "int \<Rightarrow> string \<Rightarrow> observedDisk" where
  "new_disk now state = \<lparr>since = now, lastAt = now, lastState = state, standbyDuration = 0,
     lastWakeAt = None, lastWakeReason = [], events = []\<rparr>"

definition observe_disk :: "int \<Rightarrow> string \<Rightarrow> string \<Rightarrow> observedDisk \<Rightarrow> observedDisk" where
  "observe_disk now state reason d =
     (let d1 = d\<lparr>standbyDuration := add_standby now d\<rparr>;
          reason' = (if reason = [] then ''state transition observed'' else reason);
          d2 = (if standbyLike (lastState d1) \<and> \<not> standbyLike state \<and> state \<noteq> [] \<and> state \<noteq> ''unknown''
                then d1\<lparr>lastWakeAt := Some now, lastWakeReason := reason',
                        events := push_event \<lparr>At = now, FromState = lastState d1, ToState = state, we_Reason = reason'\<rparr> (events d1)\<rparr>
                else d1);
          d3 = (if state \<noteq> [] then d2\<lparr>lastState := state\<rparr> else d2)
      in d3\<lparr>lastAt := now\<rparr>)"

definition Observe :: "int \<Rightarrow> string \<Rightarrow> string \<Rightarrow> string \<Rightarrow> PowerObserver \<Rightarrow> PowerSummary \<times> PowerObserver" where
  "Observe now device state reason ob =
     (let d = (case ob device of None \<Rightarrow> new_disk now state | Some d \<Rightarrow> observe_disk now state reason d)
      in (power_summary d now, ob(device \<mapsto> d)))"

definition record_disk :: "int \<Rightarrow> string \<Rightarrow> string \<Rightarrow> string \<Rightarrow> observedDisk \<Rightarrow> observedDisk" where
  "record_disk now fromState toState reason d =
     (let d1 = d\<lparr>standbyDuration := add_standby now d\<rparr>;
          reason' = (if reason = [] then ''operator action'' else reason);
          d2 = d1\<lparr>events := push_event \<lparr>At = now, FromState = fromState, ToState = toState, we_Reason = reason'\<rparr> (events d1)\<rparr>;
          d3 = (if standbyLike fromState \<and> \<not> standbyLike toState
                then d2\<lparr>lastWakeAt := Some now, lastWakeReason := reason'\<rparr> else d2)
      in d3\<lparr>lastState := toState, lastAt := now\<rparr>)"

definition RecordEvent :: "int \<Rightarrow> string \<Rightarrow> string \<Rightarrow> string \<Rightarrow> string \<Rightarrow> PowerObserver \<Rightarrow> PowerSummary \<times> PowerObserver" where
  "RecordEvent now device fromState toState reason ob =
     (let d = record_disk now fromState toState reason (case ob device of None \<Rightarrow> new_disk now toState | Some d \<Rightarrow> d)
      in (power_summary d now, ob(device \<mapsto> d)))"

text \<open>A call of the observer: the clock it read, and what it was asked.\<close>

datatype observer_call =
    CallObserve int string string string
  | CallRecord int string string string string

fun call_time :: "observer_call \<Rightarrow> int" where
  "call_time (CallObserve now _ _ _) = now"
| "call_time (CallRecord now _ _ _ _) = now"

fun observer_step :: "observer_call \<Rightarrow> PowerObserver \<Rightarrow> PowerSummary \<times> PowerObserver" where
  "observer_step (CallObserve now device state reason) ob = Observe now device state reason ob"
| "observer_step (CallRecord now device fromState toState reason) ob = RecordEvent now device fromState toState reason ob"

fun observer_run :: "observer_call list \<Rightarrow> PowerObserver \<Rightarrow> PowerSummary list \<times> PowerObserver" where
  "observer_run [] ob = ([], ob)"
| "observer_run (c # cs) ob =
     (case observer_step c ob of (x, ob1) \<Rightarrow> (case observer_run cs ob1 of (xs, ob2) \<Rightarrow> (x # xs, ob2)))"

section \<open>Normal windows\<close>

definition canonical_days :: "string list \<Rightarrow> bool" where
  "canonical_days ds \<longleftrightarrow> ds \<noteq> [] \<and> ds = filter (\<lambda>d. d \<in> set ds) week_days"

definition normal_window :: "ActiveWindow \<Rightarrow> bool" where
  "normal_window w \<longleftrightarrow> canonical_days (Days w) \<and> parseClock (Start w) \<noteq> None \<and> parseClock (End w) \<noteq> None \<and> Start w \<noteq> End w"

lemma expand_day_days: "expand_day day = Some ds \<Longrightarrow> ds \<noteq> [] \<and> set ds \<subseteq> set week_days"
  by (auto simp: expand_day_def Let_def week_days_def split: if_splits)

lemma expand_day_week: "d \<in> set week_days \<Longrightarrow> expand_day d = Some [d]"
proof -
  have "list_all (\<lambda>d. expand_day d = Some [d]) week_days" by code_simp
  then show "d \<in> set week_days \<Longrightarrow> expand_day d = Some [d]" by (simp add: list_all_iff)
qed

lemma expand_days_bounds:
  "expand_days days acc = Some ex \<Longrightarrow> acc \<subseteq> ex \<and> ex \<subseteq> acc \<union> set week_days \<and> (days \<noteq> [] \<longrightarrow> ex \<inter> set week_days \<noteq> {})"
proof (induction days arbitrary: acc)
  case (Cons day days)
  then obtain ds where ds: "expand_day day = Some ds" and rest: "expand_days days (acc \<union> set ds) = Some ex"
    by (auto split: option.splits)
  have "acc \<union> set ds \<subseteq> ex \<and> ex \<subseteq> acc \<union> set ds \<union> set week_days" using Cons.IH [OF rest] by simp
  moreover obtain d where "d \<in> set ds" using expand_day_days [OF ds] by (cases ds) auto
  ultimately show ?case using expand_day_days [OF ds] by blast
qed simp

lemma expand_days_week: "set ds \<subseteq> set week_days \<Longrightarrow> expand_days ds acc = Some (acc \<union> set ds)"
  by (induction ds arbitrary: acc) (auto simp: expand_day_week)

lemma normalizeDays_canonical:
  assumes "normalizeDays days = Some ds"
  shows "canonical_days ds"
proof (cases "days = []")
  case True
  then show ?thesis using assms by (auto simp: normalizeDays_def canonical_days_def week_days_def)
next
  case False
  then obtain ex where ex: "expand_days days {} = Some ex" and ds: "ds = filter (\<lambda>d. d \<in> ex) week_days"
    using assms by (auto simp: normalizeDays_def)
  have "ex \<inter> set week_days \<noteq> {}" using expand_days_bounds [OF ex] False by simp
  then have "ds \<noteq> []" unfolding ds by (auto simp: filter_empty_conv)
  moreover have "filter (\<lambda>d. d \<in> set ds) week_days = ds" unfolding ds by (rule filter_cong) auto
  ultimately show ?thesis by (simp add: canonical_days_def)
qed

lemma canonical_normalizeDays: "canonical_days ds \<Longrightarrow> normalizeDays ds = Some ds"
proof -
  assume ds: "canonical_days ds"
  then have "set ds \<subseteq> set week_days" unfolding canonical_days_def by (metis filter_is_subset)
  then show ?thesis using ds by (simp add: normalizeDays_def expand_days_week canonical_days_def)
qed

lemma normalize_window_normal:
  "normalize_window w = Inr w' \<Longrightarrow> normal_window w' \<and> Start w' = Start w \<and> End w' = End w"
  by (auto simp: normalize_window_def normal_window_def dest: normalizeDays_canonical split: option.splits if_splits)

lemma normal_normalize_window: "normal_window w \<Longrightarrow> normalize_window w = Inr w"
  by (simp add: normalize_window_def normal_window_def canonical_normalizeDays)

lemma NormalizeWindows_normal:
  "NormalizeWindows ws = Inr ws' \<Longrightarrow> list_all normal_window ws' \<and> length ws' = length ws"
  by (induction ws arbitrary: ws') (auto dest: normalize_window_normal split: sum.splits)

lemma normal_NormalizeWindows: "list_all normal_window ws \<Longrightarrow> NormalizeWindows ws = Inr ws"
  by (induction ws) (auto simp: normal_normalize_window)

lemma parseClock_range: "parseClock s = Some m \<Longrightarrow> 0 \<le> m \<and> m < 1440"
  by (auto simp: parseClock_def split: list.splits option.splits if_splits)

section \<open>Finding the next active instant\<close>

lemma minute_ns_pos: "0 < minute_ns" by (simp add: minute_ns_def)

lemma minute_shift: "(t + k * minute_ns) div minute_ns = t div minute_ns + k"
  using minute_ns_pos by simp

lemma div_minute_less: "u < k * minute_ns \<Longrightarrow> u div minute_ns < k"
proof (rule ccontr)
  assume u: "u < k * minute_ns" and "\<not> u div minute_ns < k"
  then have "k * minute_ns \<le> (u div minute_ns) * minute_ns" using minute_ns_pos by (intro mult_right_mono) auto
  also have "\<dots> \<le> u" using minute_ns_pos by (metis div_mult_mod_eq le_add_same_cancel1 pos_mod_sign)
  finally show False using u by simp
qed

lemma day_name_minute: "t div minute_ns = u div minute_ns \<Longrightarrow> day_name t = day_name u"
  by (simp add: day_name_def)

text \<open>Whether a window contains an instant depends on the minute only.\<close>

lemma windowContains_minute:
  assumes "t div minute_ns = u div minute_ns"
  shows "windowContains w t = windowContains w u"
proof -
  have "(t - 1440 * minute_ns) div minute_ns = (u - 1440 * minute_ns) div minute_ns"
    using assms by (simp only: diff_conv_add_uminus mult_minus_left [symmetric] minute_shift)
  then have "day_name (t - 1440 * minute_ns) = day_name (u - 1440 * minute_ns)" by (rule day_name_minute)
  moreover have "day_name t = day_name u" using assms by (rule day_name_minute)
  moreover have "minute_of_day t = minute_of_day u" using assms by (simp add: minute_of_day_def)
  ultimately show ?thesis by (simp only: windowContains_def)
qed

lemma IsActive_minute: "t div minute_ns = u div minute_ns \<Longrightarrow> IsActive ws t = IsActive ws u"
proof -
  assume "t div minute_ns = u div minute_ns"
  then have "(\<lambda>w. windowContains w t) = (\<lambda>w. windowContains w u)" by (intro ext windowContains_minute)
  then show ?thesis by (simp only: IsActive_def)
qed

lemma week_days_length: "length week_days = 7"
  by (simp add: week_days_def)

text \<open>A window starts on each of its days.\<close>

lemma window_starts:
  assumes "normal_window w"
  obtains m where "0 \<le> m" "m < 10080" "\<And>t. (t div minute_ns) mod 10080 = m \<Longrightarrow> windowContains w t"
proof -
  obtain d where d: "d \<in> set (Days w)" "d \<in> set week_days"
  proof -
    have "Days w \<noteq> []" "set (Days w) \<subseteq> set week_days"
      using assms unfolding normal_window_def canonical_days_def by (simp, metis filter_is_subset)
    then show ?thesis using that by (metis list.set_intros(1) neq_Nil_conv subsetD)
  qed
  then obtain i where i: "i < 7" "week_days ! i = d" by (metis in_set_conv_nth week_days_length)
  obtain st en where st: "parseClock (Start w) = Some st" and en: "parseClock (End w) = Some en"
    using assms by (auto simp: normal_window_def)
  have r: "0 \<le> st" "st < 1440" using parseClock_range [OF st] by auto
  show ?thesis
  proof
    show "0 \<le> int i * 1440 + st" "int i * 1440 + st < 10080" using r i by auto
    fix t
    assume t: "(t div minute_ns) mod 10080 = int i * 1440 + st"
    define q where "q = t div minute_ns"
    have "q mod (1440 * 7) = 1440 * (q div 1440 mod 7) + q mod 1440" by (rule zmod_zmult2_eq) simp
    then have eq: "1440 * (q div 1440 mod 7) + q mod 1440 = 1440 * int i + st" using t by (simp add: q_def)
    have lt: "0 \<le> q mod 1440" "q mod 1440 < 1440" by simp_all
    have "q div 1440 mod 7 = int i" using eq lt r by linarith
    with eq have m: "q mod 1440 = st" "(q div 1440) mod 7 = int i" by simp_all
    have "hasDay (Days w) (day_name t)" using d i m by (auto simp: hasDay_def list_ex_iff day_name_def q_def)
    with m r show "windowContains w t"
      by (auto simp: windowContains_def Let_def clock_or_0_def st en minute_of_day_def q_def)
  qed
qed

lemma first_active_Some:
  "first_active ws c n = Some t \<Longrightarrow>
     \<exists>k < n. t = c + int k * minute_ns \<and> IsActive ws t \<and> (\<forall>j < k. \<not> IsActive ws (c + int j * minute_ns))"
proof (induction n arbitrary: c)
  case (Suc n)
  show ?case
  proof (cases "IsActive ws c")
    case True
    then show ?thesis using Suc.prems by (intro exI [of _ 0]) auto
  next
    case False
    with Suc obtain k where k: "k < n" "t = c + minute_ns + int k * minute_ns" "IsActive ws t"
      "\<forall>j < k. \<not> IsActive ws (c + minute_ns + int j * minute_ns)" by auto
    have "\<not> IsActive ws (c + int j * minute_ns)" if "j < Suc k" for j
      using that k(4) False by (cases j) (auto simp: algebra_simps)
    with k show ?thesis by (intro exI [of _ "Suc k"]) (auto simp: algebra_simps)
  qed
qed simp

lemma first_active_None: "first_active ws c n = None \<Longrightarrow> k < n \<Longrightarrow> \<not> IsActive ws (c + int k * minute_ns)"
proof (induction n arbitrary: c k)
  case (Suc n)
  then have *: "\<not> IsActive ws c" "first_active ws (c + minute_ns) n = None" by (auto split: if_splits)
  show ?case
  proof (cases k)
    case (Suc j)
    then have "\<not> IsActive ws (c + minute_ns + int j * minute_ns)" using Suc.IH [OF *(2)] Suc.prems(2) by simp
    then show ?thesis using Suc by (simp add: algebra_simps)
  qed (use * in simp)
qed simp

lemma first_active_within:
  assumes "list_all normal_window ws" "ws \<noteq> []"
  obtains k where "k < 10080" "IsActive ws (c + int k * minute_ns)"
proof -
  obtain w where w: "w \<in> set ws" "normal_window w" using assms by (cases ws) auto
  obtain m where m: "0 \<le> m" "m < 10080" "\<And>t. (t div minute_ns) mod 10080 = m \<Longrightarrow> windowContains w t"
    using window_starts [OF w(2)] by blast
  define q where "q = c div minute_ns"
  define k where "k = nat ((m - q) mod 10080)"
  have "(q + int k) mod 10080 = m" using m unfolding k_def by (simp add: mod_simps)
  then have "windowContains w (c + int k * minute_ns)"
    using m(3) by (simp add: minute_shift q_def)
  moreover have "k < 10080" unfolding k_def by (simp add: nat_less_iff)
  ultimately show ?thesis using that w(1) by (auto simp: IsActive_def list_ex_iff)
qed

lemma first_active_first:
  assumes "list_all normal_window ws" "ws \<noteq> []"
  obtains k where "first_active ws c 11520 = Some (c + int k * minute_ns)" "k < 10080"
    "IsActive ws (c + int k * minute_ns)" "\<And>j. j < k \<Longrightarrow> \<not> IsActive ws (c + int j * minute_ns)"
proof -
  obtain k0 where k0: "k0 < 10080" "IsActive ws (c + int k0 * minute_ns)"
    using first_active_within [OF assms] by blast
  then obtain t where t: "first_active ws c 11520 = Some t"
    using first_active_None [of ws c 11520 k0] by (cases "first_active ws c 11520") auto
  then obtain k where k: "t = c + int k * minute_ns" "IsActive ws t" "\<forall>j < k. \<not> IsActive ws (c + int j * minute_ns)"
    using first_active_Some [OF t] by blast
  then have "k \<le> k0" using k0 by (meson not_le_imp_less)
  with k k0 t show ?thesis by (intro that [of k]) auto
qed


lemma monday_night_normal: "NormalizeWindows [monday_night] = Inr [monday_night\<lparr>Days := [''mon'']\<rparr>]"
  by code_simp


section \<open>Storing and loading windows\<close>

text \<open>What the code relies on of \<^verbatim>\<open>encoding/json\<close>.\<close>

locale windows_json =
  fixes J :: "ActiveWindow list json"
  assumes unmarshal_marshal: "list_all normal_window ws \<Longrightarrow> unmarshal J (marshal J ws) = Some ws"
    and marshal_text: "TrimSpace (marshal J ws) \<noteq> []"
begin

lemma Store_Load:
  assumes "NormalizeWindows ws = Inr nws" "\<not> cfg_write_fails s key" "\<not> cfg_read_fails s key"
  shows "StoreWindows J s key ws = (Inr nws, s\<lparr>cfg_rows := (cfg_rows s)(key \<mapsto> marshal J nws)\<rparr>)"
    "LoadWindows J (snd (StoreWindows J s key ws)) key = Inr nws"
proof -
  have n: "list_all normal_window nws" using NormalizeWindows_normal [OF assms(1)] by simp
  show st: "StoreWindows J s key ws = (Inr nws, s\<lparr>cfg_rows := (cfg_rows s)(key \<mapsto> marshal J nws)\<rparr>)"
    using assms by (simp add: StoreWindows_def SetConfig_def)
  show "LoadWindows J (snd (StoreWindows J s key ws)) key = Inr nws"
    using assms(3) marshal_text
    by (simp add: st LoadWindows_def GetConfig_def unmarshal_marshal [OF n] normal_NormalizeWindows [OF n])
qed

end

definition clock_char :: "char \<Rightarrow> bool" where
  "clock_char c \<longleftrightarrow> c \<noteq> CHR '','' \<and> c \<noteq> CHR '';''"

lemma Atoi_chars: "Atoi s = Some n \<Longrightarrow> c \<in> set s \<Longrightarrow> clock_char c"
  by (cases s) (auto simp: Atoi_def is_digit_def clock_char_def list_all_iff Let_def split: if_splits)

lemma parseClock_chars:
  assumes "parseClock s = Some m" "c \<in> set s"
  shows "clock_char c"
proof -
  obtain h mm a b where s: "split_on CHR '':'' s = [h, mm]" "Atoi h = Some a" "Atoi mm = Some b"
    using assms(1) by (auto simp: parseClock_def split: list.splits option.splits if_splits)
  have "c = CHR '':'' \<or> c \<in> set h \<or> c \<in> set mm" using set_split_on [of s "CHR '':''"] assms(2) s(1) by auto
  then show ?thesis using Atoi_chars s(2,3) by (auto simp: clock_char_def)
qed

lemma normal_window_chars: "normal_window w \<Longrightarrow> f \<in> set (Start w # End w # Days w) \<Longrightarrow> c \<in> set f \<Longrightarrow> clock_char c"
proof -
  assume w: "normal_window w" and f: "f \<in> set (Start w # End w # Days w)" and c: "c \<in> set f"
  consider "f = Start w" | "f = End w" | "f \<in> set (Days w)" using f by auto
  then show ?thesis
  proof cases
    case 3
    moreover have "set (Days w) \<subseteq> set week_days"
      using w unfolding normal_window_def canonical_days_def by (metis filter_is_subset)
    moreover have "\<forall>d \<in> set week_days. \<forall>c \<in> set d. clock_char c" by code_simp
    ultimately show ?thesis using c by blast
  qed (use w c parseClock_chars in \<open>auto simp: normal_window_def\<close>)
qed

lemma read_text_window: "normal_window w \<Longrightarrow> read_window (text_window w) = Some w"
proof -
  assume w: "normal_window w"
  have "\<forall>f \<in> set (Start w # End w # Days w). CHR '','' \<notin> set f" using normal_window_chars [OF w] by (force simp: clock_char_def)
  then have "split_on CHR '','' (text_window w) = (Start w # End w # Days w) @ [[]]"
    unfolding text_window_def by (rule split_on_terminated)
  then show ?thesis by (simp add: read_window_def butlast_append)
qed

lemma text_window_chars: "normal_window w \<Longrightarrow> CHR '';'' \<notin> set (text_window w)"
proof
  assume w: "normal_window w" and "CHR '';'' \<in> set (text_window w)"
  then obtain f where "f \<in> set (Start w # End w # Days w)" "CHR '';'' \<in> set f"
    unfolding text_window_def by (auto split: if_splits)
  from normal_window_chars [OF w this] show False by (simp add: clock_char_def)
qed

lemma those_read_windows: "list_all normal_window ws \<Longrightarrow> those (map read_window (map text_window ws)) = Some ws"
  by (induction ws) (simp_all add: read_text_window)

interpretation text_json: windows_json text_json
proof
  fix ws
  show "TrimSpace (marshal text_json ws) \<noteq> []"
    by (simp add: text_json_def TrimSpace_def is_space_def dropWhile_eq_Nil_conv) 
  assume n: "list_all normal_window ws"
  then have "\<forall>t \<in> set (map text_window ws). CHR '';'' \<notin> set t" using text_window_chars by (auto simp: list_all_iff)
  then have "split_on CHR '';'' (concat (map (\<lambda>t. t @ [CHR '';'']) (map text_window ws))) = map text_window ws @ [[]]"
    by (rule split_on_terminated)
  then show "unmarshal text_json (marshal text_json ws) = Some ws"
    using those_read_windows [OF n] by (simp add: text_json_def comp_def butlast_append)
qed

text \<open>
  C31. Windows survive the configuration table: what StoreWindows accepts and reports is what
  LoadWindows returns afterwards, entries under other keys are untouched, and what it rejects leaves
  the table as it was.
\<close>

theorem windows_roundtrip:
  assumes "windows_json J" "\<not> cfg_write_fails s key" "\<not> cfg_read_fails s key" "StoreWindows J s key ws = (res, s')"
  shows "case res of
      Inr nws \<Rightarrow> NormalizeWindows ws = Inr nws \<and> LoadWindows J s' key = Inr nws \<and>
        (\<forall>k. k \<noteq> key \<longrightarrow> GetConfig s' k = GetConfig s k)
    | Inl e \<Rightarrow> NormalizeWindows ws = Inl e \<and> s' = s"
proof (cases "NormalizeWindows ws")
  case (Inl e)
  then have "(res, s') = (Inl e, s)" using assms(4) by (simp add: StoreWindows_def)
  then show ?thesis using Inl by simp
next
  case (Inr nws)
  note st = windows_json.Store_Load [OF assms(1) Inr assms(2,3)]
  then have "res = Inr nws" "s' = s\<lparr>cfg_rows := (cfg_rows s)(key \<mapsto> marshal J nws)\<rparr>" using assms(4) by simp_all
  with st(2) Inr assms(4) show ?thesis by (simp add: GetConfig_def)
qed

theorem windows_roundtrip_witness:
  "\<exists>s'. StoreWindows text_json empty_config ''k'' [monday_night] = (Inr [monday_night\<lparr>Days := [''mon'']\<rparr>], s') \<and>
     LoadWindows text_json s' ''k'' = Inr [monday_night\<lparr>Days := [''mon'']\<rparr>]"
proof -
  obtain s' where st: "StoreWindows text_json empty_config ''k'' [monday_night] = (Inr [monday_night\<lparr>Days := [''mon'']\<rparr>], s')"
    using text_json.Store_Load(1) [OF monday_night_normal, of empty_config "''k''"] by (auto simp: empty_config_def)
  from windows_roundtrip [OF text_json.windows_json_axioms _ _ st] st show ?thesis by (auto simp: empty_config_def)
qed

section \<open>Decisions\<close>

lemma LoadWindows_normal: "LoadWindows J s key = Inr ws \<Longrightarrow> list_all normal_window ws"
  by (auto simp: LoadWindows_def dest: NormalizeWindows_normal split: prod.splits if_splits option.splits)

text \<open>
  C37. When the windows of a spindown-enabled pool cannot be read from the database, the decision is
  that maintenance is allowed, now and without an error: the failed read yields the empty string,
  which is taken for an empty configuration before the error is looked at.
\<close>

theorem unreadable_windows_allow:
  assumes "cfg_read_fails s windowsKey" "Enabled s enabledKey = Inr True"
  shows "\<exists>d. DecisionFor J s enabledKey windowsKey now = Inr (d, []) \<and> Allowed d \<and> ActiveNow d"
  using assms by (simp add: DecisionFor_def LoadWindows_def GetConfig_def TrimSpace_def)

theorem unreadable_windows_allow_witness:
  "\<exists>d. DecisionFor text_json
        (empty_config\<lparr>cfg_rows := [''e'' \<mapsto> ''1''], cfg_read_fails := (\<lambda>k. k = ''w'')\<rparr>) ''e'' ''w'' 0 = Inr (d, []) \<and> Allowed d"
proof -
  let ?s = "empty_config\<lparr>cfg_rows := [''e'' \<mapsto> ''1''], cfg_read_fails := (\<lambda>k. k = ''w'')\<rparr>"
  have "Enabled ?s ''e'' = Inr True" by (simp add: Enabled_def GetBoolConfig_def GetConfig_def)
  with unreadable_windows_allow [of ?s "''w''" "''e''" text_json 0] show ?thesis by auto
qed

text \<open>
  The two ends of a window are compared as strings, so two spellings of one time of day pass the
  check that they differ; such a window is always active.
\<close>

theorem respelled_clock_always_active:
  "\<exists>nws. NormalizeWindows [\<lparr>Days = [''daily''], Start = ''9:00'', End = ''09:00''\<rparr>] = Inr nws \<and> (\<forall>t. IsActive nws t)"
proof (intro exI conjI allI)
  let ?w = "\<lparr>Days = week_days, Start = ''9:00'', End = ''09:00''\<rparr>"
  show "NormalizeWindows [\<lparr>Days = [''daily''], Start = ''9:00'', End = ''09:00''\<rparr>] = Inr [?w]" by code_simp
  fix t
  have "hasDay week_days (day_name u)" for u
    by (auto simp: hasDay_def list_ex_iff day_name_def week_days_length intro!: nth_mem)
  moreover have "clock_or_0 ''9:00'' = 540" "clock_or_0 ''09:00'' = 540" by code_simp+
  ultimately show "IsActive [?w] t" by (auto simp: IsActive_def windowContains_def Let_def)
qed

section \<open>The observer\<close>

definition disk_inv :: "int \<Rightarrow> observedDisk \<Rightarrow> bool" where
  "disk_inv t d \<longleftrightarrow> since d \<le> lastAt d \<and> lastAt d \<le> t \<and> 0 \<le> since d \<and> 0 \<le> standbyDuration d \<and>
     standbyDuration d \<le> lastAt d - since d \<and> length (events d) \<le> maxRecentEvents"

definition summary_ok :: "PowerSummary \<Rightarrow> bool" where
  "summary_ok x \<longleftrightarrow> 0 \<le> TimeInStandbyPct x \<and> TimeInStandbyPct x \<le> 100 \<and> 0 \<le> ObservedStandbySeconds x \<and>
     length (RecentWakeEvents x) \<le> maxRecentEvents"

lemma push_event_length: "length es \<le> maxRecentEvents \<Longrightarrow> length (push_event e es) \<le> maxRecentEvents"
  by (simp add: push_event_def Let_def maxRecentEvents_def)

lemma time_Sub_id: "0 \<le> u \<Longrightarrow> u \<le> t \<Longrightarrow> t < 2 ^ 63 \<Longrightarrow> time_Sub t u = t - u"
  by (simp add: time_Sub_def)

lemma add_standby_bounds:
  assumes "disk_inv t d" "t \<le> now" "now < 2 ^ 63"
  shows "0 \<le> add_standby now d" "add_standby now d \<le> now - since d"
proof -
  have "wrap64 (standbyDuration d + time_Sub now (lastAt d)) = standbyDuration d + (now - lastAt d)"
    using assms by (simp add: disk_inv_def time_Sub_id wrap64_nonneg_id)
  then show "0 \<le> add_standby now d" "add_standby now d \<le> now - since d"
    using assms by (auto simp: add_standby_def disk_inv_def)
qed

lemma power_summary_ok:
  assumes "disk_inv t d" "t \<le> now" "now < 2 ^ 63"
  shows "summary_ok (power_summary d now)"
proof -
  note b = add_standby_bounds [OF assms]
  have tot: "time_Sub now (since d) = now - since d" using assms by (simp add: disk_inv_def time_Sub_id)
  have "(of_int (add_standby now d) * 100 / of_int (now - since d) :: rat) \<le> 100" if "0 < now - since d"
  proof -
    have "(of_int (add_standby now d) :: rat) \<le> of_int (now - since d)" using b(2) by (simp only: of_int_le_iff)
    moreover have "(0 :: rat) < of_int (now - since d)" using that by (simp only: of_int_0_less_iff)
    ultimately show ?thesis by (simp add: divide_le_eq)
  qed
  moreover have "(0 :: rat) \<le> of_int (add_standby now d) * 100 / of_int (now - since d)" if "0 < now - since d"
  proof -
    have "(0 :: rat) < of_int (now - since d)" using that by (simp only: of_int_0_less_iff)
    then show ?thesis using b(1) by simp
  qed
  moreover have "0 \<le> add_standby now d sdiv 1000000000"
    using b(1) by (cases "add_standby now d = 0") (simp_all add: signed_divide_int_def)
  ultimately show ?thesis
    using assms(1) by (simp add: summary_ok_def power_summary_def Let_def tot disk_inv_def)
qed

lemma new_disk_inv: "0 \<le> now \<Longrightarrow> disk_inv now (new_disk now state)"
  by (simp add: disk_inv_def new_disk_def)

lemma observe_disk_inv:
  assumes "disk_inv t d" "t \<le> now" "now < 2 ^ 63"
  shows "disk_inv now (observe_disk now state reason d)"
  using assms add_standby_bounds [OF assms] push_event_length
  by (auto simp: disk_inv_def observe_disk_def Let_def)

lemma record_disk_inv:
  assumes "disk_inv t d" "t \<le> now" "now < 2 ^ 63"
  shows "disk_inv now (record_disk now fromState toState reason d)"
  using assms add_standby_bounds [OF assms] push_event_length
  by (auto simp: disk_inv_def record_disk_def Let_def)

lemma observer_step_inv:
  assumes "\<And>k d. ob k = Some d \<Longrightarrow> disk_inv t d" "t \<le> call_time c" "0 \<le> call_time c" "call_time c < 2 ^ 63"
    "observer_step c ob = (x, ob')"
  shows "summary_ok x" "\<And>k d. ob' k = Some d \<Longrightarrow> disk_inv (call_time c) d"
proof -
  have mono: "disk_inv (call_time c) d" if "ob k = Some d" for k d
    using assms(1) [OF that] assms(2) by (simp add: disk_inv_def)
  obtain dev d where d: "ob' = ob(dev \<mapsto> d)" "x = power_summary d (call_time c)" "disk_inv (call_time c) d"
  proof (cases c)
    case (CallObserve now dev state reason)
    let ?d = "case ob dev of None \<Rightarrow> new_disk now state | Some d \<Rightarrow> observe_disk now state reason d"
    have "disk_inv now ?d"
      using assms CallObserve new_disk_inv observe_disk_inv [OF assms(1)] by (auto split: option.splits)
    with assms(5) CallObserve show ?thesis by (intro that [of dev ?d]) (auto simp: Observe_def Let_def)
  next
    case (CallRecord now dev fromState toState reason)
    let ?d = "case ob dev of None \<Rightarrow> new_disk now toState | Some d \<Rightarrow> d"
    have inv: "disk_inv now ?d" using mono CallRecord assms(3) new_disk_inv by (auto split: option.splits)
    have "disk_inv now (record_disk now fromState toState reason ?d)"
      using assms(4) CallRecord record_disk_inv [OF inv order_refl] by simp
    with assms(5) CallRecord show ?thesis
      by (intro that [of dev "record_disk now fromState toState reason ?d"]) (auto simp: RecordEvent_def Let_def)
  qed
  show "summary_ok x" unfolding d(2) using power_summary_ok [OF d(3)] assms(4) by simp
  show "\<And>k d. ob' k = Some d \<Longrightarrow> disk_inv (call_time c) d"
    using mono d(1,3) by (auto split: if_splits)
qed



text \<open>
  The observer reads the clock before it takes its lock, so the calls can be applied out of the order
  of their readings; then a stretch of standby is counted twice and the share exceeds 100 percent.
\<close>

theorem observer_overcounts:
  "TimeInStandbyPct (last (fst (observer_run [CallObserve 0 ''sda'' ''standby'' [], CallObserve 100 ''sda'' ''standby'' [],
     CallObserve 50 ''sda'' ''standby'' [], CallObserve 100 ''sda'' ''standby'' []] NewPowerObserver))) = 150"
  by (simp add: Observe_def Let_def NewPowerObserver_def new_disk_def observe_disk_def add_standby_def standbyLike_def
      time_Sub_def power_summary_def wrap64_def)

end
