(* ===== verification/PlacementCycle.thy ===== *)
theory PlacementCycle
  imports PlacementMove AdapterTargets Spindown
begin

text \<open>
  One run of the placement planner over the pools, \<^verbatim>\<open>tiering/mdadm/placement.go\<close>: may the pool be
  touched now (\<^verbatim>\<open>poolReadyForSmoothNASMaintenance\<close>), the snapshot of capacities and the walk that
  collects the candidates, packing, and the moves (\<^verbatim>\<open>planPoolPlacement\<close>); over all namespaces
  (\<^verbatim>\<open>runPlacementCycle\<close>) and ticks (\<^verbatim>\<open>placementLoop\<close>).

  What the run reads of its environment is the record \<open>pool_env\<close>: the pool's row, its slots, the
  arrays, disks and power states the system tools report, \<^verbatim>\<open>statfs\<close> and the directory trees, the
  clock, and for the \<open>n\<close>-th move the failures, the inode of the copy and the clocks it reads.
\<close>

section \<open>Definitions\<close>

record SmoothfsPool =
  sp_Mode :: string
  sp_UUID :: string
  sp_Name :: string
  sp_Tiers :: "string list"
  sp_Mountpoint :: string
  sp_UnitPath :: string
  sp_CreatedAt :: string

record TierSlot =
  ts_ID :: int
  ts_PoolID :: int
  ts_PoolName :: string
  ts_Name :: string
  ts_Rank :: int
  ts_State :: string
  ts_ArrayID :: "int option"
  ts_ArrayPath :: string
  ts_PVDevice :: "string option"
  ts_TargetFillPct :: int
  ts_FullThresholdPct :: int
  ts_BackingKind :: string
  ts_BackingRef :: string

record pool_env =
  pe_pool :: "db_error + SmoothfsPool"
  pe_slots :: "TierSlot list option"
  pe_arrays :: "(string \<times> string list) list option"
  pe_zfs_members :: "string \<Rightarrow> string list"
  pe_disks :: "(string \<times> bool) list option"
  pe_power :: "string \<Rightarrow> string option"
  pe_statfs :: "string \<Rightarrow> (u64 \<times> int \<times> u64) option"
  pe_trees :: "string \<Rightarrow> fnode option"
  pe_now :: int
  pe_faults :: "nat \<Rightarrow> faults"
  pe_newIno :: "nat \<Rightarrow> u64"
  pe_unixNano :: "nat \<Rightarrow> u64"
  pe_mtime :: "nat \<Rightarrow> int"

definition placementQuiescentPeriod :: int where
  "placementQuiescentPeriod = 10 * minute_ns"

definition heatDecayEvery :: nat where
  "heatDecayEvery = 30"

subsection \<open>May the pool be touched\<close>

text \<open>\<^verbatim>\<open>disk.BaseDiskPath\<close>: the whole-disk path of a partition.\<close>

definition isDigits :: "string \<Rightarrow> bool" where
  "isDigits s \<longleftrightarrow> s \<noteq> [] \<and> list_all is_digit s"

definition BaseDiskPath :: "string \<Rightarrow> string" where
  "BaseDiskPath path =
     (if take 9 path = ''/dev/nvme'' then
        let suffix = rev (takeWhile (\<lambda>c. c \<noteq> CHR ''p'') (rev path));
            idx = int (length path) - int (length suffix) - 1
        in if CHR ''p'' \<in> set path \<and> idx > 9 \<and> isDigits suffix then take (nat idx) path else path
      else rev (dropWhile is_digit (rev path)))"

definition add_device :: "string list \<Rightarrow> string \<Rightarrow> string list" where
  "add_device devices path = (if path = [] \<or> path \<in> set devices then devices else devices @ [path])"

definition slot_devices :: "(string \<Rightarrow> string list) \<Rightarrow> (string \<rightharpoonup> string list) \<Rightarrow> TierSlot \<Rightarrow> string list" where
  "slot_devices zfsMembers mdadmMembers slot =
     (if ts_State slot = ''empty'' then []
      else if ts_BackingKind slot = ''zfs'' then zfsMembers (ts_BackingRef slot)
      else case ts_PVDevice slot of
        None \<Rightarrow> []
      | Some pv \<Rightarrow> (case mdadmMembers pv of Some (m # ms) \<Rightarrow> m # ms | _ \<Rightarrow> [pv]))"

definition poolBackingDevices :: "pool_env \<Rightarrow> string list option" where
  "poolBackingDevices env =
     (case pe_slots env of
        None \<Rightarrow> None
      | Some slots \<Rightarrow>
          let mdadmMembers = foldl (\<lambda>m (path, members). m(path \<mapsto> members)) Map.empty
                (case pe_arrays env of None \<Rightarrow> [] | Some arrays \<Rightarrow> arrays)
          in Some (foldl (foldl add_device) [] (map (slot_devices (pe_zfs_members env) mdadmMembers) slots)))"

fun standby_among :: "pool_env \<Rightarrow> (string \<rightharpoonup> bool) \<Rightarrow> string list \<Rightarrow> bool" where
  "standby_among env rotational [] = False"
| "standby_among env rotational (device # devices) =
     (let base = BaseDiskPath device in
      if rotational base \<noteq> Some True then standby_among env rotational devices
      else case pe_power env base of
        None \<Rightarrow> standby_among env rotational devices
      | Some state \<Rightarrow> if state = ''standby'' \<or> state = ''sleeping'' then True else standby_among env rotational devices)"

definition backingDevicesStandbyBlocked :: "pool_env \<Rightarrow> string list \<Rightarrow> bool" where
  "backingDevicesStandbyBlocked env devices =
     (case pe_disks env of
        None \<Rightarrow> False
      | Some disks \<Rightarrow>
          standby_among env (foldl (\<lambda>m (path, rot). m(BaseDiskPath path \<mapsto> rot)) Map.empty disks) devices)"

datatype placementMaintenanceMode = placementMaintenanceNormal | placementMaintenanceSpindownActive

definition poolReadyForSmoothNASMaintenance :: "ActiveWindow list json \<Rightarrow> pool_env \<Rightarrow> config_db \<Rightarrow> string \<Rightarrow>
    placementMaintenanceMode \<times> bool" where
  "poolReadyForSmoothNASMaintenance J env s poolName =
     (case Enabled s (PoolEnabledKey poolName) of
        Inl e \<Rightarrow> (placementMaintenanceNormal, False)
      | Inr False \<Rightarrow> (placementMaintenanceNormal, True)
      | Inr True \<Rightarrow>
          (case poolBackingDevices env of
             None \<Rightarrow> (placementMaintenanceNormal, False)
           | Some [] \<Rightarrow>
               (case DecisionFor J s (PoolEnabledKey poolName) (PoolWindowsKey poolName) (pe_now env) of
                  Inl e \<Rightarrow> (placementMaintenanceNormal, False)
                | Inr (decision, windows) \<Rightarrow>
                    if Allowed decision then (placementMaintenanceSpindownActive, True) else (placementMaintenanceNormal, False))
           | Some devices \<Rightarrow>
               if backingDevicesStandbyBlocked env devices then (placementMaintenanceNormal, False)
               else (placementMaintenanceSpindownActive, True)))"

subsection \<open>Capacities and candidates\<close>

text \<open>The path components below the mount point; the mount point itself is the empty list.\<close>

definition placementExcludedDir :: "string list \<Rightarrow> string \<Rightarrow> bool" where
  "placementExcludedDir p name \<longleftrightarrow>
     name = ''lost+found'' \<or>
     (name \<in> {''.tierd-meta'', ''.smoothnas'', ''.smoothfs'', ''.plugins''} \<and> length p \<le> 1)"

fun snapshot_caps :: "pool_env \<Rightarrow> rankedPoolTarget list \<Rightarrow> caps \<Rightarrow> caps option" where
  "snapshot_caps env [] caps = Some caps"
| "snapshot_caps env (rt # rts) caps =
     (case pe_statfs env (MountPath (rt_target rt)) of
        None \<Rightarrow> None
      | Some (blocks, bsize, bavail) \<Rightarrow>
          let tot = wrap64 (wrap64 (uint blocks) * bsize);
              used = wrap64 (tot - wrap64 (wrap64 (uint bavail) * bsize))
          in snapshot_caps env rts (caps(rt_rank rt \<mapsto>
               \<lparr>totalBytes = tot, usedBytes = used, targetCap = tierTargetCapBytes tot (targetFillPct rt),
                fullCap = tierFullCapBytes tot (fullThresholdPct rt), cap_target = rt_target rt\<rparr>)))"

record 'db scan =
  sc_ctx :: ctx
  sc_store :: "'db PoolMetaStore"
  sc_cands :: "candidate list"

definition scan_file :: "'db bolt \<Rightarrow> (bytes \<Rightarrow> u64) \<Rightarrow> int \<Rightarrow> rankedPoolTarget \<Rightarrow> string list \<Rightarrow> finfo \<Rightarrow> 'db scan \<Rightarrow> 'db scan" where
  "scan_file B h now rt p fi s =
     (if time_Sub now (fi_mtime fi) < placementQuiescentPeriod then s
      else case Get B h (sc_store s) (fi_ino fi) (rt_rank rt) of (res, store) \<Rightarrow>
        s\<lparr>sc_store := store, sc_cands := sc_cands s @
            [\<lparr>c_rel = join_slash p, c_size = fi_size fi, c_inode = fi_ino fi, curRank = rt_rank rt, curTarg = rt_target rt,
              c_pin = (case res of Found rec \<Rightarrow> PinState rec | _ \<Rightarrow> 0),
              c_heat = (case res of Found rec \<Rightarrow> HeatCounter rec | _ \<Rightarrow> 0)\<rparr>]\<rparr>)"

fun scan_visits :: "'db bolt \<Rightarrow> (bytes \<Rightarrow> u64) \<Rightarrow> int \<Rightarrow> rankedPoolTarget \<Rightarrow> visit list \<Rightarrow> 'db scan \<Rightarrow> 'db scan" where
  "scan_visits B h now rt [] s = s"
| "scan_visits B h now rt (v # vs) s =
     (if ctx_Err (sc_ctx s) then s
      else let s1 = s\<lparr>sc_ctx := ctx_next (sc_ctx s)\<rparr> in
        case v of
          VReg p (Some fi) \<Rightarrow> scan_visits B h now rt vs (scan_file B h now rt p fi s1)
        | _ \<Rightarrow> scan_visits B h now rt vs s1)"

text \<open>The loop over the tiers; False: cancelled between two tiers.\<close>

fun scan_tiers :: "'db bolt \<Rightarrow> (bytes \<Rightarrow> u64) \<Rightarrow> pool_env \<Rightarrow> rankedPoolTarget list \<Rightarrow> 'db scan \<Rightarrow> bool \<times> 'db scan" where
  "scan_tiers B h env [] s = (True, s)"
| "scan_tiers B h env (rt # rts) s =
     (if ctx_Err (sc_ctx s) then (False, s)
      else scan_tiers B h env rts
        (scan_visits B h (pe_now env) rt (walkDir placementExcludedDir (pe_trees env (MountPath (rt_target rt))))
          (s\<lparr>sc_ctx := ctx_next (sc_ctx s)\<rparr>)))"

subsection \<open>Executing the plan\<close>

record 'db move_state =
  ms_ctx :: ctx
  ms_world :: "'db world"
  ms_planned :: int
  ms_moved :: int
  ms_skipped :: int

definition forget_pool :: "pool_env \<Rightarrow> (string \<times> string list) option" where
  "forget_pool env = (case pe_pool env of Inl e \<Rightarrow> None | Inr p \<Rightarrow> Some (sp_UUID p, sp_Tiers p))"

text \<open>The loop over the planned moves; \<open>n\<close> counts the moves started. True: cancelled.\<close>

fun exec_moves :: "'db bolt \<Rightarrow> (bytes \<Rightarrow> u64) \<Rightarrow> pool_env \<Rightarrow> string \<Rightarrow> candidate list \<Rightarrow> caps \<Rightarrow> nat \<Rightarrow> plannedMove list \<Rightarrow>
    'db move_state \<Rightarrow> (bool \<times> 'db move_state) option" where
  "exec_moves B h env nsID cands caps n [] s = Some (False, s)"
| "exec_moves B h env nsID cands caps n (m # ms) s =
     (if ctx_Err (ms_ctx s) then Some (True, s)
      else
        let c = cands ! m_idx m;
            s1 = s\<lparr>ms_ctx := ctx_next (ms_ctx s), ms_planned := ms_planned s + 1\<rparr>
        in case caps (m_want m) of
          None \<Rightarrow> exec_moves B h env nsID cands caps n ms (s1\<lparr>ms_skipped := ms_skipped s + 1\<rparr>)
        | Some dest \<Rightarrow>
            (case moveForPlacement B h (pe_faults env n) (forget_pool env) nsID (pe_unixNano env n) (pe_newIno env n) (pe_mtime env n)
                (c_rel c) (curTarg c) (cap_target dest) (curRank c) (m_want m) (ms_world s1) of
               None \<Rightarrow> None
             | Some (Some e, w) \<Rightarrow> exec_moves B h env nsID cands caps (Suc n) ms (s1\<lparr>ms_world := w\<rparr>)
             | Some (None, w) \<Rightarrow> exec_moves B h env nsID cands caps (Suc n) ms (s1\<lparr>ms_world := w, ms_moved := ms_moved s + 1\<rparr>)))"

definition balance_running :: string where
  "balance_running = ''target-balance placement running''"

text \<open>The status after the moves.\<close>

definition balance_counts :: "nat \<Rightarrow> bool \<Rightarrow> 'db move_state \<Rightarrow> TargetBalanceStatus \<Rightarrow> TargetBalanceStatus" where
  "balance_counts nCands cancelled ms st =
     (let st0 = (if cancelled then st\<lparr>tb_Reason := ''target-balance placement canceled''\<rparr> else st);
          st1 = st0\<lparr>CandidateCount := int nCands, PlannedMoves := ms_planned ms,
                    PendingMoves := max1 (ms_planned ms - ms_moved ms) 0, Moved := ms_moved ms, Skipped := ms_skipped ms\<rparr>
      in if PendingMoves st1 > 0 then st1\<lparr>tb_Reason := ''target-balance placement has pending moves''\<rparr>
         else if ms_planned ms = 0
         then st1\<lparr>CandidateExhausted := True, tb_Reason := ''target-balance placement exhausted candidates''\<rparr>
         else st1)"

record 'db plan_state =
  pl_ctx :: ctx
  pl_world :: "'db world"
  pl_config :: config_db

text \<open>
  The part of \<^verbatim>\<open>planPoolPlacement\<close> after the maintenance check: it returns the status and the new
  state, or \<^const>\<open>None\<close> when a metadata write never returns.
\<close>

definition plan_body :: "'db bolt \<Rightarrow> (bytes \<Rightarrow> u64) \<Rightarrow> nat sorter \<Rightarrow> pool_env \<Rightarrow> string \<Rightarrow> rankedPoolTarget list \<Rightarrow>
    TargetBalanceStatus \<Rightarrow> ctx \<Rightarrow> 'db world \<Rightarrow> (TargetBalanceStatus \<times> ctx \<times> 'db world) option" where
  "plan_body B h srt env nsID ranked st c w =
     (if length ranked < 2
      then Some (st\<lparr>tb_Reason := ''target-balance placement skipped; pool has fewer than two tiers''\<rparr>, c, w)
      else case w_store w of
        None \<Rightarrow> Some (st\<lparr>tb_Reason := ''target-balance placement skipped; metadata store is unavailable''\<rparr>, c, w)
      | Some store \<Rightarrow>
          (case snapshot_caps env ranked Map.empty of
             None \<Rightarrow> Some (st\<lparr>tb_Reason := ''target-balance placement skipped; tier capacity unavailable''\<rparr>, c, w)
           | Some caps0 \<Rightarrow>
               (case scan_tiers B h env ranked \<lparr>sc_ctx = c, sc_store = store, sc_cands = []\<rparr> of
                  (False, s) \<Rightarrow> Some (st\<lparr>tb_Reason := ''target-balance placement canceled''\<rparr>, sc_ctx s,
                                     w\<lparr>w_store := Some (sc_store s)\<rparr>)
                | (True, s) \<Rightarrow>
                    let cands = sc_cands s;
                        a = assignCandidateRanks srt cands (subtract_candidates cands caps0) ranked
                              (rt_rank (ranked ! 0)) (rt_rank (last ranked))
                    in (case planMoveOrder cands (assignments a) (assigned a) of (demotions, promotions) \<Rightarrow>
                         map_option (\<lambda>(cancelled, ms). (balance_counts (length cands) cancelled ms st, ms_ctx ms, ms_world ms))
                           (exec_moves B h env nsID cands (as_caps a) 0 (demotions @ promotions)
                             \<lparr>ms_ctx = sc_ctx s, ms_world = w\<lparr>w_store := Some (sc_store s)\<rparr>,
                              ms_planned = 0, ms_moved = 0, ms_skipped = 0\<rparr>)))))"

text \<open>The deferred store of the status.\<close>

definition finish_balance :: "int \<Rightarrow> ctx \<Rightarrow> TargetBalanceStatus \<Rightarrow> TargetBalanceStatus" where
  "finish_balance now c st =
     (let st1 = (if ctx_Err c \<and> tb_Reason st = balance_running then st\<lparr>tb_Reason := ''target-balance placement canceled''\<rparr> else st);
          st2 = (if tb_Reason st1 = balance_running then st1\<lparr>tb_Reason := ''target-balance placement complete''\<rparr> else st1)
      in st2\<lparr>tb_Active := False, FinishedAt := Some now, CheckedAt := Some now\<rparr>)"

definition planPoolPlacement :: "'db bolt \<Rightarrow> (bytes \<Rightarrow> u64) \<Rightarrow> nat sorter \<Rightarrow> ActiveWindow list json \<Rightarrow> TargetBalanceStatus json \<Rightarrow>
    pool_env \<Rightarrow> rankedPoolTarget list \<Rightarrow> MdadmManagedNamespaceRow \<Rightarrow> 'db plan_state \<Rightarrow> 'db plan_state option" where
  "planPoolPlacement B h srt J JS env ranked ns s =
     (if pe_pool env = Inl ErrQuery then Some s
      else if (case pe_pool env of Inr p \<Rightarrow> sp_Mode p = ''cache'' | _ \<Rightarrow> False) then Some s
      else case poolReadyForSmoothNASMaintenance J env (pl_config s) (ns_PoolName ns) of
        (mode, False) \<Rightarrow> Some s
      | (mode, True) \<Rightarrow>
          if mode = placementMaintenanceSpindownActive then
            let st0 = zero_balance\<lparr>tb_Active := True, StartedAt := Some (pe_now env), CheckedAt := Some (pe_now env),
                        tb_Reason := balance_running\<rparr>;
                cfg = snd (StoreTargetBalanceStatus JS (pl_config s) (ns_PoolName ns) st0)
            in map_option (\<lambda>(st, c, w).
                 \<lparr>pl_ctx = ctx_next c, pl_world = w,
                  pl_config = snd (StoreTargetBalanceStatus JS cfg (ns_PoolName ns) (finish_balance (pe_now env) c st))\<rparr>)
                 (plan_body B h srt env (ns_NamespaceID ns) ranked st0 (pl_ctx s) (pl_world s))
          else map_option (\<lambda>(st, c, w). s\<lparr>pl_ctx := c, pl_world := w\<rparr>)
                 (plan_body B h srt env (ns_NamespaceID ns) ranked zero_balance (pl_ctx s) (pl_world s)))"

subsection \<open>All pools\<close>

record 'db fleet =
  fl_ctx :: ctx
  fl_files :: files
  fl_sysfs :: "(string \<times> string) list"
  fl_degraded :: "string list"
  fl_stores :: "string \<rightharpoonup> 'db PoolMetaStore"
  fl_config :: config_db

text \<open>One namespace of the fleet: its pool's store is the one registered for it (\<^verbatim>\<open>metaStoreFor\<close>).\<close>

definition pool_view :: "string \<Rightarrow> 'db fleet \<Rightarrow> 'db plan_state" where
  "pool_view pool f = \<lparr>pl_ctx = fl_ctx f,
     pl_world = \<lparr>w_files = fl_files f, w_store = fl_stores f pool, w_sysfs = fl_sysfs f, w_degraded = fl_degraded f\<rparr>,
     pl_config = fl_config f\<rparr>"

definition pool_put :: "string \<Rightarrow> 'db plan_state \<Rightarrow> 'db fleet \<Rightarrow> 'db fleet" where
  "pool_put pool s f = f\<lparr>fl_ctx := pl_ctx s, fl_files := w_files (pl_world s), fl_sysfs := w_sysfs (pl_world s),
     fl_degraded := w_degraded (pl_world s), fl_stores := (fl_stores f)(pool := w_store (pl_world s)), fl_config := pl_config s\<rparr>"

record planner =
  pn_srt :: "nat sorter"
  pn_rank_srt :: "rankedPoolTarget sorter"
  pn_queries :: queries
  pn_json :: "ActiveWindow list json"
  pn_status_json :: "TargetBalanceStatus json"

fun plan_namespaces :: "'db bolt \<Rightarrow> (bytes \<Rightarrow> u64) \<Rightarrow> planner \<Rightarrow> (string \<Rightarrow> pool_env) \<Rightarrow> string list \<Rightarrow> target_access \<Rightarrow>
    MdadmManagedNamespaceRow list \<Rightarrow> 'db fleet \<Rightarrow> 'db fleet option" where
  "plan_namespaces B h P envs keys acc [] f = Some f"
| "plan_namespaces B h P envs keys acc (ns # nss) f =
     (if ctx_Err (fl_ctx f) then Some f
      else
        let f1 = f\<lparr>fl_ctx := ctx_next (fl_ctx f)\<rparr>; pool = ns_PoolName ns in
        case planPoolPlacement B h (pn_srt P) (pn_json P) (pn_status_json P) (envs pool)
            (poolRankedTargets (pn_rank_srt P) (pn_queries P) keys acc pool) ns (pool_view pool f1) of
          None \<Rightarrow> None
        | Some s \<Rightarrow> plan_namespaces B h P envs keys acc nss (pool_put pool s f1))"

definition runPlacementCycle :: "'db bolt \<Rightarrow> (bytes \<Rightarrow> u64) \<Rightarrow> planner \<Rightarrow> (string \<Rightarrow> pool_env) \<Rightarrow> string list \<Rightarrow> string list \<Rightarrow>
    target_access \<Rightarrow> 'db fleet \<Rightarrow> 'db fleet option" where
  "runPlacementCycle B h P envs keys nsKeys acc f =
     (case listManagedNamespaces (pn_queries P) nsKeys acc of
        None \<Rightarrow> Some f
      | Some nss \<Rightarrow> plan_namespaces B h P envs keys acc nss f)"

fun decayAllHeat :: "'db bolt \<Rightarrow> (bytes \<Rightarrow> u64) \<Rightarrow> string list \<Rightarrow> 'db fleet \<Rightarrow> 'db fleet option" where
  "decayAllHeat B h [] f = Some f"
| "decayAllHeat B h (pool # pools) f =
     (case fl_stores f pool of
        None \<Rightarrow> decayAllHeat B h pools f
      | Some p \<Rightarrow>
          (case decayHeat B h p of
             None \<Rightarrow> None
           | Some (p', halved) \<Rightarrow> decayAllHeat B h pools (f\<lparr>fl_stores := (fl_stores f)(pool \<mapsto> p')\<rparr>)))"

text \<open>
  The loop over the ticks that arrive before the context is done: each gives the environments of its
  cycle.
\<close>

fun placementLoop :: "'db bolt \<Rightarrow> (bytes \<Rightarrow> u64) \<Rightarrow> planner \<Rightarrow> string list \<Rightarrow> string list \<Rightarrow> string list \<Rightarrow> target_access \<Rightarrow>
    (string \<Rightarrow> pool_env) list \<Rightarrow> nat \<Rightarrow> 'db fleet \<Rightarrow> 'db fleet option" where
  "placementLoop B h P keys nsKeys pools acc [] cycleCount f = Some f"
| "placementLoop B h P keys nsKeys pools acc (envs # ticks) cycleCount f =
     (case runPlacementCycle B h P envs keys nsKeys acc f of
        None \<Rightarrow> None
      | Some f1 \<Rightarrow>
          (case (if Suc cycleCount mod heatDecayEvery = 0 then decayAllHeat B h pools f1 else Some f1) of
             None \<Rightarrow> None
           | Some f2 \<Rightarrow> placementLoop B h P keys nsKeys pools acc ticks (Suc cycleCount) f2))"

definition status_json :: "TargetBalanceStatus json" where
  "status_json = \<lparr>marshal = (\<lambda>st. tb_Reason st), unmarshal = (\<lambda>s. None)\<rparr>"

section \<open>Where the planner's data comes from\<close>

text \<open>The relative paths of the regular files a scan may see.\<close>

definition walked :: "pool_env \<Rightarrow> rankedPoolTarget list \<Rightarrow> string set" where
  "walked env ranked = {join_slash p | p. \<exists>rt \<in> set ranked. \<exists>fi.
     VReg p fi \<in> set (walkDir placementExcludedDir (pe_trees env (MountPath (rt_target rt))))}"

definition cand_of :: "pool_env \<Rightarrow> rankedPoolTarget list \<Rightarrow> candidate \<Rightarrow> bool" where
  "cand_of env ranked c \<longleftrightarrow> c_rel c \<in> walked env ranked \<and>
     (\<exists>rt \<in> set ranked. curTarg c = rt_target rt \<and> curRank c = rt_rank rt)"

lemma scan_visits_cands:
  assumes "rt \<in> set ranked" "\<forall>c \<in> set (sc_cands s). cand_of env ranked c"
    "set vs \<subseteq> set (walkDir placementExcludedDir (pe_trees env (MountPath (rt_target rt))))"
  shows "\<forall>c \<in> set (sc_cands (scan_visits B h now rt vs s)). cand_of env ranked c"
  using assms(2,3)
proof (induction vs arbitrary: s)
  case (Cons v vs)
  show ?case
  proof (cases "\<exists>p fi. v = VReg p (Some fi)")
    case True
    then obtain p fi where v: "v = VReg p (Some fi)" by blast
    let ?s1 = "s\<lparr>sc_ctx := ctx_next (sc_ctx s)\<rparr>"
    have "join_slash p \<in> walked env ranked"
      using Cons.prems(2) assms(1) unfolding walked_def v by auto
    then have "\<forall>c \<in> set (sc_cands (scan_file B h now rt p fi ?s1)). cand_of env ranked c"
      using Cons.prems(1) assms(1) by (auto simp: scan_file_def cand_of_def split: prod.splits)
    with Cons v show ?thesis by simp
  next
    case False
    then have "scan_visits B h now rt (v # vs) s =
        (if ctx_Err (sc_ctx s) then s else scan_visits B h now rt vs (s\<lparr>sc_ctx := ctx_next (sc_ctx s)\<rparr>))"
      by (cases v) (auto split: option.splits)
    with Cons.IH [of "s\<lparr>sc_ctx := ctx_next (sc_ctx s)\<rparr>"] Cons.prems show ?thesis by simp
  qed
qed simp

lemma scan_tiers_cands:
  assumes "scan_tiers B h env rts s = (ok, s')" "set rts \<subseteq> set ranked" "\<forall>c \<in> set (sc_cands s). cand_of env ranked c"
  shows "\<forall>c \<in> set (sc_cands s'). cand_of env ranked c"
  using assms
proof (induction rts arbitrary: s)
  case (Cons rt rts)
  let ?vs = "walkDir placementExcludedDir (pe_trees env (MountPath (rt_target rt)))"
  show ?case
  proof (cases "ctx_Err (sc_ctx s)")
    case True
    then show ?thesis using Cons.prems by simp
  next
    case False
    have "\<forall>c \<in> set (sc_cands (scan_visits B h (pe_now env) rt ?vs (s\<lparr>sc_ctx := ctx_next (sc_ctx s)\<rparr>))). cand_of env ranked c"
      using Cons.prems by (intro scan_visits_cands) auto
    with Cons False show ?thesis by simp
  qed
qed simp

text \<open>Capacities keep their targets through packing.\<close>

definition caps_of :: "rankedPoolTarget list \<Rightarrow> caps \<Rightarrow> bool" where
  "caps_of ranked caps \<longleftrightarrow> (\<forall>r c. caps r = Some c \<longrightarrow> (\<exists>rt \<in> set ranked. rt_rank rt = r \<and> cap_target c = rt_target rt))"

lemma caps_of_used: "caps_of ranked caps \<Longrightarrow> caps r = Some c \<Longrightarrow> caps_of ranked (caps(r \<mapsto> c\<lparr>usedBytes := u\<rparr>))"
  by (auto simp: caps_of_def)

lemma caps_of_subtract: "caps_of ranked caps \<Longrightarrow> caps_of ranked (subtract_candidates cs caps)"
  by (induction cs arbitrary: caps) (auto simp: Let_def caps_of_used split: option.splits)

lemma caps_of_snapshot:
  "snapshot_caps env rts caps = Some caps' \<Longrightarrow> set rts \<subseteq> set ranked \<Longrightarrow> caps_of ranked caps \<Longrightarrow> caps_of ranked caps'"
proof (induction rts arbitrary: caps)
  case (Cons rt rts)
  obtain t where rest: "snapshot_caps env rts (caps(rt_rank rt \<mapsto> t)) = Some caps'" and t: "cap_target t = rt_target rt"
    using Cons.prems(1) by (auto simp: Let_def split: option.splits prod.splits)
  have "caps_of ranked (caps(rt_rank rt \<mapsto> t))" using Cons.prems(2,3) t by (auto simp: caps_of_def)
  from Cons.IH [OF rest _ this] Cons.prems(2) show ?case by simp
qed simp

lemma caps_of_pass_a: "admit_pass_a caps rts pref sz = Some (r, caps') \<Longrightarrow> caps_of ranked caps \<Longrightarrow> caps_of ranked caps'"
  by (induction rts) (auto simp: add_used_def caps_of_used split: if_splits option.splits)

lemma caps_of_pass_b: "admit_pass_b caps rts pref sz = Some (r, caps') \<Longrightarrow> caps_of ranked caps \<Longrightarrow> caps_of ranked caps'"
  by (induction rts) (auto simp: admitAtFullCap_def add_used_def caps_of_used split: if_splits option.splits)

lemma caps_of_admit: "caps_of ranked caps \<Longrightarrow> caps_of ranked (snd (admitWithFallbackOrder caps rts pref sz ord))"
  by (auto simp: admitWithFallbackOrder_def split: option.splits dest: caps_of_pass_a caps_of_pass_b)

lemma caps_of_assign:
  assumes "caps_of ranked caps"
  shows "caps_of ranked (as_caps (assignCandidateRanks srt cands caps rts f sl))"
proof -
  have "caps_of ranked (as_caps (foldl (assign_pinned cands rts f sl) s is))" if "caps_of ranked (as_caps s)" for s "is"
    using that by (induction "is" arbitrary: s)
      (auto simp: assign_pinned_def Let_def assign_one_def admitWithFallback_def caps_of_admit)
  moreover have "caps_of ranked (as_caps (foldl (assign_unpinned cands rts f) s is))" if "caps_of ranked (as_caps s)" for s "is"
    using that by (induction "is" arbitrary: s)
      (auto simp: assign_unpinned_def assign_one_def admitWithFallback_def caps_of_admit)
  ultimately show ?thesis using assms by (simp add: assignCandidateRanks_def Let_def assign_init_def)
qed

lemma planned_move:
  assumes "planMoveOrder cands as ok = (demotions, promotions)" "m \<in> set (demotions @ promotions)"
  shows "m_idx m < length cands" "m_want m \<noteq> curRank (cands ! m_idx m)"
  using assms by (auto simp: planMoveOrder_def plan_moves_filter is_move_def)

section \<open>A planner run loses no file\<close>

text \<open>
  The mount points and relative paths give distinct full paths, and none of them is the temporary
  name of another.
\<close>

definition separate :: "string set \<Rightarrow> string set \<Rightarrow> bool" where
  "separate mounts rels \<longleftrightarrow>
     (\<forall>m \<in> mounts. \<forall>m' \<in> mounts. \<forall>r \<in> rels. \<forall>r' \<in> rels.
        (path_Join [m, r] = path_Join [m', r'] \<longrightarrow> m = m' \<and> r = r') \<and>
        path_Join [m, r] \<noteq> path_Join [m', r'] @ ''.tierd-move'')"

abbreviation mount :: "rankedPoolTarget \<Rightarrow> string" where
  "mount rt \<equiv> MountPath (rt_target rt)"

text \<open>Some tier holds these contents under the relative path.\<close>

definition held :: "rankedPoolTarget list \<Rightarrow> string \<Rightarrow> bytes \<Rightarrow> files \<Rightarrow> bool" where
  "held ranked rel d fs \<longleftrightarrow> (\<exists>rt \<in> set ranked. \<exists>f. fs (path_Join [mount rt, rel]) = Some f \<and> fe_data f = d)"

lemma move_keeps_held:
  assumes sep: "separate (mount ` set ranked) R" and rel: "rel \<in> R" "rel' \<in> R"
    and rts: "rt1 \<in> set ranked" "rt2 \<in> set ranked" "mount rt1 \<noteq> mount rt2"
    and mv: "moveForPlacement B h flt pool nsID now i mt rel' (rt_target rt1) (rt_target rt2) r1 r2 w = Some (e, w')"
    and held: "held ranked rel d (w_files w)"
  shows "held ranked rel d (w_files w')"
proof (cases "w_files w (path_Join [mount rt1, rel'])")
  case None
  then show ?thesis using move_no_source [OF mv] held by simp
next
  case (Some s)
  let ?src = "path_Join [mount rt1, rel']" and ?dst = "path_Join [mount rt2, rel']"
  have "?src \<noteq> ?dst" "?src \<noteq> ?dst @ ''.tierd-move''" using sep rel rts unfolding separate_def by blast+
  from move_files_safe [OF mv refl refl refl Some this]
  have safe: "files_safe ?src ?dst (?dst @ ''.tierd-move'') s (w_files w) e (w_files w')" .
  obtain rt f where rt: "rt \<in> set ranked" "w_files w (path_Join [mount rt, rel]) = Some f" "fe_data f = d"
    using held by (auto simp: held_def)
  let ?q = "path_Join [mount rt, rel]"
  have tmp: "?q \<noteq> ?dst @ ''.tierd-move''" using sep rel rts(2) rt(1) unfolding separate_def by blast
  consider "?q = ?src" | "?q = ?dst" | "?q \<notin> {?src, ?dst, ?dst @ ''.tierd-move''}" using tmp by blast
  then show ?thesis
  proof cases
    case 1
    moreover have "?q = ?src \<longrightarrow> mount rt = mount rt1 \<and> rel = rel'"
      using sep rel rts(1) rt(1) unfolding separate_def by blast
    ultimately have "rel = rel'" "f = s" using rt(2) Some by simp_all
    have "(\<exists>d'. w_files w' ?dst = Some d' \<and> fe_data d' = fe_data s) \<or> w_files w' ?src = Some s"
      using safe by (auto simp: files_safe_def)
    then show ?thesis using rts(1,2) rt(3) \<open>rel = rel'\<close> \<open>f = s\<close> unfolding held_def by blast
  next
    case 2
    then have "w_files w' ?q = Some f" using safe rt(2) by (simp add: files_safe_def)
    then show ?thesis using rt by (auto simp: held_def)
  next
    case 3
    then have "w_files w' ?q = Some f" using safe rt(2) by (simp add: files_safe_def)
    then show ?thesis using rt by (auto simp: held_def)
  qed
qed

lemma exec_moves_keeps_held:
  assumes sep: "separate (mount ` set ranked) R" "inj_on mount (set ranked)" "rel \<in> R" "walked env ranked \<subseteq> R"
    and data: "\<forall>c \<in> set cands. cand_of env ranked c" "caps_of ranked caps"
  shows "exec_moves B h env nsID cands caps n ms s = Some (x, s') \<Longrightarrow>
    \<forall>m \<in> set ms. m_idx m < length cands \<and> m_want m \<noteq> curRank (cands ! m_idx m) \<Longrightarrow>
    held ranked rel d (w_files (ms_world s)) \<Longrightarrow> held ranked rel d (w_files (ms_world s'))"
proof (induction ms arbitrary: n s)
  case (Cons m ms)
  let ?c = "cands ! m_idx m" and ?s1 = "s\<lparr>ms_ctx := ctx_next (ms_ctx s), ms_planned := ms_planned s + 1\<rparr>"
  have c: "cand_of env ranked ?c" using Cons.prems(2) data(1) by simp
  show ?case
  proof (cases "ctx_Err (ms_ctx s)")
    case True
    then show ?thesis using Cons.prems by simp
  next
    case False
    show ?thesis
    proof (cases "caps (m_want m)")
      case None
      with False Cons show ?thesis by (simp add: Let_def)
    next
      case (Some dest)
      obtain rt1 where rt1: "rt1 \<in> set ranked" "curTarg ?c = rt_target rt1" "curRank ?c = rt_rank rt1" "c_rel ?c \<in> R"
        using c sep(4) by (auto simp: cand_of_def)
      obtain rt2 where rt2: "rt2 \<in> set ranked" "cap_target dest = rt_target rt2" "rt_rank rt2 = m_want m"
        using data(2) Some by (auto simp: caps_of_def)
      have "mount rt1 \<noteq> mount rt2" using sep(2) rt1(1,3) rt2(1,3) Cons.prems(2) by (auto dest: inj_onD)
      let ?mv = "moveForPlacement B h (pe_faults env n) (forget_pool env) nsID (pe_unixNano env n) (pe_newIno env n) (pe_mtime env n)
                (c_rel ?c) (curTarg ?c) (cap_target dest) (curRank ?c) (m_want m) (ms_world s)"
      have step: "held ranked rel d (w_files w')" if "?mv = Some (e, w')" for e w'
        using move_keeps_held [OF sep(1,3) rt1(4,1) rt2(1) \<open>mount rt1 \<noteq> mount rt2\<close>, of B h "pe_faults env n" "forget_pool env" nsID
            "pe_unixNano env n" "pe_newIno env n" "pe_mtime env n" "curRank ?c" "m_want m" "ms_world s" e w' d]
          that rt1(2) rt2(2) Cons.prems(3) by simp
      obtain e w' s2 where mv: "?mv = Some (e, w')" and rest: "exec_moves B h env nsID cands caps (Suc n) ms s2 = Some (x, s')"
        and w: "ms_world s2 = w'"
        using Cons.prems(1) False Some by (auto simp: Let_def split: option.splits prod.splits)
      from Cons.IH [OF rest] step [OF mv] w Cons.prems(2) show ?thesis by simp
    qed
  qed
qed simp

lemma plan_body_keeps_held:
  assumes sep: "separate (mount ` set ranked) R" "inj_on mount (set ranked)" "rel \<in> R" "walked env ranked \<subseteq> R"
    and run: "plan_body B h srt env nsID ranked st c w = Some (st', c', w')"
    and held: "held ranked rel d (w_files w)"
  shows "held ranked rel d (w_files w')"
proof (cases "w_files w' = w_files w")
  case True
  then show ?thesis using held by simp
next
  case False
  then obtain store caps0 s where store: "w_store w = Some store" "\<not> length ranked < 2"
    and caps: "snapshot_caps env ranked Map.empty = Some caps0"
    and scan: "scan_tiers B h env ranked \<lparr>sc_ctx = c, sc_store = store, sc_cands = []\<rparr> = (True, s)"
    using run unfolding plan_body_def by (auto split: if_splits option.splits prod.splits bool.splits)
  define a where "a = assignCandidateRanks srt (sc_cands s) (subtract_candidates (sc_cands s) caps0) ranked
      (rt_rank (ranked ! 0)) (rt_rank (last ranked))"
  obtain dem pro where plan: "planMoveOrder (sc_cands s) (assignments a) (assigned a) = (dem, pro)" by fastforce
  let ?s0 = "\<lparr>ms_ctx = sc_ctx s, ms_world = w\<lparr>w_store := Some (sc_store s)\<rparr>, ms_planned = 0, ms_moved = 0, ms_skipped = 0\<rparr>"
  obtain x ms where moves: "exec_moves B h env nsID (sc_cands s) (as_caps a) 0 (dem @ pro) ?s0 = Some (x, ms)" "w' = ms_world ms"
    using run store caps scan plan unfolding plan_body_def by (auto simp: Let_def a_def)
  have "caps_of ranked (as_caps a)" unfolding a_def
    using caps_of_snapshot [OF caps order_refl] by (intro caps_of_assign caps_of_subtract) (simp add: caps_of_def)
  moreover have "\<forall>c \<in> set (sc_cands s). cand_of env ranked c" by (rule scan_tiers_cands [OF scan order_refl]) simp
  moreover have "\<forall>m \<in> set (dem @ pro). m_idx m < length (sc_cands s) \<and> m_want m \<noteq> curRank (sc_cands s ! m_idx m)"
    using planned_move [OF plan] by blast
  ultimately show ?thesis
    using exec_moves_keeps_held [OF sep _ _ moves(1)] held moves(2) by simp
qed


section \<open>What a cancelled run reports\<close>

text \<open>
  C36. A run that is cancelled after the scan and before its first move reports that the candidates
  are exhausted, however many moves it has planned: the counter of planned moves counts moves
  started, so it is zero, and the cancellation recorded before is overwritten.
\<close>

theorem cancelled_run_reports_exhausted:
  assumes "2 \<le> length ranked" "w_store w = Some store" "snapshot_caps env ranked Map.empty = Some caps0"
    and "scan_tiers B h env ranked \<lparr>sc_ctx = c, sc_store = store, sc_cands = []\<rparr> = (True, sc)" "ctx_Err (sc_ctx sc)"
    and "as = assignCandidateRanks srt (sc_cands sc) (subtract_candidates (sc_cands sc) caps0) ranked
      (rt_rank (ranked ! 0)) (rt_rank (last ranked))"
    and "i < length (sc_cands sc)" "assigned as ! i" "assignments as ! i \<noteq> curRank (sc_cands sc ! i)"
  shows "\<exists>st' c' w'. plan_body B h srt env nsID ranked st c w = Some (st', c', w') \<and>
    CandidateExhausted st' \<and> PlannedMoves st' = 0 \<and> PendingMoves st' = 0 \<and>
    tb_Reason st' = ''target-balance placement exhausted candidates'' \<and> w_files w' = w_files w"
proof -
  obtain dem pro where plan: "planMoveOrder (sc_cands sc) (assignments as) (assigned as) = (dem, pro)" by fastforce
  have "i \<in> m_idx ` set (dem @ pro)"
    using plan assms(7-9) by (force simp: planMoveOrder_def plan_moves_filter is_move_def)
  then have ne: "dem @ pro \<noteq> []" by auto
  have "exec_moves B h env nsID (sc_cands sc) caps n (dem @ pro) s = Some (True, s)" if "ctx_Err (ms_ctx s)" for caps n s
    using that ne by (cases "dem @ pro") auto
  then show ?thesis using assms(1-5) plan
    unfolding plan_body_def by (simp add: Let_def assms(6) [symmetric] balance_counts_def max1_def)
qed

subsection \<open>Witnesses\<close>

text \<open>A file of two bytes on a fast tier of one byte, next to a slow tier with room.\<close>

definition sample_penv :: pool_env where
  "sample_penv = \<lparr>pe_pool = Inl ErrNotFound, pe_slots = None, pe_arrays = None, pe_zfs_members = (\<lambda>_. []), pe_disks = None,
     pe_power = (\<lambda>_. None),
     pe_statfs = (\<lambda>m. if m = ''/mnt/nvme'' then Some (1, 1, 0) else Some (100, 1, 100)),
     pe_trees = (\<lambda>m. if m = ''/mnt/nvme'' then Some (FDir ''nvme'' False [FReg ''f'' (Some \<lparr>fi_ino = 7, fi_size = 2, fi_mtime = 0\<rparr>)])
        else Some (FDir ''hdd'' False [])),
     pe_now = 20 * minute_ns, pe_faults = (\<lambda>_. no_faults\<lparr>f_rm_src := True, f_rollback := True\<rparr>), pe_newIno = (\<lambda>_. 9),
     pe_unixNano = (\<lambda>_. 0), pe_mtime = (\<lambda>_. 0)\<rparr>"

definition sample_ns :: MdadmManagedNamespaceRow where
  "sample_ns = \<lparr>ns_NamespaceID = ''tank'', ns_PoolName = ''tank'', ns_MountPath = ''/mnt/tank''\<rparr>"

definition sample_scanned :: "u32 \<Rightarrow> candidate" where
  "sample_scanned h = \<lparr>c_rel = ''f'', c_size = 2, c_inode = 7, curRank = 1, curTarg = sample_target ''nvme'', c_pin = PinNone, c_heat = h\<rparr>"

lemma sample_get:
  obtains p where "Get mem_bolt zero_hash sample_store 7 1 = (Found sample_record, p)"
proof -
  obtain res p where g: "Get mem_bolt zero_hash sample_store 7 1 = (res, p)" by fastforce
  have "case res of Found r \<Rightarrow> disk_record mem_bolt zero_hash sample_store 1 7 = Some r | _ \<Rightarrow> disk_record mem_bolt zero_hash sample_store 1 7 = None"
    using mem.Get_good_store [OF sample_good(1) _ _ g] sample_good(2) by (simp add: sample_rank at_rest_def)
  then have "res = Found sample_record" by (auto simp: sample_disk split: get_result.splits)
  with g that show ?thesis by simp
qed

lemma sample_walk:
  "walkDir placementExcludedDir (pe_trees sample_penv (MountPath (sample_target ''nvme''))) =
     [VDir [], VReg [''f''] (Some \<lparr>fi_ino = 7, fi_size = 2, fi_mtime = 0\<rparr>)]"
  "walkDir placementExcludedDir (pe_trees sample_penv (MountPath (sample_target ''hdd''))) = [VDir []]"
  by (simp_all add: sample_penv_def sample_target_def walkDir_def placementExcludedDir_def)

lemma sample_quiet: "\<not> time_Sub (pe_now sample_penv) 0 < placementQuiescentPeriod"
  by (simp add: sample_penv_def time_Sub_def placementQuiescentPeriod_def minute_ns_def)

lemma sample_scan:
  assumes "Get mem_bolt zero_hash sample_store 7 1 = (Found sample_record, p)" "c = None \<or> c = Some 5"
  shows "scan_tiers mem_bolt zero_hash sample_penv sample_ranked \<lparr>sc_ctx = c, sc_store = sample_store, sc_cands = []\<rparr> =
    (True, \<lparr>sc_ctx = map_option (\<lambda>_. 0) c, sc_store = p, sc_cands = [sample_scanned (HeatCounter sample_record)]\<rparr>)"
proof -
  have "PinState sample_record = PinNone" by (simp add: sample_record_def)
  with assms show ?thesis
    by (elim disjE) (simp_all add: sample_ranked_def sample_walk scan_file_def sample_quiet sample_scanned_def ctx_Err_def ctx_next_def)
qed

definition small_caps :: "int \<Rightarrow> int \<Rightarrow> caps" where
  "small_caps u1 u2 =
     [1 \<mapsto> \<lparr>totalBytes = 1, usedBytes = u1, targetCap = 0, fullCap = 0, cap_target = sample_target ''nvme''\<rparr>,
      2 \<mapsto> \<lparr>totalBytes = 100, usedBytes = u2, targetCap = 100, fullCap = 100, cap_target = sample_target ''hdd''\<rparr>]"

lemma small_caps_2:
  "small_caps u1 u2 2 = Some \<lparr>totalBytes = 100, usedBytes = u2, targetCap = 100, fullCap = 100, cap_target = sample_target ''hdd''\<rparr>"
  by (simp add: small_caps_def)

lemma sample_scanned_fields:
  "c_rel (sample_scanned hh) = ''f''" "curRank (sample_scanned hh) = 1" "curTarg (sample_scanned hh) = sample_target ''nvme''"
  by (simp_all add: sample_scanned_def)

lemma small_wraps: "wrap64 0 = 0" "wrap64 1 = 1" "wrap64 2 = 2" "wrap64 100 = 100" "wrap64 (- 1) = - 1"
  by (simp_all add: wrap64_def)

lemma small_pct: "tierTargetCapBytes 1 60 = 0" "tierFullCapBytes 1 95 = 0" "tierTargetCapBytes 100 100 = 100" "tierFullCapBytes 100 100 = 100"
  by code_simp+

lemma sample_snapshot: "snapshot_caps sample_penv sample_ranked Map.empty = Some (small_caps 1 0)"
proof -
  have "snapshot_caps sample_penv (sample_ranked) Map.empty =
      Some ([1 \<mapsto> \<lparr>totalBytes = 1, usedBytes = 1, targetCap = tierTargetCapBytes 1 60, fullCap = tierFullCapBytes 1 95, cap_target = sample_target ''nvme''\<rparr>,
      2 \<mapsto> \<lparr>totalBytes = 100, usedBytes = 0, targetCap = tierTargetCapBytes 100 100, fullCap = tierFullCapBytes 100 100, cap_target = sample_target ''hdd''\<rparr>])"
    by (simp add: sample_penv_def sample_ranked_def sample_target_def small_wraps)
  then show ?thesis by (simp only: small_pct small_caps_def)
qed

lemma sample_subtract: "subtract_candidates [sample_scanned hh] (small_caps 1 0) = small_caps 0 0"
  by (auto simp: small_caps_def sample_scanned_def small_wraps)

lemma sample_admit: "admitWithFallback (small_caps 0 0) sample_ranked 1 2 = (2, small_caps 0 2)"
  by (auto simp: small_caps_def sample_ranked_def admitWithFallback_def admitWithFallbackOrder_def admissionCap_def add_used_def small_wraps)

lemma sample_plan:
  "assignCandidateRanks isort [sample_scanned hh] (small_caps 0 0) sample_ranked 1 2 =
   \<lparr>assignments = [2], assigned = [True], as_caps = small_caps 0 2\<rparr>"
proof -
  have c: "c_pin (sample_scanned hh) = PinNone" "c_size (sample_scanned hh) = 2" by (simp_all add: sample_scanned_def)
  show ?thesis
    by (simp add: assignCandidateRanks_def assign_init_def assign_pinned_def assign_unpinned_def unpinned_order_def isort_def
        c Let_def assign_one_def sample_admit)
qed

lemma sample_moves: "planMoveOrder [sample_scanned hh] [2] [True] = ([\<lparr>m_idx = 0, m_want = 2\<rparr>], [])"
  by (simp add: planMoveOrder_def sample_scanned_def)

theorem cancelled_run_reports_exhausted_witness:
  "\<exists>st' c' w'. plan_body mem_bolt zero_hash isort sample_penv ''tank'' sample_ranked zero_balance (Some 5) sample_world = Some (st', c', w') \<and>
    CandidateExhausted st' \<and> PlannedMoves st' = 0"
proof -
  obtain p where get: "Get mem_bolt zero_hash sample_store 7 1 = (Found sample_record, p)" by (rule sample_get)
  note scan = sample_scan [OF get, of "Some 5", simplified]
  have r: "2 \<le> length sample_ranked" "rt_rank (sample_ranked ! 0) = 1" "rt_rank (last sample_ranked) = 2"
    by (simp_all add: sample_ranked_def)
  have w: "w_store sample_world = Some sample_store" by (simp add: sample_world_def)
  have "\<exists>st' c' w'. plan_body mem_bolt zero_hash isort sample_penv ''tank'' sample_ranked zero_balance (Some 5) sample_world = Some (st', c', w') \<and>
    CandidateExhausted st' \<and> PlannedMoves st' = 0 \<and> PendingMoves st' = 0 \<and>
    tb_Reason st' = ''target-balance placement exhausted candidates'' \<and> w_files w' = w_files sample_world"
    by (rule cancelled_run_reports_exhausted [OF r(1) w sample_snapshot scan, of _ isort 0])
      (simp_all add: r sample_subtract sample_plan ctx_Err_def sample_scanned_fields del: subtract_candidates.simps, simp_all)
  then show ?thesis by blast
qed

lemma sample_separate: "separate (mount ` set sample_ranked) {''f''}" "inj_on mount (set sample_ranked)"
  "walked sample_penv sample_ranked \<subseteq> {''f''}"
proof -
  show "separate (mount ` set sample_ranked) {''f''}"
    using sample_paths by (simp add: separate_def sample_ranked_def)
  show "inj_on mount (set sample_ranked)" by (simp add: sample_ranked_def sample_target_def)
  show "walked sample_penv sample_ranked \<subseteq> {''f''}"
    by (auto simp: walked_def sample_ranked_def sample_penv_def sample_target_def walkDir_def placementExcludedDir_def)
qed


end
