(* ===== verification/SafeApply.thy ===== *)
theory SafeApply
  imports GoStrings
begin

text \<open>
  The test-and-confirm workflow for network changes, \<^verbatim>\<open>network/safeapply.go\<close>: a change is applied
  after a backup, and reverted after ninety seconds unless it is confirmed.

  A directory is the list of its files, in the order \<^verbatim>\<open>ReadDir\<close> returns them, or \<^const>\<open>None\<close> when it
  does not exist; directories inside it are ignored by the code and left out. Every operation holds
  the mutex, so it is one step; the operations that take it twice, or that run in a goroutine of
  their own, are several. A timer that has expired but whose callback still waits for the mutex can
  no longer be stopped. Instants are seconds.
\<close>

section \<open>Definitions\<close>

type_synonym cfgdir = "(string \<times> bytes) list"

definition safeTimeout :: int where
  "safeTimeout = 90"

record PendingChange =
  Description :: string
  AppliedAt :: int
  ExpiresAt :: int
  Remaining :: int

text \<open>
  The fields of the Go struct; then the two directories, the timers that are armed with their
  deadlines, the callbacks that have started, the \<^verbatim>\<open>ConfirmWithToken\<close> calls between check and
  confirmation, and the number of timers created.
\<close>

record SafeApply =
  pending :: bool
  timer :: "nat option"
  desc :: string
  token :: string
  applied :: int
  networkDir :: "cfgdir option"
  backupDir :: "cfgdir option"
  armed :: "(nat \<times> int) list"
  fired :: "nat list"
  checked :: nat
  timers :: nat

text \<open>
  What can fail: creating the backup directory, reading the network directory, copying its \<open>n\<close>-th
  file; for a restore, removing some files, reading the backup, writing its \<open>n\<close>-th file. A copy that
  fails may leave any contents under the name it was writing.
\<close>

record sa_faults =
  bf_mkdir :: bool
  bf_readdir :: bool
  bf_copy :: "(nat \<times> bytes option) option"
  rf_keep :: "string \<Rightarrow> bool"
  rf_readdir :: bool
  rf_copy :: "(nat \<times> bytes option) option"

datatype sa_error = AlreadyPending | BackupFailed | WriteFailed | ReloadFailed | NoPending | RestoreFailed
  | ReloadAfterRevert | BadLink

definition put_file :: "cfgdir \<Rightarrow> string \<times> bytes \<Rightarrow> cfgdir" where
  "put_file d f = filter (\<lambda>x. fst x \<noteq> fst f) d @ [f]"

definition HasSuffix :: "string \<Rightarrow> string \<Rightarrow> bool" where
  "HasSuffix s suffix \<longleftrightarrow> length suffix \<le> length s \<and> drop (length s - length suffix) s = suffix"

definition is_config :: "string \<Rightarrow> bool" where
  "is_config name \<longleftrightarrow> HasSuffix name ''.network'' \<or> HasSuffix name ''.netdev'' \<or> HasSuffix name ''.link''"

text \<open>The first files of a copy loop that fails at the \<open>n\<close>-th, and whether it got through.\<close>

definition copied :: "(nat \<times> bytes option) option \<Rightarrow> cfgdir \<Rightarrow> bool \<times> cfgdir" where
  "copied fault d =
     (case fault of
        None \<Rightarrow> (True, d)
      | Some (n, part) \<Rightarrow>
          if n < length d then (False, take n d @ (case part of None \<Rightarrow> [] | Some c \<Rightarrow> [(fst (d ! n), c)])) else (True, d))"

definition backup :: "sa_faults \<Rightarrow> SafeApply \<Rightarrow> bool \<times> SafeApply" where
  "backup flt s =
     (if bf_mkdir flt then (False, s\<lparr>backupDir := None\<rparr>)
      else case networkDir s of
        None \<Rightarrow> (True, s\<lparr>backupDir := Some []\<rparr>)
      | Some d \<Rightarrow>
          if bf_readdir flt then (False, s\<lparr>backupDir := Some []\<rparr>)
          else case copied (bf_copy flt) d of (ok, d') \<Rightarrow> (ok, s\<lparr>backupDir := Some d'\<rparr>))"

definition restore :: "sa_faults \<Rightarrow> SafeApply \<Rightarrow> bool \<times> SafeApply" where
  "restore flt s =
     (let net = map_option (filter (\<lambda>f. \<not> is_config (fst f) \<or> rf_keep flt (fst f))) (networkDir s) in
      if rf_readdir flt then (False, s\<lparr>networkDir := net\<rparr>)
      else case backupDir s of
        None \<Rightarrow> (False, s\<lparr>networkDir := net\<rparr>)
      | Some b \<Rightarrow>
          (case net of
             None \<Rightarrow> (b = [], s\<lparr>networkDir := net\<rparr>)
           | Some d \<Rightarrow> (case copied (rf_copy flt) b of (ok, b') \<Rightarrow> (ok, s\<lparr>networkDir := Some (foldl put_file d b')\<rparr>))))"

definition stop_timer :: "SafeApply \<Rightarrow> SafeApply" where
  "stop_timer s = (case timer s of None \<Rightarrow> s | Some i \<Rightarrow> s\<lparr>armed := filter (\<lambda>a. fst a \<noteq> i) (armed s)\<rparr>)"

text \<open>
  \<open>write\<close> is the caller's function on the network directory; \<open>reloadOK\<close> the result of the reload
  command; \<open>tok\<close> the random token.
\<close>

definition Apply :: "sa_faults \<Rightarrow> (cfgdir option \<Rightarrow> bool \<times> cfgdir option) \<Rightarrow> bool \<Rightarrow> string \<Rightarrow> int \<Rightarrow> string \<Rightarrow> SafeApply \<Rightarrow>
    sa_error option \<times> SafeApply" where
  "Apply flt write reloadOK tok now description s =
     (if pending s then (Some AlreadyPending, s)
      else case backup flt s of
        (False, s1) \<Rightarrow> (Some BackupFailed, s1)
      | (True, s1) \<Rightarrow>
          (case write (networkDir s1) of
             (False, net) \<Rightarrow> (Some WriteFailed, snd (restore flt (s1\<lparr>networkDir := net\<rparr>)))
           | (True, net) \<Rightarrow>
               if \<not> reloadOK then (Some ReloadFailed, snd (restore flt (s1\<lparr>networkDir := net\<rparr>)))
               else (None, s1\<lparr>networkDir := net, pending := True, token := tok, desc := description, applied := now,
                      timer := Some (timers s1), armed := armed s1 @ [(timers s1, now + safeTimeout)], timers := Suc (timers s1)\<rparr>)))"

text \<open>The callback of the timer.\<close>

definition on_timeout :: "sa_faults \<Rightarrow> SafeApply \<Rightarrow> SafeApply" where
  "on_timeout flt s = (if \<not> pending s then s else (snd (restore flt s))\<lparr>pending := False, timer := None\<rparr>)"

definition Token :: "SafeApply \<Rightarrow> string" where
  "Token s = (if \<not> pending s then [] else token s)"

definition Confirm :: "SafeApply \<Rightarrow> sa_error option \<times> SafeApply" where
  "Confirm s =
     (if \<not> pending s then (Some NoPending, s)
      else (None, (stop_timer s)\<lparr>backupDir := None, pending := False, token := [], timer := None\<rparr>))"

text \<open>\<^verbatim>\<open>ConfirmWithToken\<close>: the check under the mutex; then, in a second critical section, \<^verbatim>\<open>Confirm\<close>.\<close>

definition token_matches :: "string \<Rightarrow> SafeApply \<Rightarrow> bool" where
  "token_matches tok s \<longleftrightarrow> pending s \<and> tok \<noteq> [] \<and> tok = token s"

definition ConfirmWithToken :: "string \<Rightarrow> SafeApply \<Rightarrow> sa_error option \<times> SafeApply" where
  "ConfirmWithToken tok s = (if \<not> token_matches tok s then (Some BadLink, s) else Confirm s)"

definition Revert :: "sa_faults \<Rightarrow> bool \<Rightarrow> SafeApply \<Rightarrow> sa_error option \<times> SafeApply" where
  "Revert flt reloadOK s =
     (if \<not> pending s then (Some NoPending, s)
      else case restore flt (stop_timer s) of
        (False, s1) \<Rightarrow> (Some RestoreFailed, s1)
      | (True, s1) \<Rightarrow>
          if \<not> reloadOK then (Some ReloadAfterRevert, s1)
          else (None, s1\<lparr>pending := False, token := [], timer := None\<rparr>))"

definition Status :: "int \<Rightarrow> SafeApply \<Rightarrow> PendingChange option" where
  "Status now s =
     (if \<not> pending s then None
      else let expires = applied s + safeTimeout; remaining = expires - now in
        Some \<lparr>Description = desc s, AppliedAt = applied s, ExpiresAt = expires,
              Remaining = (if remaining < 0 then 0 else remaining)\<rparr>)"

definition IsPending :: "SafeApply \<Rightarrow> bool" where
  "IsPending s = pending s"

definition NewSafeApply :: "cfgdir option \<Rightarrow> cfgdir option \<Rightarrow> SafeApply" where
  "NewSafeApply net bak = \<lparr>pending = False, timer = None, desc = [], token = [], applied = 0, networkDir = net, backupDir = bak,
     armed = [], fired = [], checked = 0, timers = 0\<rparr>"

subsection \<open>The links to reconfigure\<close>

definition managedNetworkdLinks :: "(string \<times> string) list \<Rightarrow> string list" where
  "managedNetworkdLinks links =
     map fst (filter (\<lambda>(name, state). \<not> (name = [] \<or> name = ''lo'' \<or> state = ''unmanaged'')) links)"

text \<open>
  \<^verbatim>\<open>reloadNetworkdWithRunner\<close>: \<open>run\<close> gives the output of a command or its failure, \<open>parse\<close> reads the
  link list from JSON.
\<close>

definition reloadNetworkdWithRunner :: "(string list \<Rightarrow> string option) \<Rightarrow> (string \<Rightarrow> (string \<times> string) list option) \<Rightarrow> bool" where
  "reloadNetworkdWithRunner run parse =
     (case run [''networkctl'', ''reload''] of
        None \<Rightarrow> False
      | Some _ \<Rightarrow>
          (case run [''networkctl'', ''list'', ''--json=short'', ''--no-pager''] of
             None \<Rightarrow> False
           | Some out \<Rightarrow>
               (case parse out of
                  None \<Rightarrow> False
                | Some payload \<Rightarrow>
                    let links = managedNetworkdLinks payload in
                    if links = [] then True else run ([''networkctl'', ''reconfigure''] @ links) \<noteq> None)))"

subsection \<open>Everything that can happen\<close>

text \<open>
  A system state is the instant, the workflow, and what the network directory held when the pending
  change was applied (recorded for the statements only).
\<close>

record sa_sys =
  sy_clock :: int
  sy_sa :: SafeApply
  sy_before :: "cfgdir option"

definition is_dir :: "cfgdir option \<Rightarrow> bool" where
  "is_dir d \<longleftrightarrow> (case d of None \<Rightarrow> True | Some fs \<Rightarrow> distinct (map fst fs))"

text \<open>A caller's write function turns a directory into a directory.\<close>

definition dir_write :: "(cfgdir option \<Rightarrow> bool \<times> cfgdir option) \<Rightarrow> bool" where
  "dir_write write \<longleftrightarrow> (\<forall>d. is_dir d \<longrightarrow> is_dir (snd (write d)))"

inductive sa_step :: "sa_sys \<Rightarrow> sa_sys \<Rightarrow> bool" where
  tick: "sy_clock y \<le> t \<Longrightarrow> sa_step y (y\<lparr>sy_clock := t\<rparr>)"
| apply_ok: "Apply flt write reloadOK tok (sy_clock y) d (sy_sa y) = (None, s') \<Longrightarrow> tok \<noteq> [] \<Longrightarrow> dir_write write \<Longrightarrow>
    sa_step y (y\<lparr>sy_sa := s', sy_before := networkDir (sy_sa y)\<rparr>)"
| apply_err: "Apply flt write reloadOK tok (sy_clock y) d (sy_sa y) = (Some e, s') \<Longrightarrow> dir_write write \<Longrightarrow> sa_step y (y\<lparr>sy_sa := s'\<rparr>)"
| confirm: "Confirm (sy_sa y) = (e, s') \<Longrightarrow> sa_step y (y\<lparr>sy_sa := s'\<rparr>)"
| token_check: "token_matches tok (sy_sa y) \<Longrightarrow> sa_step y (y\<lparr>sy_sa := (sy_sa y)\<lparr>checked := Suc (checked (sy_sa y))\<rparr>\<rparr>)"
| token_confirm: "0 < checked (sy_sa y) \<Longrightarrow> Confirm ((sy_sa y)\<lparr>checked := checked (sy_sa y) - 1\<rparr>) = (e, s') \<Longrightarrow>
    sa_step y (y\<lparr>sy_sa := s'\<rparr>)"
| revert: "Revert flt reloadOK (sy_sa y) = (e, s') \<Longrightarrow> sa_step y (y\<lparr>sy_sa := s'\<rparr>)"
| expire: "(i, deadline) \<in> set (armed (sy_sa y)) \<Longrightarrow> deadline \<le> sy_clock y \<Longrightarrow>
    sa_step y (y\<lparr>sy_sa := (sy_sa y)\<lparr>armed := filter (\<lambda>a. fst a \<noteq> i) (armed (sy_sa y)), fired := fired (sy_sa y) @ [i]\<rparr>\<rparr>)"
| timeout: "i \<in> set (fired (sy_sa y)) \<Longrightarrow>
    sa_step y (y\<lparr>sy_sa := on_timeout flt ((sy_sa y)\<lparr>fired := remove1 i (fired (sy_sa y))\<rparr>)\<rparr>)"

inductive sa_reachable :: "cfgdir option \<Rightarrow> cfgdir option \<Rightarrow> sa_sys \<Rightarrow> bool" for net bak where
  start: "is_dir net \<Longrightarrow> sa_reachable net bak \<lparr>sy_clock = 0, sy_sa = NewSafeApply net bak, sy_before = None\<rparr>"
| next_step: "sa_reachable net bak y \<Longrightarrow> sa_step y y' \<Longrightarrow> sa_reachable net bak y'"

inductive_cases sa_step_cases: "sa_step y y'"

section \<open>Restoring\<close>

definition file_of :: "string \<Rightarrow> cfgdir option \<Rightarrow> bytes option" where
  "file_of n d = (case d of None \<Rightarrow> None | Some fs \<Rightarrow> map_of fs n)"

definition restore_clean :: "sa_faults \<Rightarrow> bool" where
  "restore_clean flt \<longleftrightarrow> \<not> rf_readdir flt \<and> rf_copy flt = None \<and> (\<forall>n. \<not> rf_keep flt n)"

lemma map_of_filter_key: "map_of (filter (\<lambda>x. P (fst x)) d) n = (if P n then map_of d n else None)"
  by (induction d) auto

lemma put_file_lookup: "map_of (put_file d f) n = (if n = fst f then Some (snd f) else map_of d n)"
  using map_of_filter_key [of "\<lambda>k. k \<noteq> fst f" d n] by (simp add: put_file_def map_add_def split: option.splits)

lemma put_files_lookup:
  "distinct (map fst b) \<Longrightarrow> map_of (foldl put_file d b) n = (case map_of b n of None \<Rightarrow> map_of d n | Some v \<Rightarrow> Some v)"
proof (induction b arbitrary: d)
  case (Cons f b)
  then have "n = fst f \<Longrightarrow> map_of b n = None" by (auto simp: map_of_eq_None_iff)
  with Cons show ?case by (cases f) (auto simp: put_file_lookup split: option.splits)
qed simp

lemma put_file_distinct: "distinct (map fst d) \<Longrightarrow> distinct (map fst (put_file d f))"
  by (auto simp: put_file_def distinct_map_filter)

lemma put_files_distinct: "distinct (map fst d) \<Longrightarrow> distinct (map fst (foldl put_file d b))"
  by (induction b arbitrary: d) (simp_all add: put_file_distinct)

text \<open>What a restore without failures leaves under each name.\<close>

definition restored :: "cfgdir \<Rightarrow> cfgdir option \<Rightarrow> string \<Rightarrow> bytes option" where
  "restored b net n = (case map_of b n of Some v \<Rightarrow> Some v | None \<Rightarrow> if is_config n then None else file_of n net)"

lemma restore_ok:
  assumes "restore_clean flt" "backupDir s = Some b" "distinct (map fst b)" "networkDir s \<noteq> None \<or> b = []"
  shows "\<exists>net. restore flt s = (True, s\<lparr>networkDir := net\<rparr>) \<and> (\<forall>n. file_of n net = restored b (networkDir s) n)"
proof (cases "networkDir s")
  case None
  then show ?thesis using assms
    by (intro exI [of _ None]) (simp add: restore_def Let_def restore_clean_def restored_def file_of_def)
next
  case (Some d)
  let ?d = "filter (\<lambda>f. \<not> is_config (fst f)) d"
  have "map_of ?d n = (if is_config n then None else map_of d n)" for n
    using map_of_filter_key [of "\<lambda>n. \<not> is_config n" d n] by simp
  then have "file_of n (Some (foldl put_file ?d b)) = restored b (networkDir s) n" for n
    using Some assms(3) by (simp add: restored_def file_of_def put_files_lookup split: option.splits)
  moreover have "restore flt s = (True, s\<lparr>networkDir := Some (foldl put_file ?d b)\<rparr>)"
    using Some assms(1,2) by (simp add: restore_def Let_def restore_clean_def copied_def)
  ultimately show ?thesis by blast
qed

lemma restore_fields:
  "restore flt s = (ok, s') \<Longrightarrow> \<exists>net. s' = s\<lparr>networkDir := net\<rparr> \<and> (is_dir (networkDir s) \<longrightarrow> is_dir net)"
  by (auto simp: restore_def Let_def is_dir_def put_files_distinct distinct_map_filter split: if_splits option.splits prod.splits)

section \<open>The invariant\<close>

definition before_files :: "sa_sys \<Rightarrow> cfgdir" where
  "before_files y = (case sy_before y of None \<Rightarrow> [] | Some d \<Rightarrow> d)"

definition sa_inv :: "sa_sys \<Rightarrow> bool" where
  "sa_inv y \<longleftrightarrow> is_dir (networkDir (sy_sa y)) \<and>
     (pending (sy_sa y) \<longrightarrow> backupDir (sy_sa y) = Some (before_files y) \<and> distinct (map fst (before_files y)) \<and> token (sy_sa y) \<noteq> [])"

lemma backup_ok: "backup flt s = (ok, s') \<Longrightarrow>
    \<exists>b. s' = s\<lparr>backupDir := b\<rparr> \<and> (ok \<longrightarrow> b = Some (case networkDir s of None \<Rightarrow> [] | Some d \<Rightarrow> d))"
  by (auto simp: backup_def copied_def split: if_splits option.splits)

lemma stop_timer_fields [simp]:
  "pending (stop_timer s) = pending s" "networkDir (stop_timer s) = networkDir s" "backupDir (stop_timer s) = backupDir s"
  "token (stop_timer s) = token s" "applied (stop_timer s) = applied s" "fired (stop_timer s) = fired s"
  by (simp_all add: stop_timer_def split: option.splits)

lemma Apply_cases:
  assumes "Apply flt write reloadOK tok now d s = (e, s')"
  obtains (busy) "e = Some AlreadyPending" "pending s" "s' = s"
  | (no_backup) b where "e = Some BackupFailed" "\<not> pending s" "s' = s\<lparr>backupDir := b\<rparr>"
  | (undone) ok net where "e = Some WriteFailed \<or> e = Some ReloadFailed" "\<not> pending s" "write (networkDir s) = (ok, net)"
      "s' = snd (restore flt (s\<lparr>backupDir := Some (case networkDir s of None \<Rightarrow> [] | Some d \<Rightarrow> d), networkDir := net\<rparr>))"
  | (change) net where "e = None" "\<not> pending s" "write (networkDir s) = (True, net)"
      "s' = s\<lparr>backupDir := Some (case networkDir s of None \<Rightarrow> [] | Some d \<Rightarrow> d), networkDir := net, pending := True, token := tok,
         desc := d, applied := now, timer := Some (timers s), armed := armed s @ [(timers s, now + safeTimeout)],
         timers := Suc (timers s)\<rparr>"
proof -
  let ?b = "Some (case networkDir s of None \<Rightarrow> [] | Some d \<Rightarrow> d)"
  obtain okb sb where b: "backup flt s = (okb, sb)" by fastforce
  obtain bb where sb: "sb = s\<lparr>backupDir := bb\<rparr>" and bb: "okb \<Longrightarrow> bb = ?b"
    using backup_ok [OF b] by blast
  obtain ok net where w: "write (networkDir s) = (ok, net)" by fastforce
  consider "pending s" | "\<not> pending s" "\<not> okb" | "\<not> pending s" "okb" "\<not> (ok \<and> reloadOK)" | "\<not> pending s" "okb" "ok" "reloadOK"
    by blast
  then show ?thesis
  proof cases
    case 1
    then show ?thesis using assms by (intro busy) (simp_all add: Apply_def)
  next
    case 2
    then show ?thesis using assms b sb by (intro no_backup [of bb]) (simp_all add: Apply_def)
  next
    case 3
    then have "Apply flt write reloadOK tok now d s =
        (Some (if ok then ReloadFailed else WriteFailed), snd (restore flt (s\<lparr>backupDir := ?b, networkDir := net\<rparr>)))"
      using b sb bb w by (cases ok) (simp_all add: Apply_def)
    then show ?thesis using assms 3(1) w by (intro undone [of ok net]) (cases ok; simp)+
  next
    case 4
    then show ?thesis using assms b sb bb w by (intro change [of net]) (simp_all add: Apply_def)
  qed
qed

lemma sa_inv_step:
  assumes "sa_step y y'" "sa_inv y"
  shows "sa_inv y'"
  using assms(1)
proof cases
  case (apply_ok flt wr reloadOK tok d s')
  from apply_ok(2) show ?thesis
  proof (cases rule: Apply_cases)
    case (change net)
    then have "is_dir net" using apply_ok(4) assms(2) unfolding dir_write_def sa_inv_def by (metis snd_conv)
    with change apply_ok(1,3) assms(2) show ?thesis
      by (auto simp: sa_inv_def before_files_def is_dir_def split: option.splits)
  qed simp_all
next
  case (apply_err flt wr reloadOK tok d e s')
  from apply_err(2) show ?thesis
  proof (cases rule: Apply_cases)
    case busy
    then show ?thesis using assms(2) apply_err(1) by (cases y) simp
  next
    case (no_backup b)
    then show ?thesis using assms(2) apply_err(1) by (simp add: sa_inv_def)
  next
    case (undone ok net)
    let ?s = "(sy_sa y)\<lparr>backupDir := Some (case networkDir (sy_sa y) of None \<Rightarrow> [] | Some d \<Rightarrow> d), networkDir := net\<rparr>"
    have net: "is_dir net" using undone(3) apply_err(3) assms(2) unfolding dir_write_def sa_inv_def by (metis snd_conv)
    obtain ok' s'' where rs: "restore flt ?s = (ok', s'')" by fastforce
    obtain net' where "s'' = ?s\<lparr>networkDir := net'\<rparr>" "is_dir net'" using restore_fields [OF rs] net by auto
    then show ?thesis using undone apply_err(1) rs by (simp add: sa_inv_def)
  qed simp_all
next
  case (confirm e s')
  then show ?thesis using assms(2) by (auto simp: sa_inv_def Confirm_def before_files_def split: if_splits)
next
  case (token_confirm e s')
  then show ?thesis using assms(2) by (auto simp: sa_inv_def Confirm_def before_files_def split: if_splits)
next
  case (revert flt reloadOK e s')
  obtain ok s1 where rs: "restore flt (stop_timer (sy_sa y)) = (ok, s1)" by fastforce
  obtain net where "s1 = (stop_timer (sy_sa y))\<lparr>networkDir := net\<rparr>" "is_dir (networkDir (sy_sa y)) \<longrightarrow> is_dir net"
    using restore_fields [OF rs] by auto
  with revert rs assms(2) show ?thesis by (auto simp: sa_inv_def Revert_def before_files_def split: if_splits bool.splits)
next
  case (timeout i flt)
  let ?s = "(sy_sa y)\<lparr>fired := remove1 i (fired (sy_sa y))\<rparr>"
  obtain ok s1 where rs: "restore flt ?s = (ok, s1)" by fastforce
  obtain net where "s1 = ?s\<lparr>networkDir := net\<rparr>" "is_dir (networkDir (sy_sa y)) \<longrightarrow> is_dir net" using restore_fields [OF rs] by auto
  with timeout rs assms(2) show ?thesis by (auto simp: sa_inv_def on_timeout_def before_files_def)
qed (use assms(2) in \<open>auto simp: sa_inv_def before_files_def\<close>)

lemma sa_reachable_inv: "sa_reachable net bak y \<Longrightarrow> sa_inv y"
proof (induction rule: sa_reachable.induct)
  case start
  then show ?case by (simp add: sa_inv_def NewSafeApply_def)
next
  case (next_step y y')
  show ?case by (rule sa_inv_step [OF next_step.hyps(2) next_step.IH])
qed

section \<open>Undoing a change\<close>

text \<open>Every file there was before, and every configuration file, is as it was.\<close>

definition as_before :: "cfgdir option \<Rightarrow> cfgdir option \<Rightarrow> bool" where
  "as_before old new \<longleftrightarrow> (\<forall>n. is_config n \<or> file_of n old \<noteq> None \<longrightarrow> file_of n new = file_of n old)"

lemma as_before_refl [simp]: "as_before d d"
  by (simp add: as_before_def)

lemma restored_as_before:
  assumes "\<And>n. file_of n new = restored (case old of None \<Rightarrow> [] | Some d \<Rightarrow> d) net n"
  shows "as_before old new"
  using assms by (auto simp: as_before_def restored_def file_of_def split: option.splits)

lemma restore_undoes:
  assumes "restore_clean flt" "backupDir s = Some (case old of None \<Rightarrow> [] | Some d \<Rightarrow> d)" "is_dir old" "networkDir s \<noteq> None \<or> old = None"
  shows "\<exists>net. restore flt s = (True, s\<lparr>networkDir := net\<rparr>) \<and> as_before old net"
proof -
  have "distinct (map fst (case old of None \<Rightarrow> [] | Some d \<Rightarrow> d))" using assms(3) by (simp add: is_dir_def split: option.splits)
  moreover have "networkDir s \<noteq> None \<or> (case old of None \<Rightarrow> [] | Some d \<Rightarrow> d) = []" using assms(4) by auto
  ultimately obtain net where "restore flt s = (True, s\<lparr>networkDir := net\<rparr>)"
      "\<And>n. file_of n net = restored (case old of None \<Rightarrow> [] | Some d \<Rightarrow> d) (networkDir s) n"
    using restore_ok [OF assms(1,2)] by blast
  then show ?thesis using restored_as_before by blast
qed

lemma pending_backup:
  assumes "sa_reachable net bak y" "pending (sy_sa y)"
  shows "backupDir (sy_sa y) = Some (case sy_before y of None \<Rightarrow> [] | Some d \<Rightarrow> d)" "is_dir (sy_before y)"
  using sa_reachable_inv [OF assms(1)] assms(2) by (auto simp: sa_inv_def before_files_def is_dir_def split: option.splits)

text \<open>
  C4. Whatever was applied, confirmed, reverted or timed out before, a pending change can be undone:
  when nothing fails and the network directory was not deleted, \<^verbatim>\<open>Revert\<close> succeeds, and so does the
  callback of the timer; the change is no longer pending, and every configuration file, and every
  other file there was, is as it was before the change.
\<close>

theorem pending_restorable:
  assumes "sa_reachable net bak y" "pending (sy_sa y)" "restore_clean flt"
    and "networkDir (sy_sa y) \<noteq> None \<or> sy_before y = None"
  shows "(\<exists>s'. Revert flt True (sy_sa y) = (None, s') \<and> \<not> pending s' \<and> token s' = [] \<and> as_before (sy_before y) (networkDir s')) \<and>
    \<not> pending (on_timeout flt (sy_sa y)) \<and> as_before (sy_before y) (networkDir (on_timeout flt (sy_sa y)))"
proof -
  note b = pending_backup [OF assms(1,2)]
  obtain net1 where 1: "restore flt (stop_timer (sy_sa y)) = (True, (stop_timer (sy_sa y))\<lparr>networkDir := net1\<rparr>)"
      "as_before (sy_before y) net1"
    using restore_undoes [of flt "stop_timer (sy_sa y)" "sy_before y"] assms(3,4) b by auto
  obtain net2 where 2: "restore flt (sy_sa y) = (True, (sy_sa y)\<lparr>networkDir := net2\<rparr>)" "as_before (sy_before y) net2"
    using restore_undoes [of flt "sy_sa y" "sy_before y"] assms(3,4) b by auto
  show ?thesis using assms(2) 1 2 by (simp add: Revert_def on_timeout_def)
qed


section \<open>Races and stuck changes\<close>

text \<open>Concrete runs: a caller that writes one file, no failures.\<close>

definition write_file :: "string \<times> bytes \<Rightarrow> cfgdir option \<Rightarrow> bool \<times> cfgdir option" where
  "write_file f d = (True, map_option (\<lambda>fs. put_file fs f) d)"

definition no_faults :: sa_faults where
  "no_faults = \<lparr>bf_mkdir = False, bf_readdir = False, bf_copy = None, rf_keep = \<lambda>_. False, rf_readdir = False, rf_copy = None\<rparr>"

lemma write_file_dir [simp]: "dir_write (write_file f)"
  by (simp add: dir_write_def write_file_def is_dir_def put_file_distinct split: option.splits)

lemma restore_clean_no_faults [simp]: "restore_clean no_faults"
  by (simp add: restore_clean_def no_faults_def)

definition fileA :: "string \<times> bytes" where
  "fileA = (''a.network'', [1])"

definition fileB :: "string \<times> bytes" where
  "fileB = (''b.network'', [2])"

lemmas sa_run_defs = NewSafeApply_def Apply_def backup_def copied_def write_file_def no_faults_def put_file_def fileA_def fileB_def
  safeTimeout_def Confirm_def stop_timer_def Revert_def restore_def Let_def is_config_def HasSuffix_def on_timeout_def Status_def
  file_of_def token_matches_def

text \<open>A first change, applied at the start over an empty directory.\<close>

definition run_A :: sa_sys where
  "run_A = \<lparr>sy_clock = 0,
     sy_sa = snd (Apply no_faults (write_file fileA) True ''t1'' 0 ''A'' (NewSafeApply (Some []) None)), sy_before = Some []\<rparr>"

lemma run_A_reachable: "sa_reachable (Some []) None run_A"
proof -
  let ?y = "\<lparr>sy_clock = 0, sy_sa = NewSafeApply (Some []) None, sy_before = None\<rparr>"
  have "sa_reachable (Some []) None ?y" by (rule sa_reachable.start) (simp add: is_dir_def)
  moreover have "Apply no_faults (write_file fileA) True ''t1'' 0 ''A'' (NewSafeApply (Some []) None) = (None, sy_sa run_A)"
    by (simp add: run_A_def sa_run_defs)
  then have "sa_step ?y run_A"
    using sa_step.apply_ok [of no_faults "write_file fileA" True "''t1''" ?y "''A''" "sy_sa run_A"]
    by (simp add: run_A_def NewSafeApply_def)
  ultimately show ?thesis by (rule sa_reachable.next_step)
qed

theorem pending_restorable_witness:
  "as_before (sy_before run_A) (networkDir (on_timeout no_faults (sy_sa run_A))) \<and>
   \<not> pending (on_timeout no_faults (sy_sa run_A))"
  using pending_restorable [OF run_A_reachable, of no_faults] by (simp add: run_A_def sa_run_defs)


lemma apply_B_step:
  assumes "\<not> pending (sy_sa y)" "networkDir (sy_sa y) = Some d"
  shows "sa_step y (y\<lparr>sy_sa := snd (Apply no_faults (write_file fileB) True ''t2'' (sy_clock y) ''B'' (sy_sa y)), sy_before := Some d\<rparr>)"
proof -
  have "Apply no_faults (write_file fileB) True ''t2'' (sy_clock y) ''B'' (sy_sa y) =
      (None, snd (Apply no_faults (write_file fileB) True ''t2'' (sy_clock y) ''B'' (sy_sa y)))"
    using assms by (simp add: Apply_def backup_def copied_def no_faults_def write_file_def)
  from sa_step.apply_ok [OF this] assms(2) show ?thesis by simp
qed

text \<open>
  C35. The timer of an earlier change can undo a later one at once: the callback only tests whether
  some change is pending. When the timer of a change expires while it is being confirmed, its
  callback waits for the mutex; a second change applied before it runs has all of its ninety seconds
  left, and the callback removes its configuration.
\<close>

theorem stale_timer_reverts:
  "\<exists>y i. sa_reachable (Some []) None y \<and> i \<in> set (fired (sy_sa y)) \<and> timer (sy_sa y) \<noteq> Some i \<and>
     Status (sy_clock y) (sy_sa y) = Some \<lparr>Description = ''B'', AppliedAt = 90, ExpiresAt = 180, Remaining = 90\<rparr> \<and>
     file_of (fst fileB) (networkDir (sy_sa y)) \<noteq> None \<and>
     (let s' = on_timeout no_faults ((sy_sa y)\<lparr>fired := remove1 i (fired (sy_sa y))\<rparr>) in
        sa_step y (y\<lparr>sy_sa := s'\<rparr>) \<and> \<not> pending s' \<and> file_of (fst fileB) (networkDir s') = None)"
proof -
  let ?y2 = "run_A\<lparr>sy_clock := 90\<rparr>"
  have "sa_step run_A ?y2" by (rule sa_step.tick) (simp add: run_A_def)
  with run_A_reachable have r2: "sa_reachable (Some []) None ?y2" by (rule sa_reachable.next_step)
  let ?y3 = "?y2\<lparr>sy_sa := (sy_sa ?y2)\<lparr>armed := filter (\<lambda>a. fst a \<noteq> 0) (armed (sy_sa ?y2)), fired := fired (sy_sa ?y2) @ [0]\<rparr>\<rparr>"
  have "sa_step ?y2 ?y3" by (rule sa_step.expire [of 0 90]) (simp_all add: run_A_def sa_run_defs)
  with r2 have r3: "sa_reachable (Some []) None ?y3" by (rule sa_reachable.next_step)
  let ?y4 = "?y3\<lparr>sy_sa := snd (Confirm (sy_sa ?y3))\<rparr>"
  have "sa_step ?y3 ?y4" by (rule sa_step.confirm [of _ "fst (Confirm (sy_sa ?y3))"]) simp
  with r3 have r4: "sa_reachable (Some []) None ?y4" by (rule sa_reachable.next_step)
  let ?y5 = "?y4\<lparr>sy_sa := snd (Apply no_faults (write_file fileB) True ''t2'' (sy_clock ?y4) ''B'' (sy_sa ?y4)), sy_before := Some [fileA]\<rparr>"
  have "sa_step ?y4 ?y5" by (rule apply_B_step) (simp_all add: run_A_def sa_run_defs)
  with r4 have "sa_reachable (Some []) None ?y5" by (rule sa_reachable.next_step)
  moreover have f: "0 \<in> set (fired (sy_sa ?y5))" by (simp add: run_A_def sa_run_defs)
  moreover note sa_step.timeout [OF f, of no_faults]
  ultimately show ?thesis by (intro exI [of _ ?y5] exI [of _ "0::nat"]) (simp add: run_A_def sa_run_defs)
qed

text \<open>A token that was checked against one change can confirm another that was applied in between.\<close>

theorem token_confirms_other:
  "\<exists>y s'. sa_reachable (Some []) None y \<and> 0 < checked (sy_sa y) \<and> token (sy_sa y) = ''t2'' \<and>
     \<not> token_matches ''t1'' (sy_sa y) \<and> Confirm ((sy_sa y)\<lparr>checked := checked (sy_sa y) - 1\<rparr>) = (None, s') \<and>
     file_of (fst fileB) (networkDir s') \<noteq> None \<and> \<not> pending s'"
proof -
  let ?y2 = "run_A\<lparr>sy_sa := (sy_sa run_A)\<lparr>checked := Suc (checked (sy_sa run_A))\<rparr>\<rparr>"
  have "sa_step run_A ?y2" by (rule sa_step.token_check [of "''t1''"]) (simp add: run_A_def sa_run_defs)
  with run_A_reachable have r2: "sa_reachable (Some []) None ?y2" by (rule sa_reachable.next_step)
  let ?y3 = "?y2\<lparr>sy_sa := snd (Revert no_faults True (sy_sa ?y2))\<rparr>"
  have "sa_step ?y2 ?y3" by (rule sa_step.revert [of no_faults True _ "fst (Revert no_faults True (sy_sa ?y2))"]) simp
  with r2 have r3: "sa_reachable (Some []) None ?y3" by (rule sa_reachable.next_step)
  let ?y4 = "?y3\<lparr>sy_sa := snd (Apply no_faults (write_file fileB) True ''t2'' (sy_clock ?y3) ''B'' (sy_sa ?y3)), sy_before := Some []\<rparr>"
  have "sa_step ?y3 ?y4" by (rule apply_B_step) (simp_all add: run_A_def sa_run_defs)
  with r3 have "sa_reachable (Some []) None ?y4" by (rule sa_reachable.next_step)
  then show ?thesis by (intro exI [of _ ?y4]) (simp add: run_A_def sa_run_defs)
qed

text \<open>
  A \<^verbatim>\<open>Revert\<close> whose restore or reload fails leaves the change pending and its timer stopped: no timeout
  will undo it, and no other change is accepted until someone confirms or reverts it.
\<close>

theorem failed_revert_disarms:
  assumes "Revert flt reloadOK s = (Some e, s')" "pending s"
  shows "pending s' \<and> timer s' = timer s \<and> (\<forall>i. timer s = Some i \<longrightarrow> i \<notin> fst ` set (armed s'))"
proof -
  obtain ok s1 where r: "restore flt (stop_timer s) = (ok, s1)" by fastforce
  obtain net where "s1 = (stop_timer s)\<lparr>networkDir := net\<rparr>" using restore_fields [OF r] by blast
  with r assms show ?thesis by (auto simp: Revert_def stop_timer_def split: bool.splits if_splits option.splits)
qed

end
