(* ===== verification/Spec2Isabelle.thy ===== *)
theory Spec2Isabelle
  imports PlacementCycle SafeApply
begin

text \<open>
  SmoothNAS: a verification development of \<^verbatim>\<open>tierd\<close>, the daemon that manages tiered storage.

  \<^verbatim>\<open>MetaRecord\<close>, \<^verbatim>\<open>MetaCache\<close>, \<^verbatim>\<open>MetaShard\<close> and \<^verbatim>\<open>MetaStore\<close> model the per-pool metadata store of
  \<^verbatim>\<open>tierd/internal/tiering/meta\<close>.
\<close>

end
